(* ===== verification/Prelude.thy ===== *)
theory Prelude
  imports Main "HOL-Library.Word"
begin

text \<open>
  Types and generic facts shared by the whole development: the machine types of the ARM
  Cortex-Mx port (\<^verbatim>\<open>chtypes.h\<close>), the priority-ordered insertion that every
  ordered thread queue of the kernel performs, and lemmas on lists and words that the
  component theories use through the collections declared here.
\<close>

section \<open>Machine types\<close>

type_synonym u8 = "8 word"
type_synonym u32 = "32 word"

text \<open>Pointers are 32-bit addresses; \<^verbatim>\<open>NULL\<close> is address zero.\<close>

type_synonym addr = "32 word"

abbreviation (input) NULL :: addr where
  "NULL \<equiv> 0"

text \<open>
  The port's typedefs. \<open>msg_t\<close> and \<open>cnt_t\<close> are \<^verbatim>\<open>int32_t\<close>: they are kept as
  32-bit words and read with \<^const>\<open>sint\<close> wherever the code compares them.
\<close>

type_synonym tprio_t = u32
type_synonym msg_t = u32
type_synonym cnt_t = u32
type_synonym systime_t = u32
type_synonym eventmask_t = u32
type_synonym flagsmask_t = u32
type_synonym size_t = u32

section \<open>Collections\<close>

named_theorems queue_simps \<open>rewrite rules of the list view of thread queues\<close>
named_theorems inv_intros \<open>introduction rules of the kernel invariants\<close>

section \<open>Priority-ordered insertion\<close>

text \<open>
  \<open>ins_behind key x xs\<close> puts \<open>x\<close> behind every element whose key is at least that of
  \<open>x\<close>; \<open>ins_ahead key x xs\<close> puts it ahead of the elements with an equal key.
\<close>

definition ins_behind :: "('a \<Rightarrow> 'b::linorder) \<Rightarrow> 'a \<Rightarrow> 'a list \<Rightarrow> 'a list" where
  "ins_behind key x xs =
     takeWhile (\<lambda>c. key x \<le> key c) xs @ x # dropWhile (\<lambda>c. key x \<le> key c) xs"

definition ins_ahead :: "('a \<Rightarrow> 'b::linorder) \<Rightarrow> 'a \<Rightarrow> 'a list \<Rightarrow> 'a list" where
  "ins_ahead key x xs =
     takeWhile (\<lambda>c. key x < key c) xs @ x # dropWhile (\<lambda>c. key x < key c) xs"

text \<open>Non-increasing keys from the head on.\<close>

definition desc :: "('a \<Rightarrow> 'b::linorder) \<Rightarrow> 'a list \<Rightarrow> bool" where
  "desc key xs \<longleftrightarrow> sorted_wrt (\<lambda>a b. key b \<le> key a) xs"

lemma desc_Nil [simp]: "desc key []"
  by (simp add: desc_def)

lemma desc_Cons [simp]: "desc key (x # xs) \<longleftrightarrow> (\<forall>y\<in>set xs. key y \<le> key x) \<and> desc key xs"
  by (simp add: desc_def)

lemma desc_append:
  "desc key (xs @ ys) \<longleftrightarrow> desc key xs \<and> desc key ys \<and> (\<forall>x\<in>set xs. \<forall>y\<in>set ys. key y \<le> key x)"
  by (simp add: desc_def sorted_wrt_append)

lemma desc_cong: "(\<And>x. x \<in> set xs \<Longrightarrow> key x = key' x) \<Longrightarrow> desc key xs = desc key' xs"
  by (induction xs) auto

lemma desc_tl: "desc key xs \<Longrightarrow> desc key (tl xs)"
  by (cases xs) auto

lemma desc_remove1: "desc key xs \<Longrightarrow> desc key (remove1 x xs)"
  by (induction xs) (auto dest: notin_set_remove1)

lemma set_ins_behind [simp]: "set (ins_behind key x xs) = insert x (set xs)"
proof -
  have "set (takeWhile P xs) \<union> set (dropWhile P xs) = set xs" for P
    by (metis set_append takeWhile_dropWhile_id)
  then show ?thesis by (auto simp: ins_behind_def)
qed

lemma set_ins_ahead [simp]: "set (ins_ahead key x xs) = insert x (set xs)"
proof -
  have "set (takeWhile P xs) \<union> set (dropWhile P xs) = set xs" for P
    by (metis set_append takeWhile_dropWhile_id)
  then show ?thesis by (auto simp: ins_ahead_def)
qed

lemma distinct_insert_between:
  "xs = ys @ zs \<Longrightarrow> distinct (ys @ x # zs) \<longleftrightarrow> distinct xs \<and> x \<notin> set xs"
  by auto

lemma distinct_ins_behind [simp]:
  "distinct (ins_behind key x xs) \<longleftrightarrow> distinct xs \<and> x \<notin> set xs"
  unfolding ins_behind_def by (rule distinct_insert_between) (rule takeWhile_dropWhile_id [symmetric])

lemma distinct_ins_ahead [simp]:
  "distinct (ins_ahead key x xs) \<longleftrightarrow> distinct xs \<and> x \<notin> set xs"
  unfolding ins_ahead_def by (rule distinct_insert_between) (rule takeWhile_dropWhile_id [symmetric])

lemma length_ins_behind [simp]: "length (ins_behind key x xs) = Suc (length xs)"
  unfolding ins_behind_def by (metis length_append length_Cons add_Suc_right takeWhile_dropWhile_id)

lemma ins_not_Nil [simp]: "ins_behind key x xs \<noteq> []" "ins_ahead key x xs \<noteq> []"
  by (simp_all add: ins_behind_def ins_ahead_def)

lemma ins_behind_Cons:
  "ins_behind key x (y # ys) = (if key x \<le> key y then y # ins_behind key x ys else x # y # ys)"
  by (simp add: ins_behind_def)

lemma ins_ahead_Cons:
  "ins_ahead key x (y # ys) = (if key x < key y then y # ins_ahead key x ys else x # y # ys)"
  by (simp add: ins_ahead_def)

lemma ins_Nil [simp]: "ins_behind key x [] = [x]" "ins_ahead key x [] = [x]"
  by (simp_all add: ins_behind_def ins_ahead_def)

lemma desc_ins_behind: "desc key xs \<Longrightarrow> desc key (ins_behind key x xs)"
  by (induction xs) (auto simp: ins_behind_Cons)

lemma desc_ins_ahead: "desc key xs \<Longrightarrow> desc key (ins_ahead key x xs)"
  by (induction xs) (auto simp: ins_ahead_Cons)

lemma ins_cong:
  assumes "\<And>y. y \<in> set xs \<Longrightarrow> key y = key' y" and "key x = key' x"
  shows "ins_behind key x xs = ins_behind key' x xs" "ins_ahead key x xs = ins_ahead key' x xs"
  using assms by (induction xs) (auto simp: ins_behind_Cons ins_ahead_Cons)

section \<open>List facts\<close>

lemma set_remove1_distinct: "distinct xs \<Longrightarrow> set (remove1 x xs) = set xs - {x}"
  by (simp add: set_remove1_eq)

lemma hd_in_set_tl: "xs \<noteq> [] \<Longrightarrow> distinct xs \<Longrightarrow> set (tl xs) = set xs - {hd xs}"
  by (cases xs) auto

lemma last_in_set_butlast: "xs \<noteq> [] \<Longrightarrow> distinct xs \<Longrightarrow> set (butlast xs) = set xs - {last xs}"
  by (cases xs rule: rev_cases) auto

section \<open>Signed arithmetic\<close>

lemma sint_bounds32: "- 2147483648 \<le> sint (w :: 32 word)" "sint (w :: 32 word) < 2147483648"
  using sint_greater_eq [of w] sint_less [of w] by simp_all

lemma sint_plus32:
  assumes "- 2147483648 \<le> sint (v :: 32 word) + sint w" and "sint v + sint w < 2147483648"
  shows "sint (v + w) = sint v + sint w"
  using assms by (simp add: sint_word_ariths signed_take_bit_int_eq_self)

lemma sint_inc: "sint (w :: 32 word) < 2147483647 \<Longrightarrow> sint (w + 1) = sint w + 1"
  using sint_plus32 [of w 1] sint_bounds32 [of w] by simp

lemma sint_dec: "- 2147483648 < sint (w :: 32 word) \<Longrightarrow> sint (w - 1) = sint w - 1"
  using sint_plus32 [of w "- 1"] sint_bounds32 [of w] by simp

lemma sint_times32:
  assumes "- 2147483648 \<le> sint (v :: 32 word) * sint w" and "sint v * sint w < 2147483648"
  shows "sint (v * w) = sint v * sint w"
  using assms by (simp add: sint_word_ariths signed_take_bit_int_eq_self)

end
