(* ===== verification/ThreadLists.thy ===== *)
theory ThreadLists
  imports Prelude
begin

text \<open>
  Thread queues and lists as the code has them (\<^verbatim>\<open>os/kernel/include/chinline.h\<close>,
  \<^verbatim>\<open>chlists.h\<close>, \<^verbatim>\<open>os/kernel/src/chlists.c\<close>): circular lists linked through the
  \<open>p_next\<close> and \<open>p_prev\<close> fields of the threads, the header being part of the circle.
  The operations are the assignments of the source on those two fields; the walks over a
  queue are \<^theory_text>\<open>partial_function\<close>s, so that a walk that does not end is the value
  \<^term>\<open>None\<close>.  The rest of the kernel works on the list of threads that a header heads;
  the theorems at the end justify that view.
\<close>

section \<open>The link fields\<close>

record links =
  p_next :: "addr \<Rightarrow> addr"
  p_prev :: "addr \<Rightarrow> addr"
  prio_of :: "addr \<Rightarrow> tprio_t"

definition set_next :: "addr \<Rightarrow> addr \<Rightarrow> links \<Rightarrow> links" where
  "set_next a v h = h\<lparr>p_next := (p_next h)(a := v)\<rparr>"

definition set_prev :: "addr \<Rightarrow> addr \<Rightarrow> links \<Rightarrow> links" where
  "set_prev a v h = h\<lparr>p_prev := (p_prev h)(a := v)\<rparr>"

lemma set_next_sel [simp]:
  "p_next (set_next a v h) = (p_next h)(a := v)" "p_prev (set_next a v h) = p_prev h"
  "prio_of (set_next a v h) = prio_of h"
  by (simp_all add: set_next_def)

lemma set_prev_sel [simp]:
  "p_next (set_prev a v h) = p_next h" "p_prev (set_prev a v h) = (p_prev h)(a := v)"
  "prio_of (set_prev a v h) = prio_of h"
  by (simp_all add: set_prev_def)

section \<open>The operations\<close>

definition queue_init :: "addr \<Rightarrow> links \<Rightarrow> links" where
  "queue_init tqp h = set_next tqp tqp (set_prev tqp tqp h)"

definition list_init :: "addr \<Rightarrow> links \<Rightarrow> links" where
  "list_init tlp h = set_next tlp tlp h"

definition isempty :: "addr \<Rightarrow> links \<Rightarrow> bool" where
  "isempty p h \<longleftrightarrow> p_next h p = p"

definition notempty :: "addr \<Rightarrow> links \<Rightarrow> bool" where
  "notempty p h \<longleftrightarrow> p_next h p \<noteq> p"

text \<open>
  The four assignments that link \<open>tp\<close> in front of \<open>cp\<close>, shared by the ordered
  insertions: \<^verbatim>\<open>tp->p_next = cp; tp->p_prev = cp->p_prev;
  tp->p_prev->p_next = cp->p_prev = tp\<close>.
\<close>

definition insert_before :: "addr \<Rightarrow> addr \<Rightarrow> links \<Rightarrow> links" where
  "insert_before tp cp h =
     (let h1 = set_next tp cp h;
          h2 = set_prev tp (p_prev h1 cp) h1;
          h3 = set_prev cp tp h2
      in set_next (p_prev h2 tp) tp h3)"

partial_function (option) prio_scan :: "links \<Rightarrow> addr \<Rightarrow> addr \<Rightarrow> addr \<Rightarrow> addr option" where
  "prio_scan h tp tqp cp =
     (let cp' = p_next h cp
      in if cp' \<noteq> tqp \<and> prio_of h tp \<le> prio_of h cp' then prio_scan h tp tqp cp' else Some cp')"

definition prio_insert :: "addr \<Rightarrow> addr \<Rightarrow> links \<Rightarrow> links option" where
  "prio_insert tp tqp h =
     (case prio_scan h tp tqp tqp of None \<Rightarrow> None | Some cp \<Rightarrow> Some (insert_before tp cp h))"

definition queue_insert :: "addr \<Rightarrow> addr \<Rightarrow> links \<Rightarrow> links" where
  "queue_insert tp tqp h =
     (let h1 = set_next tp tqp h;
          h2 = set_prev tp (p_prev h1 tqp) h1;
          h3 = set_prev tqp tp h2
      in set_next (p_prev h2 tp) tp h3)"

definition fifo_remove :: "addr \<Rightarrow> links \<Rightarrow> addr \<times> links" where
  "fifo_remove tqp h =
     (let tp = p_next h tqp;
          h1 = set_next tqp (p_next h tp) h
      in (tp, set_prev (p_next h1 tqp) tqp h1))"

definition lifo_remove :: "addr \<Rightarrow> links \<Rightarrow> addr \<times> links" where
  "lifo_remove tqp h =
     (let tp = p_prev h tqp;
          h1 = set_prev tqp (p_prev h tp) h
      in (tp, set_next (p_prev h1 tqp) tqp h1))"

definition dequeue :: "addr \<Rightarrow> links \<Rightarrow> addr \<times> links" where
  "dequeue tp h =
     (let h1 = set_next (p_prev h tp) (p_next h tp) h
      in (tp, set_prev (p_next h1 tp) (p_prev h1 tp) h1))"

definition list_insert :: "addr \<Rightarrow> addr \<Rightarrow> links \<Rightarrow> links" where
  "list_insert tp tlp h = set_next tlp tp (set_next tp (p_next h tlp) h)"

definition list_remove :: "addr \<Rightarrow> links \<Rightarrow> addr \<times> links" where
  "list_remove tlp h = (let tp = p_next h tlp in (tp, set_next tlp (p_next h tp) h))"

text \<open>
  The walks of the scheduler over the ready list rely on the priority of its header,
  \<^verbatim>\<open>NOPRIO\<close>, being below the priority of every thread: they do not test for the header.
\<close>

partial_function (option) ready_scan :: "links \<Rightarrow> addr \<Rightarrow> addr \<Rightarrow> addr option" where
  "ready_scan h tp cp =
     (let cp' = p_next h cp
      in if prio_of h tp \<le> prio_of h cp' then ready_scan h tp cp' else Some cp')"

partial_function (option) ahead_scan :: "links \<Rightarrow> addr \<Rightarrow> addr \<Rightarrow> addr option" where
  "ahead_scan h tp cp =
     (let cp' = p_next h cp
      in if prio_of h tp < prio_of h cp' then ahead_scan h tp cp' else Some cp')"

definition ready_insert :: "addr \<Rightarrow> addr \<Rightarrow> links \<Rightarrow> links option" where
  "ready_insert tp rq h =
     (case ready_scan h tp rq of None \<Rightarrow> None | Some cp \<Rightarrow> Some (insert_before tp cp h))"

definition ahead_insert :: "addr \<Rightarrow> addr \<Rightarrow> links \<Rightarrow> links option" where
  "ahead_insert tp rq h =
     (case ahead_scan h tp rq of None \<Rightarrow> None | Some cp \<Rightarrow> Some (insert_before tp cp h))"

section \<open>The list view\<close>

text \<open>\<open>dseg h a xs b\<close>: the links lead from \<open>a\<close> through \<open>xs\<close> to \<open>b\<close> and back.\<close>

fun dseg :: "links \<Rightarrow> addr \<Rightarrow> addr list \<Rightarrow> addr \<Rightarrow> bool" where
  "dseg h a [] b \<longleftrightarrow> p_next h a = b \<and> p_prev h b = a"
| "dseg h a (x # xs) b \<longleftrightarrow> p_next h a = x \<and> p_prev h x = a \<and> dseg h x xs b"

fun sseg :: "links \<Rightarrow> addr \<Rightarrow> addr list \<Rightarrow> addr \<Rightarrow> bool" where
  "sseg h a [] b \<longleftrightarrow> p_next h a = b"
| "sseg h a (x # xs) b \<longleftrightarrow> p_next h a = x \<and> sseg h x xs b"

definition is_queue :: "links \<Rightarrow> addr \<Rightarrow> addr list \<Rightarrow> bool" where
  "is_queue h q xs \<longleftrightarrow> dseg h q xs q \<and> distinct (q # xs)"

definition is_stack :: "links \<Rightarrow> addr \<Rightarrow> addr list \<Rightarrow> bool" where
  "is_stack h l xs \<longleftrightarrow> sseg h l xs l \<and> distinct (l # xs)"

lemma dseg_append: "dseg h a (xs @ x # ys) b \<longleftrightarrow> dseg h a xs x \<and> dseg h x ys b"
  by (induction xs arbitrary: a) auto

lemma dseg_snoc: "dseg h a (xs @ [x]) b \<longleftrightarrow> dseg h a xs x \<and> p_next h x = b \<and> p_prev h b = x"
  by (simp add: dseg_append)

lemma dseg_set_next [simp]: "u \<noteq> a \<Longrightarrow> u \<notin> set xs \<Longrightarrow> dseg (set_next u v h) a xs b = dseg h a xs b"
  by (induction xs arbitrary: a) auto

lemma dseg_set_prev [simp]: "u \<noteq> b \<Longrightarrow> u \<notin> set xs \<Longrightarrow> dseg (set_prev u v h) a xs b = dseg h a xs b"
  by (induction xs arbitrary: a) auto

lemma sseg_set_next [simp]: "u \<noteq> a \<Longrightarrow> u \<notin> set xs \<Longrightarrow> sseg (set_next u v h) a xs b = sseg h a xs b"
  by (induction xs arbitrary: a) auto

lemma sseg_set_prev [simp]: "sseg (set_prev u v h) a xs b = sseg h a xs b"
  by (induction xs arbitrary: a) auto

lemma dseg_first: "dseg h a xs b \<Longrightarrow> p_next h a = (case xs of [] \<Rightarrow> b | x # _ \<Rightarrow> x)"
  by (cases xs) auto

lemma dseg_last: "dseg h a xs b \<Longrightarrow> p_prev h b = (if xs = [] then a else last xs)"
  by (induction xs arbitrary: a) auto

section \<open>Linking and unlinking\<close>

lemma insert_before_eq:
  "insert_before tp cp h =
     set_next (if cp = tp then p_prev h tp else p_prev h cp) tp
       (set_prev cp tp (set_prev tp (p_prev h cp) (set_next tp cp h)))"
  by (simp add: insert_before_def Let_def)

lemma dseg_insert_before:
  assumes "dseg h a xs c" and "distinct (a # xs)" and "c \<notin> set xs"
    and "tp \<notin> insert a (insert c (set xs))"
  shows "dseg (insert_before tp c h) a (xs @ [tp]) c"
proof (cases xs rule: rev_cases)
  case Nil
  with assms show ?thesis by (auto simp: insert_before_eq)
next
  case (snoc ys y)
  with assms show ?thesis by (auto simp: insert_before_eq dseg_snoc dseg_append)
qed

lemma is_queue_insert_before:
  assumes q: "is_queue h q (xs @ ys)" and tp: "tp \<notin> insert q (set (xs @ ys))"
    and cp: "cp = (case ys of [] \<Rightarrow> q | y # _ \<Rightarrow> y)"
  shows "is_queue (insert_before tp cp h) q (xs @ tp # ys)"
proof (cases ys)
  case Nil
  with assms show ?thesis
    using dseg_insert_before [of h q xs q tp] by (auto simp: is_queue_def)
next
  case (Cons y zs)
  with q have seg: "dseg h q xs y" "dseg h y zs q" and d: "distinct (q # xs @ y # zs)"
    by (simp_all add: is_queue_def dseg_append)
  from seg(1) d tp Cons have "dseg (insert_before tp y h) q (xs @ [tp]) y"
    by (intro dseg_insert_before) auto
  then have "dseg (insert_before tp y h) q xs tp" "p_next (insert_before tp y h) tp = y"
      "p_prev (insert_before tp y h) y = tp"
    by (simp_all add: dseg_snoc)
  moreover from seg(1) have "p_prev h y = (if xs = [] then q else last xs)"
    by (rule dseg_last)
  then have "p_prev h y \<in> insert q (set xs)" by simp
  then have "p_prev h y \<noteq> y" "p_prev h y \<notin> set zs"
    using d by auto
  then have "dseg (insert_before tp y h) y zs q"
    using seg(2) d tp Cons by (auto simp: insert_before_eq)
  ultimately show ?thesis
    using d tp Cons cp by (auto simp: is_queue_def dseg_append)
qed

lemma dequeue_eq:
  "p_prev h tp \<noteq> tp \<Longrightarrow>
   dequeue tp h = (tp, set_prev (p_next h tp) (p_prev h tp) (set_next (p_prev h tp) (p_next h tp) h))"
  by (simp add: dequeue_def Let_def)

lemma dseg_unlink:
  assumes "dseg h a xs t" "dseg h t ys b" "distinct (xs @ ys)" "a \<notin> set xs" "b \<notin> set ys"
    "t \<notin> set xs \<union> set ys" "a \<notin> set ys" "b \<notin> set xs" "t \<noteq> a" "t \<noteq> b"
  shows "dseg (set_prev (p_next h t) (p_prev h t) (set_next (p_prev h t) (p_next h t) h)) a (xs @ ys) b"
proof -
  have "p_prev h t = (if xs = [] then a else last xs)"
    using assms(1) by (rule dseg_last)
  then show ?thesis
    using assms by (cases xs rule: rev_cases; cases ys) (auto simp: dseg_append dseg_snoc)
qed

lemma is_queue_dequeue:
  assumes "is_queue h q (xs @ t # ys)"
  shows "is_queue (snd (dequeue t h)) q (xs @ ys)"
proof -
  from assms have seg: "dseg h q xs t" "dseg h t ys q" and d: "distinct (q # xs @ t # ys)"
    by (simp_all add: is_queue_def dseg_append)
  have "p_prev h t = (if xs = [] then q else last xs)"
    using seg(1) by (rule dseg_last)
  with d have "p_prev h t \<noteq> t" by (auto split: if_splits)
  then show ?thesis
    using dseg_unlink [OF seg] d by (auto simp: is_queue_def dequeue_eq)
qed

lemma fifo_remove_dequeue:
  assumes "is_queue h q (x # xs)"
  shows "fifo_remove q h = dequeue x h"
  using assms by (auto simp: is_queue_def fifo_remove_def dequeue_def Let_def)

lemma lifo_remove_dequeue:
  assumes "is_queue h q (xs @ [x])"
  shows "lifo_remove q h = dequeue x h"
proof -
  have comm: "set_prev u v (set_next u' v' h) = set_next u' v' (set_prev u v h)" for u v u' v'
    by (simp add: set_prev_def set_next_def)
  from assms have "p_prev h q = x" "p_next h x = q" "p_prev h x \<noteq> x"
    using dseg_last [of h q xs x] by (auto simp: is_queue_def dseg_snoc split: if_splits)
  then show ?thesis by (simp add: lifo_remove_def dequeue_def Let_def comm)
qed

lemma fifo_remove_empty: "is_queue h q [] \<Longrightarrow> fst (fifo_remove q h) = q \<and> is_queue (snd (fifo_remove q h)) q []"
  by (simp add: is_queue_def fifo_remove_def Let_def)

section \<open>The walks\<close>

lemma prio_scan_dseg:
  "dseg h a xs q \<Longrightarrow> q \<notin> set xs \<Longrightarrow>
   prio_scan h tp q a =
     Some (case dropWhile (\<lambda>c. prio_of h tp \<le> prio_of h c) xs of [] \<Rightarrow> q | c # _ \<Rightarrow> c)"
proof (induction xs arbitrary: a)
  case Nil
  then show ?case by (subst prio_scan.simps) simp
next
  case (Cons x xs)
  then show ?case by (subst prio_scan.simps) auto
qed

lemma ready_scan_dseg:
  "dseg h a xs q \<Longrightarrow> prio_of h q < prio_of h tp \<Longrightarrow>
   ready_scan h tp a =
     Some (case dropWhile (\<lambda>c. prio_of h tp \<le> prio_of h c) xs of [] \<Rightarrow> q | c # _ \<Rightarrow> c)"
proof (induction xs arbitrary: a)
  case Nil
  then show ?case by (subst ready_scan.simps) auto
next
  case (Cons x xs)
  then show ?case by (subst ready_scan.simps) auto
qed

lemma ahead_scan_dseg:
  "dseg h a xs q \<Longrightarrow> prio_of h q \<le> prio_of h tp \<Longrightarrow>
   ahead_scan h tp a =
     Some (case dropWhile (\<lambda>c. prio_of h tp < prio_of h c) xs of [] \<Rightarrow> q | c # _ \<Rightarrow> c)"
proof (induction xs arbitrary: a)
  case Nil
  then show ?case by (subst ahead_scan.simps) auto
next
  case (Cons x xs)
  then show ?case by (subst ahead_scan.simps) auto
qed

section \<open>All queues of the system at once\<close>

text \<open>
  \<open>rep QH SH Q h\<close>: in the links \<open>h\<close> every header of \<open>QH\<close> heads a doubly linked
  queue and every header of \<open>SH\<close> a singly linked list, with the contents \<open>Q\<close>, and no
  node is shared.  \<open>unlinked\<close>: a thread that is in none of them, as the
  precondition of the insertions asks.
\<close>

definition rep :: "addr set \<Rightarrow> addr set \<Rightarrow> (addr \<Rightarrow> addr list) \<Rightarrow> links \<Rightarrow> bool" where
  "rep QH SH Q h \<longleftrightarrow>
     (\<forall>q\<in>QH. is_queue h q (Q q)) \<and> (\<forall>l\<in>SH. is_stack h l (Q l)) \<and> QH \<inter> SH = {} \<and>
     (\<forall>q\<in>QH \<union> SH. set (Q q) \<inter> (QH \<union> SH) = {}) \<and>
     (\<forall>q\<in>QH \<union> SH. \<forall>r\<in>QH \<union> SH. q \<noteq> r \<longrightarrow> set (Q q) \<inter> set (Q r) = {})"

definition unlinked :: "addr set \<Rightarrow> addr set \<Rightarrow> (addr \<Rightarrow> addr list) \<Rightarrow> addr \<Rightarrow> bool" where
  "unlinked QH SH Q tp \<longleftrightarrow> tp \<notin> QH \<union> SH \<and> (\<forall>q\<in>QH \<union> SH. tp \<notin> set (Q q))"

text \<open>\<open>touches A h h'\<close>: the two link heaps differ at most in the nodes \<open>A\<close>.\<close>

definition touches :: "addr set \<Rightarrow> links \<Rightarrow> links \<Rightarrow> bool" where
  "touches A h h' \<longleftrightarrow>
     (\<forall>a. a \<notin> A \<longrightarrow> p_next h' a = p_next h a \<and> p_prev h' a = p_prev h a) \<and> prio_of h' = prio_of h"

lemma dseg_touches:
  "touches A h h' \<Longrightarrow> insert a (insert b (set xs)) \<inter> A = {} \<Longrightarrow> dseg h' a xs b = dseg h a xs b"
  by (induction xs arbitrary: a) (auto simp: touches_def)

lemma sseg_touches:
  "touches A h h' \<Longrightarrow> insert a (set xs) \<inter> A = {} \<Longrightarrow> sseg h' a xs b = sseg h a xs b"
  by (induction xs arbitrary: a) (auto simp: touches_def)

text \<open>
  The frame rule: an operation that touches only the nodes of one queue and a set of
  unlinked nodes, and leaves that queue with contents \<open>xs\<close>, updates the representation
  at that header alone.
\<close>

lemma rep_frame:
  assumes r: "rep QH SH Q h" and q: "q \<in> QH \<union> SH"
    and t: "touches (insert q (set (Q q) \<union> D)) h h'" and D: "\<forall>d\<in>D. unlinked QH SH Q d"
    and new: "q \<in> QH \<Longrightarrow> is_queue h' q xs" "q \<in> SH \<Longrightarrow> is_stack h' q xs"
    and sub: "set xs \<subseteq> set (Q q) \<union> D"
  shows "rep QH SH (Q(q := xs)) h'"
proof -
  have other: "insert r (set (Q r)) \<inter> insert q (set (Q q) \<union> D) = {}"
    if "r \<in> QH \<union> SH" "r \<noteq> q" for r
    using r q D that unfolding rep_def unlinked_def by blast
  have "is_queue h' r (Q r)" if "r \<in> QH" "r \<noteq> q" for r
  proof -
    have "is_queue h r (Q r)" using r that(1) by (simp add: rep_def)
    then show ?thesis
      using dseg_touches [OF t, of r r "Q r"] other [of r] that by (simp add: is_queue_def)
  qed
  moreover have "is_stack h' r (Q r)" if "r \<in> SH" "r \<noteq> q" for r
  proof -
    have "is_stack h r (Q r)" using r that(1) by (simp add: rep_def)
    then show ?thesis
      using sseg_touches [OF t, of r "Q r"] other [of r] that by (simp add: is_stack_def)
  qed
  moreover have "set xs \<inter> (QH \<union> SH) = {}"
    using r q D sub unfolding rep_def unlinked_def by blast
  moreover have "set xs \<inter> set (Q r) = {}" if "r \<in> QH \<union> SH" "r \<noteq> q" for r
    using other [OF that] sub by blast
  moreover have "QH \<inter> SH = {}" "\<forall>r\<in>QH \<union> SH. set (Q r) \<inter> (QH \<union> SH) = {}"
      "\<forall>r\<in>QH \<union> SH. \<forall>r'\<in>QH \<union> SH. r \<noteq> r' \<longrightarrow> set (Q r) \<inter> set (Q r') = {}"
    using r by (simp_all add: rep_def)
  ultimately show ?thesis
    using q new unfolding rep_def by (auto simp: Int_commute)
qed

lemma touches_insert_before:
  "touches {tp, cp, p_prev h cp} h (insert_before tp cp h)"
  by (auto simp: touches_def insert_before_def Let_def)

lemma queue_insert_before: "queue_insert tp tqp h = insert_before tp tqp h"
  by (simp add: queue_insert_def insert_before_def Let_def)

lemma rep_queueD:
  assumes "rep QH SH Q h" and "q \<in> QH"
  shows "is_queue h q (Q q)" "distinct (q # Q q)"
  using assms by (auto simp: rep_def is_queue_def)

lemma rep_insert_before:
  assumes r: "rep QH SH Q h" and q: "q \<in> QH" and d: "unlinked QH SH Q tp" and Q: "Q q = xs @ ys"
    and cp: "cp = (case ys of [] \<Rightarrow> q | y # _ \<Rightarrow> y)"
  shows "rep QH SH (Q(q := xs @ tp # ys)) (insert_before tp cp h)"
proof (rule rep_frame [where D = "{tp}", OF r])
  have "tp \<notin> insert q (set (Q q))"
    using d q unfolding unlinked_def by blast
  then have tp: "tp \<notin> insert q (set (xs @ ys))" using Q by simp
  have isq: "is_queue h q (xs @ ys)" using rep_queueD(1) [OF r q] Q by simp
  show "is_queue (insert_before tp cp h) q (xs @ tp # ys)"
    using isq tp cp by (rule is_queue_insert_before)
  have "p_prev h cp = (if xs = [] then q else last xs)"
    using isq cp dseg_last [of h q xs cp] by (cases ys) (auto simp: is_queue_def dseg_append)
  then have "p_prev h cp \<in> insert q (set xs)" by auto
  moreover have "cp \<in> insert q (set ys)" using cp by (auto split: list.splits)
  ultimately have "{tp, cp, p_prev h cp} \<subseteq> insert q (set (Q q) \<union> {tp})" using Q by auto
  then show "touches (insert q (set (Q q) \<union> {tp})) h (insert_before tp cp h)"
    using touches_insert_before [of tp cp h] unfolding touches_def by blast
  show "q \<in> QH \<union> SH" "\<forall>t\<in>{tp}. unlinked QH SH Q t" "set (xs @ tp # ys) \<subseteq> set (Q q) \<union> {tp}"
    using q d Q by auto
  show "is_stack (insert_before tp cp h) q (xs @ tp # ys)" if "q \<in> SH"
    using that q r by (auto simp: rep_def)
qed

lemma rep_queue_insert:
  assumes "rep QH SH Q h" and "q \<in> QH" and "unlinked QH SH Q tp"
  shows "rep QH SH (Q(q := Q q @ [tp])) (queue_insert tp q h)"
  using rep_insert_before [OF assms, of "Q q" "[]" q] by (simp add: queue_insert_before)

lemma rep_prio_insert:
  assumes r: "rep QH SH Q h" and q: "q \<in> QH" and d: "unlinked QH SH Q tp"
  shows "\<exists>h'. prio_insert tp q h = Some h' \<and> rep QH SH (Q(q := ins_behind (prio_of h) tp (Q q))) h'"
proof -
  let ?cp = "case dropWhile (\<lambda>c. prio_of h tp \<le> prio_of h c) (Q q) of [] \<Rightarrow> q | c # _ \<Rightarrow> c"
  have "prio_scan h tp q q = Some ?cp"
    using rep_queueD [OF r q] by (intro prio_scan_dseg) (auto simp: is_queue_def)
  moreover have "rep QH SH (Q(q := ins_behind (prio_of h) tp (Q q))) (insert_before tp ?cp h)"
    unfolding ins_behind_def by (rule rep_insert_before [OF r q d]) simp_all
  ultimately show ?thesis by (simp add: prio_insert_def)
qed

lemma rep_ready_insert:
  assumes r: "rep QH SH Q h" and q: "q \<in> QH" and d: "unlinked QH SH Q tp"
    and p: "prio_of h q < prio_of h tp"
  shows "\<exists>h'. ready_insert tp q h = Some h' \<and> rep QH SH (Q(q := ins_behind (prio_of h) tp (Q q))) h'"
proof -
  let ?cp = "case dropWhile (\<lambda>c. prio_of h tp \<le> prio_of h c) (Q q) of [] \<Rightarrow> q | c # _ \<Rightarrow> c"
  have "ready_scan h tp q = Some ?cp"
    using rep_queueD [OF r q] p by (intro ready_scan_dseg) (auto simp: is_queue_def)
  moreover have "rep QH SH (Q(q := ins_behind (prio_of h) tp (Q q))) (insert_before tp ?cp h)"
    unfolding ins_behind_def by (rule rep_insert_before [OF r q d]) simp_all
  ultimately show ?thesis by (simp add: ready_insert_def)
qed

lemma rep_ahead_insert:
  assumes r: "rep QH SH Q h" and q: "q \<in> QH" and d: "unlinked QH SH Q tp"
    and p: "prio_of h q \<le> prio_of h tp"
  shows "\<exists>h'. ahead_insert tp q h = Some h' \<and> rep QH SH (Q(q := ins_ahead (prio_of h) tp (Q q))) h'"
proof -
  let ?cp = "case dropWhile (\<lambda>c. prio_of h tp < prio_of h c) (Q q) of [] \<Rightarrow> q | c # _ \<Rightarrow> c"
  have "ahead_scan h tp q = Some ?cp"
    using rep_queueD [OF r q] p by (intro ahead_scan_dseg) (auto simp: is_queue_def)
  moreover have "rep QH SH (Q(q := ins_ahead (prio_of h) tp (Q q))) (insert_before tp ?cp h)"
    unfolding ins_ahead_def by (rule rep_insert_before [OF r q d]) simp_all
  ultimately show ?thesis by (simp add: ahead_insert_def)
qed

lemma dequeue_fst [simp]: "fst (dequeue tp h) = tp"
  by (simp add: dequeue_def Let_def)

lemma rep_dequeue:
  assumes r: "rep QH SH Q h" and q: "q \<in> QH" and t: "tp \<in> set (Q q)"
  shows "rep QH SH (Q(q := remove1 tp (Q q))) (snd (dequeue tp h))"
proof (rule rep_frame [where D = "{}", OF r])
  from t obtain xs ys where Q: "Q q = xs @ tp # ys" and nin: "tp \<notin> set xs"
    by (meson split_list_first)
  then have Q': "remove1 tp (Q q) = xs @ ys" by (simp add: remove1_append)
  have isq: "is_queue h q (xs @ tp # ys)" using rep_queueD(1) [OF r q] Q by simp
  then show "is_queue (snd (dequeue tp h)) q (remove1 tp (Q q))"
    unfolding Q' by (rule is_queue_dequeue)
  have "p_prev h tp = (if xs = [] then q else last xs)"
    using isq dseg_last [of h q xs tp] by (auto simp: is_queue_def dseg_append)
  moreover have "p_next h tp = (case ys of [] \<Rightarrow> q | y # _ \<Rightarrow> y)"
    using isq dseg_first [of h tp ys q] by (auto simp: is_queue_def dseg_append)
  ultimately have "{p_prev h tp, p_next h tp, tp} \<subseteq> insert q (set (Q q) \<union> {})"
    using Q by (auto split: list.splits)
  then show "touches (insert q (set (Q q) \<union> {})) h (snd (dequeue tp h))"
    by (auto simp: touches_def dequeue_def Let_def)
  show "q \<in> QH \<union> SH" "\<forall>t\<in>{}. unlinked QH SH Q t" using q by auto
  show "set (remove1 tp (Q q)) \<subseteq> set (Q q) \<union> {}" by (simp add: set_remove1_subset)
  show "is_stack (snd (dequeue tp h)) q (remove1 tp (Q q))" if "q \<in> SH"
    using that q r by (auto simp: rep_def)
qed

lemma rep_fifo_remove:
  assumes r: "rep QH SH Q h" and q: "q \<in> QH" and Q: "Q q = x # xs"
  shows "fst (fifo_remove q h) = x" "rep QH SH (Q(q := xs)) (snd (fifo_remove q h))"
  using fifo_remove_dequeue [of h q x xs] rep_queueD(1) [OF r q] rep_dequeue [OF r q, of x] Q
  by simp_all

lemma rep_lifo_remove:
  assumes r: "rep QH SH Q h" and q: "q \<in> QH" and Q: "Q q = xs @ [x]"
  shows "fst (lifo_remove q h) = x" "rep QH SH (Q(q := xs)) (snd (lifo_remove q h))"
proof -
  have "x \<notin> set xs" using rep_queueD(2) [OF r q] Q by simp
  then show "fst (lifo_remove q h) = x" "rep QH SH (Q(q := xs)) (snd (lifo_remove q h))"
    using lifo_remove_dequeue [of h q xs x] rep_queueD(1) [OF r q] rep_dequeue [OF r q, of x] Q
    by (simp_all add: remove1_append)
qed

lemma rep_list_insert:
  assumes r: "rep QH SH Q h" and l: "l \<in> SH" and d: "unlinked QH SH Q tp"
  shows "rep QH SH (Q(l := tp # Q l)) (list_insert tp l h)"
proof (rule rep_frame [where D = "{tp}", OF r])
  have "is_stack h l (Q l)" using r l by (simp add: rep_def)
  moreover have "tp \<noteq> l" "tp \<notin> set (Q l)" using d l by (auto simp: unlinked_def)
  ultimately show "is_stack (list_insert tp l h) l (tp # Q l)"
    by (cases "Q l") (auto simp: is_stack_def list_insert_def)
  show "touches (insert l (set (Q l) \<union> {tp})) h (list_insert tp l h)"
    by (auto simp: touches_def list_insert_def)
  show "is_queue (list_insert tp l h) l (tp # Q l)" if "l \<in> QH"
    using that l r by (auto simp: rep_def)
qed (use l d in auto)

lemma rep_list_remove:
  assumes r: "rep QH SH Q h" and l: "l \<in> SH" and Q: "Q l = x # xs"
  shows "fst (list_remove l h) = x" "rep QH SH (Q(l := xs)) (snd (list_remove l h))"
proof -
  have s: "is_stack h l (x # xs)" using r l Q by (auto simp: rep_def)
  then show "fst (list_remove l h) = x"
    by (simp add: is_stack_def list_remove_def Let_def)
  show "rep QH SH (Q(l := xs)) (snd (list_remove l h))"
  proof (rule rep_frame [where D = "{}", OF r])
    show "is_stack (snd (list_remove l h)) l xs"
      using s by (cases xs) (auto simp: is_stack_def list_remove_def Let_def)
    show "touches (insert l (set (Q l) \<union> {})) h (snd (list_remove l h))"
      by (auto simp: touches_def list_remove_def Let_def)
    show "is_queue (snd (list_remove l h)) l xs" if "l \<in> QH"
      using that l r by (auto simp: rep_def)
  qed (use l Q in auto)
qed

lemma rep_isempty: "rep QH SH Q h \<Longrightarrow> q \<in> QH \<union> SH \<Longrightarrow> isempty q h \<longleftrightarrow> Q q = []"
  by (cases "Q q") (auto simp: rep_def isempty_def is_queue_def is_stack_def)

lemma rep_notempty: "rep QH SH Q h \<Longrightarrow> q \<in> QH \<union> SH \<Longrightarrow> notempty q h \<longleftrightarrow> Q q \<noteq> []"
  using rep_isempty [of QH SH Q h q] by (simp add: isempty_def notempty_def)

section \<open>The queue interface\<close>

text \<open>
  What the synchronization objects rely on: a family of headers, each heading a list of
  threads; appending a free thread, taking the first one and unlinking a member from the
  middle.  \<open>drain\<close> empties a queue by repeated removal.
\<close>

fun drain :: "('h \<Rightarrow> addr \<times> 'h) \<Rightarrow> nat \<Rightarrow> 'h \<Rightarrow> addr list \<times> 'h" where
  "drain rem 0 h = ([], h)"
| "drain rem (Suc n) h = (let (t, h1) = rem h; (ts, h2) = drain rem n h1 in (t # ts, h2))"

locale thread_queues =
  fixes holds :: "(addr \<Rightarrow> addr list) \<Rightarrow> 'h \<Rightarrow> bool"
    and hdr :: "addr \<Rightarrow> bool"
    and free :: "(addr \<Rightarrow> addr list) \<Rightarrow> addr \<Rightarrow> bool"
    and enq :: "addr \<Rightarrow> addr \<Rightarrow> 'h \<Rightarrow> 'h"
    and deq :: "addr \<Rightarrow> 'h \<Rightarrow> addr \<times> 'h"
    and unlink :: "addr \<Rightarrow> 'h \<Rightarrow> addr \<times> 'h"
  assumes enq_law: "holds Q h \<Longrightarrow> hdr q \<Longrightarrow> free Q t \<Longrightarrow> holds (Q(q := Q q @ [t])) (enq t q h)"
    and deq_fst: "holds Q h \<Longrightarrow> hdr q \<Longrightarrow> Q q = x # xs \<Longrightarrow> fst (deq q h) = x"
    and deq_snd: "holds Q h \<Longrightarrow> hdr q \<Longrightarrow> Q q = x # xs \<Longrightarrow> holds (Q(q := xs)) (snd (deq q h))"
    and unlink_law: "holds Q h \<Longrightarrow> hdr q \<Longrightarrow> t \<in> set (Q q) \<Longrightarrow>
           holds (Q(q := remove1 t (Q q))) (snd (unlink t h))"
    and free_enq: "free Q t \<Longrightarrow> t' \<noteq> t \<Longrightarrow> hdr q \<Longrightarrow> free (Q(q := Q q @ [t'])) t"
begin

lemma enq_all_holds:
  "holds Q h \<Longrightarrow> hdr q \<Longrightarrow> distinct ts \<Longrightarrow> (\<forall>t\<in>set ts. free Q t) \<Longrightarrow>
   holds (Q(q := Q q @ ts)) (fold (\<lambda>t. enq t q) ts h)"
proof (induction ts arbitrary: Q h)
  case Nil
  then show ?case by simp
next
  case (Cons t ts)
  let ?Q = "Q(q := Q q @ [t])"
  have "holds ?Q (enq t q h)" using Cons.prems by (simp add: enq_law)
  moreover have "free ?Q u" if "u \<in> set ts" for u
    using free_enq [of Q u t q] Cons.prems that by auto
  ultimately have "holds (?Q(q := ?Q q @ ts)) (fold (\<lambda>t. enq t q) ts (enq t q h))"
    using Cons.IH [of ?Q "enq t q h"] Cons.prems by fastforce
  then show ?case by (simp add: fun_upd_same del: fun_upd_apply)
qed

lemma drain_holds:
  "holds Q h \<Longrightarrow> hdr q \<Longrightarrow> Q q = xs @ ys \<Longrightarrow> length xs = n \<Longrightarrow>
   fst (drain (deq q) n h) = xs \<and> holds (Q(q := ys)) (snd (drain (deq q) n h))"
proof (induction n arbitrary: Q h xs)
  case 0
  then show ?case by (simp add: fun_upd_idem)
next
  case (Suc n)
  then obtain x xs' where xs: "xs = x # xs'" by (cases xs) auto
  let ?Q = "Q(q := xs' @ ys)"
  have d: "fst (deq q h) = x" "holds ?Q (snd (deq q h))"
    using Suc.prems xs deq_fst deq_snd by auto
  have "fst (drain (deq q) n (snd (deq q h))) = xs' \<and>
      holds (Q(q := ys)) (snd (drain (deq q) n (snd (deq q h))))"
    using Suc.IH [of ?Q "snd (deq q h)" xs'] d(2) Suc.prems xs by (simp add: fun_upd_same del: fun_upd_apply)
  then show ?case using d(1) xs by (simp add: split_beta fun_upd_same del: fun_upd_apply)
qed

lemma fifo_order:
  assumes "holds Q h" "hdr q" "Q q = []" "distinct ts" "\<forall>t\<in>set ts. free Q t"
  shows "fst (drain (deq q) (length ts) (fold (\<lambda>t. enq t q) ts h)) = ts"
  using drain_holds [OF enq_all_holds [OF assms(1,2,4,5)] assms(2), of ts "[]"] assms(3) by simp

lemma unlink_keeps_order:
  assumes "holds Q h" "hdr q" "Q q = xs @ t # ys" "t \<notin> set xs"
  shows "fst (drain (deq q) (length (xs @ ys)) (snd (unlink t h))) = xs @ ys"
proof -
  have "holds (Q(q := xs @ ys)) (snd (unlink t h))"
    using unlink_law [OF assms(1,2), of t] assms(3,4) by (simp add: remove1_append)
  then show ?thesis using drain_holds [of "Q(q := xs @ ys)" _ q "xs @ ys" "[]"] assms(2) by simp
qed

end

interpretation linked_queues: thread_queues "rep QH SH" "\<lambda>q. q \<in> QH" "unlinked QH SH"
    queue_insert fifo_remove dequeue for QH SH
  by unfold_locales
     (auto simp: rep_queue_insert rep_fifo_remove rep_dequeue, auto simp: unlinked_def)


section \<open>Properties\<close>

text \<open>
  C1: ordered insertion is correct on the linked structure. On a queue ordered by
  non-increasing priority the walk of \<open>prio_insert\<close> ends, and the links it leaves
  represent the same queues with the thread placed behind every thread of equal or higher
  priority; the queue is still ordered and every other queue of the system is unchanged.
\<close>

theorem prio_insert_refines:
  assumes "rep QH SH Q h" and "q \<in> QH" and "unlinked QH SH Q tp" and "desc (prio_of h) (Q q)"
  shows "\<exists>h'. prio_insert tp q h = Some h' \<and>
              rep QH SH (Q(q := ins_behind (prio_of h) tp (Q q))) h' \<and>
              desc (prio_of h) (ins_behind (prio_of h) tp (Q q))"
  using rep_prio_insert [OF assms(1-3)] desc_ins_behind [OF assms(4)] by blast

definition sample_links :: links where
  "sample_links =
     \<lparr>p_next = (\<lambda>_. 0)(16 := 32, 32 := 48, 48 := 16),
      p_prev = (\<lambda>_. 0)(16 := 48, 32 := 16, 48 := 32),
      prio_of = (\<lambda>_. 0)(32 := 70, 48 := 64, 64 := 64)\<rparr>"

definition sample_queues :: "addr \<Rightarrow> addr list" where
  "sample_queues = (\<lambda>_. [])(16 := [32, 48])"

lemma sample_links_rep: "rep {16} {} sample_queues sample_links"
  by (simp add: rep_def is_queue_def sample_links_def sample_queues_def)

lemma sample_detached: "unlinked {16} {} sample_queues 64"
  by (simp add: unlinked_def sample_queues_def)

theorem prio_insert_refines_witness:
  "rep {16} {} sample_queues sample_links \<and> unlinked {16} {} sample_queues 64 \<and>
   (\<exists>h'. prio_insert 64 16 sample_links = Some h' \<and>
         rep {16} {} (sample_queues(16 := [32, 48, 64])) h')"
proof -
  have "desc (prio_of sample_links) (sample_queues 16)"
    by (simp add: sample_queues_def sample_links_def)
  moreover have "ins_behind (prio_of sample_links) 64 (sample_queues 16) = [32, 48, 64]"
    by (simp add: sample_queues_def sample_links_def ins_behind_Cons)
  ultimately show ?thesis
    using prio_insert_refines [OF sample_links_rep _ sample_detached] sample_links_rep sample_detached
    by auto
qed

lemma ready_scan_below: "ready_scan h tp cp = Some c \<Longrightarrow> prio_of h c < prio_of h tp"
proof (induction rule: ready_scan.raw_induct [rotated, consumes 1])
  case (1 scan h tp cp c)
  then show ?case by (auto simp: Let_def not_le split: if_splits)
qed

lemma ready_insert_none: "prio_of h tp = 0 \<Longrightarrow> ready_insert tp q h = None"
  using ready_scan_below [of h tp q] by (cases "ready_scan h tp q") (auto simp: ready_insert_def)

text \<open>
  C2: the ready-list insertion of the scheduler, whose walk does not test for the header,
  returns exactly when the thread's priority is above \<^verbatim>\<open>NOPRIO\<close>, the priority of the
  header; and then it refines the ordered insertion. For a thread of priority zero the walk
  does not return: it circles for ever.
\<close>

theorem ready_insert_terminates_iff:
  assumes "rep QH SH Q h" and "q \<in> QH" and "unlinked QH SH Q tp" and "prio_of h q = 0"
  shows "if 0 < prio_of h tp
         then \<exists>h'. ready_insert tp q h = Some h' \<and>
                   rep QH SH (Q(q := ins_behind (prio_of h) tp (Q q))) h'
         else ready_scan h tp q = None \<and> ready_insert tp q h = None"
proof (cases "0 < prio_of h tp")
  case True
  then show ?thesis using rep_ready_insert [OF assms(1-3)] assms(4) by simp
next
  case False
  then have z: "prio_of h tp = 0" by (simp add: word_gt_0)
  then have "ready_scan h tp q = None"
    using ready_scan_below [of h tp q] by (cases "ready_scan h tp q") auto
  then show ?thesis using False ready_insert_none [OF z] by simp
qed

theorem ready_insert_terminates_iff_witness:
  "rep {16} {} sample_queues sample_links \<and> prio_of sample_links 16 = 0 \<and>
   (\<exists>h'. ready_insert 64 16 sample_links = Some h' \<and>
         rep {16} {} (sample_queues(16 := ins_behind (prio_of sample_links) 64 (sample_queues 16))) h')"
proof -
  have p: "prio_of sample_links 16 = 0" "0 < prio_of sample_links 64"
    by (simp_all add: sample_links_def)
  then show ?thesis
    using ready_insert_terminates_iff [OF sample_links_rep _ sample_detached p(1)] sample_links_rep
    by auto
qed

text \<open>
  The linked queues are fair. Threads appended with \<open>queue_insert\<close> to an empty queue
  come out of \<open>fifo_remove\<close> in the order in which they were appended.
\<close>

theorem queue_fifo_order:
  assumes "rep QH SH Q h" and "q \<in> QH" and "Q q = []" and "distinct ts"
    and "\<forall>t\<in>set ts. unlinked QH SH Q t"
  shows "fst (drain (fifo_remove q) (length ts) (fold (\<lambda>t. queue_insert t q) ts h)) = ts"
  using assms by (rule linked_queues.fifo_order)

theorem queue_fifo_order_witness:
  "fst (drain (fifo_remove 16) (length [32, 48 :: addr])
     (fold (\<lambda>t. queue_insert t 16) [32, 48] (queue_init 16 sample_links))) = [32, 48]"
proof -
  have "rep {16} {} (\<lambda>_. []) (queue_init 16 sample_links)"
    by (simp add: rep_def is_queue_def queue_init_def)
  moreover have "\<forall>t\<in>set [32, 48]. unlinked {16} {} (\<lambda>_. []) t"
    by (simp add: unlinked_def)
  ultimately show ?thesis
    using queue_fifo_order [of "{16}" "{}" "\<lambda>_. []" "queue_init 16 sample_links" 16 "[32, 48]"]
    by (simp del: drain.simps)
qed

end
