(* ===== verification/KernelState.thy ===== *)
theory KernelState
  imports ThreadLists
begin

text \<open>
  The state of the kernel.  Every C structure is a record; the objects of one structure
  type are a total map from addresses, so that objects of different types never overlap
  while two objects of one type are distinct exactly when their addresses are.  A thread
  queue is the list of threads its header heads (theory \<^verbatim>\<open>ThreadLists\<close> shows that the
  linked structure behaves so); the state-specific union \<open>p_u\<close> is one 32-bit cell, as in
  the source.  Memory that holds no thread yet is a thread record in state
  \<open>THD_STATE_FINAL\<close>.  The configuration is that of \<^verbatim>\<open>app/chconf.h\<close>: all subsystems
  enabled, FIFO semaphores and messages, time quantum 20, debug checks off.
\<close>

section \<open>Constants\<close>

definition CH_FREQUENCY :: u32 where "CH_FREQUENCY = 1000"
definition CH_TIME_QUANTUM :: u8 where "CH_TIME_QUANTUM = 20"

abbreviation (input) RDY_OK :: msg_t where "RDY_OK \<equiv> 0"
abbreviation (input) RDY_TIMEOUT :: msg_t where "RDY_TIMEOUT \<equiv> - 1"
abbreviation (input) RDY_RESET :: msg_t where "RDY_RESET \<equiv> - 2"

abbreviation (input) NOPRIO :: tprio_t where "NOPRIO \<equiv> 0"
abbreviation (input) IDLEPRIO :: tprio_t where "IDLEPRIO \<equiv> 1"
abbreviation (input) LOWPRIO :: tprio_t where "LOWPRIO \<equiv> 2"
abbreviation (input) NORMALPRIO :: tprio_t where "NORMALPRIO \<equiv> 64"
abbreviation (input) HIGHPRIO :: tprio_t where "HIGHPRIO \<equiv> 127"
abbreviation (input) ABSPRIO :: tprio_t where "ABSPRIO \<equiv> 255"

abbreviation (input) TIME_IMMEDIATE :: systime_t where "TIME_IMMEDIATE \<equiv> 0"
abbreviation (input) TIME_INFINITE :: systime_t where "TIME_INFINITE \<equiv> - 1"

abbreviation (input) THD_MEM_MODE_MASK :: u8 where "THD_MEM_MODE_MASK \<equiv> 3"
abbreviation (input) THD_MEM_MODE_STATIC :: u8 where "THD_MEM_MODE_STATIC \<equiv> 0"
abbreviation (input) THD_MEM_MODE_HEAP :: u8 where "THD_MEM_MODE_HEAP \<equiv> 1"
abbreviation (input) THD_MEM_MODE_MEMPOOL :: u8 where "THD_MEM_MODE_MEMPOOL \<equiv> 2"
abbreviation (input) THD_TERMINATE :: u8 where "THD_TERMINATE \<equiv> 4"

section \<open>Kernel objects\<close>

datatype tstate =
    THD_STATE_READY | THD_STATE_CURRENT | THD_STATE_SUSPENDED | THD_STATE_WTSEM
  | THD_STATE_WTMTX | THD_STATE_WTCOND | THD_STATE_SLEEPING | THD_STATE_WTEXIT
  | THD_STATE_WTOREVT | THD_STATE_WTANDEVT | THD_STATE_SNDMSGQ | THD_STATE_SNDMSG
  | THD_STATE_WTMSG | THD_STATE_WTQUEUE | THD_STATE_FINAL

text \<open>
  The list of owned mutexes, linked through \<open>m_next\<close> and ended by \<^verbatim>\<open>NULL\<close> in the
  source, is the list \<open>p_mtxlist\<close>, last locked first.  The links \<open>p_next\<close>, \<open>p_prev\<close>
  are the queues' contents, the registry links \<open>p_newer\<close>, \<open>p_older\<close> the next
  and previous links of the doubly linked list \<open>registry\<close> that \<open>rlist\<close> heads, and the saved context \<open>p_ctx\<close> is the thread's continuation in
  theory \<^verbatim>\<open>Execution\<close>.
\<close>

record Thread =
  p_prio :: tprio_t
  p_name :: addr
  p_state :: tstate
  p_flags :: u8
  p_refs :: u8
  p_preempt :: u8
  p_time :: systime_t
  p_u :: u32
  p_waiting :: "addr list"
  p_msgqueue :: "addr list"
  p_msg :: msg_t
  p_epending :: eventmask_t
  p_mtxlist :: "addr list"
  p_realprio :: tprio_t
  p_mpool :: addr

record Semaphore =
  s_queue :: "addr list"
  s_cnt :: cnt_t

record Mutex =
  m_queue :: "addr list"
  m_owner :: addr

record CondVar =
  c_queue :: "addr list"

record EventListener =
  el_listener :: addr
  el_mask :: eventmask_t
  el_flags :: flagsmask_t

record Mailbox =
  mb_buffer :: addr
  mb_top :: addr
  mb_wrptr :: addr
  mb_rdptr :: addr

record GenericQueue =
  q_waiting :: "addr list"
  q_counter :: size_t
  q_buffer :: addr
  q_top :: addr
  q_wrptr :: addr
  q_rdptr :: addr
  q_notify :: addr
  q_link :: addr

text \<open>
  A timer callback is the scheduler's \<open>wakeup\<close> or a function of the application.  A
  timer is a variable on the stack of a sleeping thread (the local \<open>vt\<close> of
  \<open>chSchGoSleepTimeoutS\<close>, at most one per thread) or an object of its own.
\<close>

datatype vtfunc = Wakeup | UserFunc addr

datatype vtref = OnStack addr | AtAddr addr

record VirtualTimer =
  vt_time :: systime_t
  vt_func :: "vtfunc option"
  vt_par :: addr

text \<open>
  A memory provider is one of the two functions of the core allocator or a function of the
  application.
\<close>

datatype memgetfunc = CoreAlloc | CoreAllocI | UserAlloc addr

record MemoryPool =
  mp_next :: addr
  mp_object_size :: size_t
  mp_provider :: "memgetfunc option"

section \<open>The kernel state\<close>

text \<open>
  Plain memory is \<open>mem8\<close> and \<open>mem32\<close>, by the width of its accesses: the buffers of I/O queues
  are bytes, those of mailboxes and the headers of memory blocks are words.
\<close>

record kstate =
  rlist :: addr
  r_queue :: "addr list"
  currp :: addr
  registry :: links
  thd :: "addr \<Rightarrow> Thread"
  sem :: "addr \<Rightarrow> Semaphore"
  mtx :: "addr \<Rightarrow> Mutex"
  cond :: "addr \<Rightarrow> CondVar"
  el_next :: "addr \<Rightarrow> addr"
  evl :: "addr \<Rightarrow> EventListener"
  mbx :: "addr \<Rightarrow> Mailbox"
  ioq :: "addr \<Rightarrow> GenericQueue"
  vts :: "vtref \<Rightarrow> VirtualTimer"
  vtlist :: "vtref list"
  vt_systime :: systime_t
  mem8 :: "addr \<Rightarrow> u8"
  mem32 :: "addr \<Rightarrow> u32"
  nextmem :: addr
  endmem :: addr
  pools :: "addr \<Rightarrow> MemoryPool"
  h_provider :: "addr \<Rightarrow> memgetfunc option"
  default_heap :: addr
  idle_thread :: addr

definition upd_thd :: "addr \<Rightarrow> (Thread \<Rightarrow> Thread) \<Rightarrow> kstate \<Rightarrow> kstate" where
  [simp]: "upd_thd t f s = s\<lparr>thd := (thd s)(t := f (thd s t))\<rparr>"

definition upd_sem :: "addr \<Rightarrow> (Semaphore \<Rightarrow> Semaphore) \<Rightarrow> kstate \<Rightarrow> kstate" where
  [simp]: "upd_sem a f s = s\<lparr>sem := (sem s)(a := f (sem s a))\<rparr>"

definition upd_mtx :: "addr \<Rightarrow> (Mutex \<Rightarrow> Mutex) \<Rightarrow> kstate \<Rightarrow> kstate" where
  [simp]: "upd_mtx a f s = s\<lparr>mtx := (mtx s)(a := f (mtx s a))\<rparr>"

definition upd_cond :: "addr \<Rightarrow> (CondVar \<Rightarrow> CondVar) \<Rightarrow> kstate \<Rightarrow> kstate" where
  [simp]: "upd_cond a f s = s\<lparr>cond := (cond s)(a := f (cond s a))\<rparr>"

definition upd_evl :: "addr \<Rightarrow> (EventListener \<Rightarrow> EventListener) \<Rightarrow> kstate \<Rightarrow> kstate" where
  [simp]: "upd_evl a f s = s\<lparr>evl := (evl s)(a := f (evl s a))\<rparr>"

definition upd_mbx :: "addr \<Rightarrow> (Mailbox \<Rightarrow> Mailbox) \<Rightarrow> kstate \<Rightarrow> kstate" where
  [simp]: "upd_mbx a f s = s\<lparr>mbx := (mbx s)(a := f (mbx s a))\<rparr>"

definition upd_ioq :: "addr \<Rightarrow> (GenericQueue \<Rightarrow> GenericQueue) \<Rightarrow> kstate \<Rightarrow> kstate" where
  [simp]: "upd_ioq a f s = s\<lparr>ioq := (ioq s)(a := f (ioq s a))\<rparr>"

definition upd_vt :: "vtref \<Rightarrow> (VirtualTimer \<Rightarrow> VirtualTimer) \<Rightarrow> kstate \<Rightarrow> kstate" where
  [simp]: "upd_vt v f s = s\<lparr>vts := (vts s)(v := f (vts s v))\<rparr>"

definition set8 :: "addr \<Rightarrow> u8 \<Rightarrow> kstate \<Rightarrow> kstate" where
  [simp]: "set8 a v s = s\<lparr>mem8 := (mem8 s)(a := v)\<rparr>"

definition set32 :: "addr \<Rightarrow> u32 \<Rightarrow> kstate \<Rightarrow> kstate" where
  [simp]: "set32 a v s = s\<lparr>mem32 := (mem32 s)(a := v)\<rparr>"

abbreviation prio :: "kstate \<Rightarrow> addr \<Rightarrow> tprio_t" where
  "prio s t \<equiv> p_prio (thd s t)"

abbreviation state_of :: "kstate \<Rightarrow> addr \<Rightarrow> tstate" where
  "state_of s t \<equiv> p_state (thd s t)"

text \<open>
  The address of a member of a structure, where the source takes one: the message queue
  of a thread (\<^verbatim>\<open>&tp->p_msgqueue\<close>) and the semaphores of a mailbox, by the layout that the
  port's types give the structures.
\<close>

definition p_msgqueue_addr :: "addr \<Rightarrow> addr" where
  "p_msgqueue_addr tp = tp + 44"

definition mb_fullsem :: "addr \<Rightarrow> addr" where
  "mb_fullsem mbp = mbp + 16"

definition mb_emptysem :: "addr \<Rightarrow> addr" where
  "mb_emptysem mbp = mbp + 28"

section \<open>Thread queues as lists\<close>

text \<open>
  Taking a thread from an empty queue returns the header itself, as the linked version
  does.  \<open>unlink\<close> is the source's \<open>dequeue\<close>, which removes a thread from whatever queue
  links it.
\<close>

fun fifo_take :: "addr \<Rightarrow> addr list \<Rightarrow> addr \<times> addr list" where
  "fifo_take hdr [] = (hdr, [])"
| "fifo_take hdr (x # xs) = (x, xs)"

definition lifo_take :: "addr \<Rightarrow> addr list \<Rightarrow> addr \<times> addr list" where
  "lifo_take hdr xs = (if xs = [] then (hdr, []) else (last xs, butlast xs))"

definition unlink :: "addr \<Rightarrow> kstate \<Rightarrow> kstate" where
  "unlink tp s = s\<lparr>
     r_queue := remove1 tp (r_queue s),
     sem := (\<lambda>a. (sem s a)\<lparr>s_queue := remove1 tp (s_queue (sem s a))\<rparr>),
     mtx := (\<lambda>a. (mtx s a)\<lparr>m_queue := remove1 tp (m_queue (mtx s a))\<rparr>),
     cond := (\<lambda>a. (cond s a)\<lparr>c_queue := remove1 tp (c_queue (cond s a))\<rparr>),
     ioq := (\<lambda>a. (ioq s a)\<lparr>q_waiting := remove1 tp (q_waiting (ioq s a))\<rparr>),
     thd := (\<lambda>a. (thd s a)\<lparr>p_msgqueue := remove1 tp (p_msgqueue (thd s a))\<rparr>)\<rparr>"

end
