(* ===== verification/Execution.thy ===== *)
theory Execution
  imports KernelState
begin

text \<open>
  How kernel code runs.  A kernel function runs in the context of the current thread with
  the kernel locked; it may return, or give up the processor in the middle: a context
  switch (\<^verbatim>\<open>chSysSwitch\<close>) leaves the function suspended until the thread is made
  current again, and between \<^verbatim>\<open>chSysUnlock()\<close> and the next \<^verbatim>\<open>chSysLock()\<close> of one
  function interrupts and other threads may run.  A run of such a function is a value of
  the codatatype below: a result with the state it leaves, or the state at the point where
  the processor is given up together with the rest of the function, which continues from
  whatever state the kernel is in when the thread is resumed.  A function that never
  returns is an infinite run.
\<close>

codatatype (run_set: 'a) run =
    is_Done: Done (result: 'a) (at: kstate)
  | is_Switch: Switch (at: kstate) (resume: "kstate \<Rightarrow> 'a run")
  | is_Unlock: Unlock (at: kstate) (resume: "kstate \<Rightarrow> 'a run")

text \<open>Sequential composition: the second part starts where the first one returns.\<close>

primcorec rbind :: "'a run \<Rightarrow> ('a \<Rightarrow> kstate \<Rightarrow> 'b run) \<Rightarrow> 'b run" where
  "rbind m f =
     (case m of
        Done a s \<Rightarrow> f a s
      | Switch s k \<Rightarrow> Switch s (\<lambda>s'. rbind (k s') f)
      | Unlock s k \<Rightarrow> Unlock s (\<lambda>s'. rbind (k s') f))"

lemma rbind_simps [simp]:
  "rbind (Done a s) f = f a s"
  "rbind (Switch s k) f = Switch s (\<lambda>s'. rbind (k s') f)"
  "rbind (Unlock s k) f = Unlock s (\<lambda>s'. rbind (k s') f)"
  by (subst rbind.code, simp)+

text \<open>
  A loop: \<open>rloop body r\<close> runs the round \<open>r\<close>, which ends with the result of the loop or with the
  state for the next round of its body.  A round that ends without having given up the
  processor is a busy loop.
\<close>

primcorec rloop :: "('x \<Rightarrow> kstate \<Rightarrow> ('a + 'x) run) \<Rightarrow> ('a + 'x) run \<Rightarrow> 'a run" where
  "rloop body r =
     (case r of
        Done y s \<Rightarrow>
          (case y of
             Inl a \<Rightarrow> Done a s
           | Inr x \<Rightarrow>
               (case body x s of
                  Done z s' \<Rightarrow>
                    (case z of
                       Inl a \<Rightarrow> Done a s'
                     | Inr x' \<Rightarrow> Unlock s' (\<lambda>s''. rloop body (Done (Inr x') s'')))
                | Switch s' k \<Rightarrow> Switch s' (\<lambda>s''. rloop body (k s''))
                | Unlock s' k \<Rightarrow> Unlock s' (\<lambda>s''. rloop body (k s''))))
      | Switch s k \<Rightarrow> Switch s (\<lambda>s'. rloop body (k s'))
      | Unlock s k \<Rightarrow> Unlock s (\<lambda>s'. rloop body (k s')))"

lemma rloop_simps [simp]:
  "rloop body (Done (Inl a) s) = Done a s"
  "rloop body (Switch s k) = Switch s (\<lambda>s'. rloop body (k s'))"
  "rloop body (Unlock s k) = Unlock s (\<lambda>s'. rloop body (k s'))"
  by (subst rloop.code, simp)+

lemma rloop_round:
  assumes "\<And>x' s'. body x s \<noteq> Done (Inr x') s'"
  shows "rloop body (Done (Inr x) s) = rloop body (body x s)"
  using assms by (subst rloop.code; subst rloop.code [of body "body x s"]; cases "body x s")
    (auto split: sum.splits)

text \<open>
  \<open>chSysSwitch\<close> with the new thread already installed as the current one: the function
  goes on, for the old thread, when it is resumed.
\<close>

definition chSysSwitch :: "kstate \<Rightarrow> unit run" where
  "chSysSwitch s = Switch s (\<lambda>s'. Done () s')"

text \<open>
  \<open>run_until n pick r\<close> plays the environment for evaluation: \<open>pick\<close> says in which state
  the thread is resumed each time it gives up the processor, at most \<open>n\<close> times.
\<close>

fun run_until :: "nat \<Rightarrow> (kstate \<Rightarrow> kstate) \<Rightarrow> 'a run \<Rightarrow> ('a \<times> kstate) option" where
  "run_until n pick r =
     (case r of
        Done a s \<Rightarrow> Some (a, s)
      | Switch s k \<Rightarrow> (case n of 0 \<Rightarrow> None | Suc m \<Rightarrow> run_until m pick (k (pick s)))
      | Unlock s k \<Rightarrow> (case n of 0 \<Rightarrow> None | Suc m \<Rightarrow> run_until m pick (k (pick s))))"

declare run_until.simps [simp del]

lemma run_until_simps [simp]:
  "run_until n pick (Done a s) = Some (a, s)"
  "run_until 0 pick (Switch s k) = None"
  "run_until (Suc n) pick (Switch s k) = run_until n pick (k (pick s))"
  "run_until 0 pick (Unlock s k) = None"
  "run_until (Suc n) pick (Unlock s k) = run_until n pick (k (pick s))"
  by (simp_all add: run_until.simps)

end
