(* ===== verification/Timers.thy ===== *)
theory Timers
  imports KernelState "HOL-Library.Signed_Division"
begin

text \<open>
  Virtual timers (\<^verbatim>\<open>os/kernel/src/chvt.c\<close>, \<^verbatim>\<open>os/kernel/include/chvt.h\<close>): the armed timers
  form a delta list, each entry holding the number of ticks after the entry before it.  The
  list header, whose \<open>vt_time\<close> is the largest value of the type, is the end of the list
  \<open>vtlist\<close>.  The abstract view is the map \<open>ticks_left\<close> from armed timers to the ticks
  that remain; the operations are shown to be its updates.
\<close>

section \<open>Operations\<close>

definition vt_init :: "kstate \<Rightarrow> kstate" where
  "vt_init s = s\<lparr>vtlist := [], vt_systime := 0\<rparr>"

definition chTimeNow :: "kstate \<Rightarrow> systime_t" where
  "chTimeNow s = vt_systime s"

definition chVTIsArmedI :: "vtref \<Rightarrow> kstate \<Rightarrow> bool" where
  "chVTIsArmedI vtp s \<longleftrightarrow> vt_func (vts s vtp) \<noteq> None"

text \<open>
  The walk of \<open>chVTSetI\<close>: the timers passed, the ticks left after them, the timers from
  the insertion point on.  The header ends it, since no time is above its \<open>vt_time\<close>.
\<close>

fun vt_scan :: "(vtref \<Rightarrow> VirtualTimer) \<Rightarrow> vtref list \<Rightarrow> systime_t \<Rightarrow>
    vtref list \<times> systime_t \<times> vtref list" where
  "vt_scan v [] time = ([], time, [])"
| "vt_scan v (p # ps) time =
     (if vt_time (v p) < time
      then (let (passed, time', rest) = vt_scan v ps (time - vt_time (v p))
            in (p # passed, time', rest))
      else ([], time, p # ps))"

definition chVTSetI :: "vtref \<Rightarrow> systime_t \<Rightarrow> vtfunc \<Rightarrow> addr \<Rightarrow> kstate \<Rightarrow> kstate" where
  "chVTSetI vtp time vtfunc par s =
     (let s1 = upd_vt vtp (\<lambda>v. v\<lparr>vt_par := par, vt_func := Some vtfunc\<rparr>) s;
          (passed, time', rest) = vt_scan (vts s1) (vtlist s1) time;
          s2 = upd_vt vtp (\<lambda>v. v\<lparr>vt_time := time'\<rparr>) (s1\<lparr>vtlist := passed @ vtp # rest\<rparr>)
      in case rest of
           [] \<Rightarrow> s2
         | p # _ \<Rightarrow> upd_vt p (\<lambda>v. v\<lparr>vt_time := vt_time v - time'\<rparr>) s2)"

definition chVTResetI :: "vtref \<Rightarrow> kstate \<Rightarrow> kstate" where
  "chVTResetI vtp s =
     (let passed = takeWhile (\<lambda>v. v \<noteq> vtp) (vtlist s);
          rest = tl (dropWhile (\<lambda>v. v \<noteq> vtp) (vtlist s));
          s1 = (case rest of
                  [] \<Rightarrow> s
                | p # _ \<Rightarrow> upd_vt p (\<lambda>v. v\<lparr>vt_time := vt_time v + vt_time (vts s vtp)\<rparr>) s)
      in upd_vt vtp (\<lambda>v. v\<lparr>vt_func := None\<rparr>) (s1\<lparr>vtlist := passed @ rest\<rparr>))"

definition chVTReset :: "vtref \<Rightarrow> kstate \<Rightarrow> kstate" where
  "chVTReset vtp s = (if chVTIsArmedI vtp s then chVTResetI vtp s else s)"

definition chTimeIsWithin :: "systime_t \<Rightarrow> systime_t \<Rightarrow> kstate \<Rightarrow> bool" where
  "chTimeIsWithin start end s =
     (let time = chTimeNow s
      in if end > start then time \<ge> start \<and> time < end else time \<ge> start \<or> time < end)"

section \<open>The abstract view\<close>

fun expiry :: "(vtref \<Rightarrow> VirtualTimer) \<Rightarrow> nat \<Rightarrow> vtref list \<Rightarrow> vtref \<Rightarrow> nat option" where
  "expiry v acc [] x = None"
| "expiry v acc (p # ps) x =
     (let t = acc + unat (vt_time (v p)) in if p = x then Some t else expiry v t ps x)"

definition ticks_left :: "kstate \<Rightarrow> vtref \<Rightarrow> nat option" where
  "ticks_left s = expiry (vts s) 0 (vtlist s)"

definition delta_sum :: "(vtref \<Rightarrow> VirtualTimer) \<Rightarrow> vtref list \<Rightarrow> nat" where
  "delta_sum v ps = sum_list (map (\<lambda>p. unat (vt_time (v p))) ps)"

lemma delta_sum_simps [simp]:
  "delta_sum v [] = 0"
  "delta_sum v (p # ps) = unat (vt_time (v p)) + delta_sum v ps"
  "delta_sum v (ps @ qs) = delta_sum v ps + delta_sum v qs"
  by (simp_all add: delta_sum_def)

lemma expiry_None [simp]: "x \<notin> set ps \<Longrightarrow> expiry v acc ps x = None"
  by (induction ps arbitrary: acc) (auto simp: Let_def)

lemma expiry_append:
  "expiry v acc (ps @ qs) x =
     (if x \<in> set ps then expiry v acc ps x else expiry v (acc + delta_sum v ps) qs x)"
  by (induction ps arbitrary: acc) (auto simp: Let_def add.assoc)

lemma expiry_cong:
  "(\<And>p. p \<in> set ps \<Longrightarrow> vt_time (v p) = vt_time (w p)) \<Longrightarrow> expiry v acc ps x = expiry w acc ps x"
  by (induction ps arbitrary: acc) (auto simp: Let_def)

lemma delta_sum_cong:
  "(\<And>p. p \<in> set ps \<Longrightarrow> vt_time (v p) = vt_time (w p)) \<Longrightarrow> delta_sum v ps = delta_sum w ps"
  by (induction ps) auto

text \<open>What the walk computes: the remaining ticks are exact, and bounded by the next delta.\<close>

lemma vt_scan_spec:
  assumes "vt_scan v ps time = (passed, time', rest)"
  shows "ps = passed @ rest" "unat time = delta_sum v passed + unat time'"
    "rest = [] \<or> time' \<le> vt_time (v (hd rest))"
  using assms
proof (induction ps arbitrary: time passed)
  case Nil
  case 1 then show ?case using Nil by simp
  case 2 then show ?case using Nil by simp
  case 3 then show ?case using Nil by simp
next
  case (Cons p ps)
  { case 1 then show ?case using Cons(1) by (auto split: if_splits prod.splits) }
  { case 2
    then show ?case
    proof (cases "vt_time (v p) < time")
      case True
      then obtain ps' where "vt_scan v ps (time - vt_time (v p)) = (ps', time', rest)"
          and "passed = p # ps'"
        using 2 by (auto split: prod.splits)
      moreover have "unat (time - vt_time (v p)) = unat time - unat (vt_time (v p))"
        using True by (simp add: unat_sub order.strict_implies_order)
      moreover have "unat (vt_time (v p)) < unat time" using True by (simp add: word_less_nat_alt)
      ultimately show ?thesis using Cons(2) by fastforce
    qed (use 2 in auto) }
  { case 3
    then show ?case using Cons(3)
      by (fastforce split: if_splits prod.splits simp: not_less) }
qed


section \<open>Effect of the operations\<close>

lemma chVTSetI_frame [simp]:
  "rlist (chVTSetI v t f a s) = rlist s" "r_queue (chVTSetI v t f a s) = r_queue s"
  "currp (chVTSetI v t f a s) = currp s" "registry (chVTSetI v t f a s) = registry s"
  "thd (chVTSetI v t f a s) = thd s" "sem (chVTSetI v t f a s) = sem s"
  "mtx (chVTSetI v t f a s) = mtx s" "cond (chVTSetI v t f a s) = cond s"
  "el_next (chVTSetI v t f a s) = el_next s" "evl (chVTSetI v t f a s) = evl s"
  "mbx (chVTSetI v t f a s) = mbx s" "ioq (chVTSetI v t f a s) = ioq s"
  "vt_systime (chVTSetI v t f a s) = vt_systime s" "mem8 (chVTSetI v t f a s) = mem8 s"
  "mem32 (chVTSetI v t f a s) = mem32 s" "idle_thread (chVTSetI v t f a s) = idle_thread s"
  by (simp_all add: chVTSetI_def Let_def split: prod.split list.split)

lemma chVTResetI_frame [simp]:
  "rlist (chVTResetI v s) = rlist s" "r_queue (chVTResetI v s) = r_queue s"
  "currp (chVTResetI v s) = currp s" "registry (chVTResetI v s) = registry s"
  "thd (chVTResetI v s) = thd s" "sem (chVTResetI v s) = sem s"
  "mtx (chVTResetI v s) = mtx s" "cond (chVTResetI v s) = cond s"
  "el_next (chVTResetI v s) = el_next s" "evl (chVTResetI v s) = evl s"
  "mbx (chVTResetI v s) = mbx s" "ioq (chVTResetI v s) = ioq s"
  "vt_systime (chVTResetI v s) = vt_systime s" "mem8 (chVTResetI v s) = mem8 s"
  "mem32 (chVTResetI v s) = mem32 s" "idle_thread (chVTResetI v s) = idle_thread s"
  by (simp_all add: chVTResetI_def Let_def split: list.split)

text \<open>The delta list is well formed: no timer twice, and the last one within the range of the time type.\<close>

definition vt_wf :: "kstate \<Rightarrow> bool" where
  "vt_wf s \<longleftrightarrow> distinct (vtlist s) \<and> delta_sum (vts s) (vtlist s) < 2 ^ 32 \<and>
     (\<forall>v. v \<in> set (vtlist s) \<longleftrightarrow> chVTIsArmedI v s)"

lemma chVTSetI_cases:
  assumes "v \<notin> set (vtlist s)"
  obtains passed time' rest where
    "vtlist s = passed @ rest" "vtlist (chVTSetI v time f a s) = passed @ v # rest"
    "unat time = delta_sum (vts s) passed + unat time'"
    "vts (chVTSetI v time f a s) =
       (case rest of [] \<Rightarrow> id | p # _ \<Rightarrow> (\<lambda>w. w(p := (w p)\<lparr>vt_time := vt_time (w p) - time'\<rparr>)))
         ((vts s)(v := \<lparr>vt_time = time', vt_func = Some f, vt_par = a\<rparr>))"
    "rest = [] \<or> time' \<le> vt_time (vts s (hd rest))"
proof -
  let ?s1 = "upd_vt v (\<lambda>w. w\<lparr>vt_par := a, vt_func := Some f\<rparr>) s"
  obtain passed time' rest where sc: "vt_scan (vts ?s1) (vtlist ?s1) time = (passed, time', rest)"
    using prod_cases3 by blast
  note spec = vt_scan_spec [OF sc]
  have nin: "v \<notin> set passed" "v \<notin> set rest" using assms spec(1) by auto
  have ds: "delta_sum (vts ?s1) passed = delta_sum (vts s) passed"
    by (rule delta_sum_cong) (use nin in auto)
  have eq: "chVTSetI v time f a s =
     (let s2 = upd_vt v (\<lambda>v. v\<lparr>vt_time := time'\<rparr>) (?s1\<lparr>vtlist := passed @ v # rest\<rparr>)
      in case rest of [] \<Rightarrow> s2 | p # _ \<Rightarrow> upd_vt p (\<lambda>v. v\<lparr>vt_time := vt_time v - time'\<rparr>) s2)"
    unfolding chVTSetI_def Let_def sc by simp
  have "(vts s v)\<lparr>vt_par := a, vt_func := Some f, vt_time := time'\<rparr> =
      \<lparr>vt_time = time', vt_func = Some f, vt_par = a\<rparr>"
    by (cases "vts s v") simp
  then have vts: "vts (chVTSetI v time f a s) =
       (case rest of [] \<Rightarrow> id | p # _ \<Rightarrow> (\<lambda>w. w(p := (w p)\<lparr>vt_time := vt_time (w p) - time'\<rparr>)))
         ((vts s)(v := \<lparr>vt_time = time', vt_func = Some f, vt_par = a\<rparr>))"
    by (auto simp: eq split: list.split)
  have "vtlist (chVTSetI v time f a s) = passed @ v # rest"
    by (simp add: eq Let_def split: list.split)
  moreover have "rest = [] \<or> time' \<le> vt_time (vts s (hd rest))"
    using spec(3) nin by (cases rest) auto
  ultimately show thesis
    using that [of passed rest time'] spec(1,2) ds vts by simp
qed

lemma vt_func_chVTSetI:
  "vt_func (vts (chVTSetI v time f a s) x) = (if x = v then Some f else vt_func (vts s x))"
  "vt_par (vts (chVTSetI v time f a s) x) = (if x = v then a else vt_par (vts s x))"
  by (auto simp: chVTSetI_def Let_def split: prod.split list.split)

lemma chVTSetI_ticks_left:
  assumes nin: "v \<notin> set (vtlist s)" and d: "distinct (vtlist s)"
  shows "ticks_left (chVTSetI v time f a s) = (ticks_left s)(v \<mapsto> unat time)"
proof -
  obtain passed time' rest where
    l: "vtlist s = passed @ rest" and l': "vtlist (chVTSetI v time f a s) = passed @ v # rest" and
    tm: "unat time = delta_sum (vts s) passed + unat time'" and
    v': "vts (chVTSetI v time f a s) =
       (case rest of [] \<Rightarrow> id | p # _ \<Rightarrow> (\<lambda>w. w(p := (w p)\<lparr>vt_time := vt_time (w p) - time'\<rparr>)))
         ((vts s)(v := \<lparr>vt_time = time', vt_func = Some f, vt_par = a\<rparr>))" and
    le: "rest = [] \<or> time' \<le> vt_time (vts s (hd rest))"
    by (rule chVTSetI_cases [OF nin])
  let ?w = "vts (chVTSetI v time f a s)"
  have out: "v \<notin> set passed" "v \<notin> set rest" "set passed \<inter> set rest = {}" "distinct rest"
    using nin d l by auto
  have wp: "vt_time (?w p) = vt_time (vts s p)" if "p \<in> set passed" for p
    using that out v' by (cases rest) auto
  have wv: "vt_time (?w v) = time'" using out v' by (cases rest) auto
  have "ticks_left (chVTSetI v time f a s) x = ((ticks_left s)(v \<mapsto> unat time)) x" for x
  proof -
    have "expiry ?w 0 passed x = expiry (vts s) 0 passed x"
        "delta_sum ?w passed = delta_sum (vts s) passed"
      using wp by (auto intro: expiry_cong delta_sum_cong)
    moreover have "expiry ?w (delta_sum (vts s) passed + unat time') rest x =
        expiry (vts s) (delta_sum (vts s) passed) rest x"
    proof (cases rest)
      case (Cons p qs)
      have "time' \<le> vt_time (vts s p)" using le Cons by simp
      then have "unat time' \<le> unat (vt_time (vts s p))"
          "unat (vt_time (vts s p) - time') = unat (vt_time (vts s p)) - unat time'"
        by (simp_all add: unat_sub word_le_nat_alt)
      moreover have "vt_time (?w p) = vt_time (vts s p) - time'"
        using v' Cons out by auto
      moreover have "expiry ?w t qs x = expiry (vts s) t qs x" for t
        using v' Cons out by (intro expiry_cong) auto
      ultimately show ?thesis using Cons by (simp add: Let_def)
    qed simp
    ultimately show ?thesis
      using out wv by (auto simp: ticks_left_def l l' tm expiry_append Let_def)
  qed
  then show ?thesis by (rule ext)
qed

lemma delta_sum_chVTSetI:
  assumes nin: "v \<notin> set (vtlist s)" and d: "distinct (vtlist s)"
  shows "delta_sum (vts (chVTSetI v time f a s)) (vtlist (chVTSetI v time f a s)) =
           max (delta_sum (vts s) (vtlist s)) (unat time)"
    and "distinct (vtlist (chVTSetI v time f a s))"
    and "set (vtlist (chVTSetI v time f a s)) = insert v (set (vtlist s))"
proof -
  obtain passed time' rest where
    l: "vtlist s = passed @ rest" and l': "vtlist (chVTSetI v time f a s) = passed @ v # rest" and
    tm: "unat time = delta_sum (vts s) passed + unat time'" and
    v': "vts (chVTSetI v time f a s) =
       (case rest of [] \<Rightarrow> id | p # _ \<Rightarrow> (\<lambda>w. w(p := (w p)\<lparr>vt_time := vt_time (w p) - time'\<rparr>)))
         ((vts s)(v := \<lparr>vt_time = time', vt_func = Some f, vt_par = a\<rparr>))" and
    le: "rest = [] \<or> time' \<le> vt_time (vts s (hd rest))"
    by (rule chVTSetI_cases [OF nin])
  let ?w = "vts (chVTSetI v time f a s)"
  have out: "v \<notin> set passed" "v \<notin> set rest" "set passed \<inter> set rest = {}" "distinct rest"
    using nin d l by auto
  show "distinct (vtlist (chVTSetI v time f a s))"
      "set (vtlist (chVTSetI v time f a s)) = insert v (set (vtlist s))"
    using d l l' nin by auto
  have pw: "delta_sum ?w passed = delta_sum (vts s) passed"
    using out v' by (intro delta_sum_cong) (cases rest; auto)
  show "delta_sum ?w (vtlist (chVTSetI v time f a s)) =
      max (delta_sum (vts s) (vtlist s)) (unat time)"
  proof (cases rest)
    case Nil
    then show ?thesis using l l' tm pw v' by simp
  next
    case (Cons p qs)
    have "time' \<le> vt_time (vts s p)" using le Cons by simp
    then have "unat time' \<le> unat (vt_time (vts s p))"
        "unat (vt_time (vts s p) - time') = unat (vt_time (vts s p)) - unat time'"
      by (simp_all add: unat_sub word_le_nat_alt)
    moreover have "vt_time (?w p) = vt_time (vts s p) - time'" "vt_time (?w v) = time'"
      using v' Cons out by auto
    moreover have "delta_sum ?w qs = delta_sum (vts s) qs"
      using v' Cons out by (intro delta_sum_cong) auto
    ultimately show ?thesis using Cons l l' tm pw by simp
  qed
qed

lemma vt_wf_chVTSetI:
  assumes "vt_wf s" and "\<not> chVTIsArmedI v s"
  shows "vt_wf (chVTSetI v time f a s)"
proof -
  have nin: "v \<notin> set (vtlist s)" and d: "distinct (vtlist s)"
    using assms by (simp_all add: vt_wf_def)
  have "unat time < 2 ^ 32" using unsigned_less [of time] by simp
  then show ?thesis
    using assms delta_sum_chVTSetI [OF nin d, of time f a]
    by (simp add: vt_wf_def chVTIsArmedI_def vt_func_chVTSetI)
qed

lemma chVTResetI_cases:
  assumes "vtlist s = passed @ v # rest" and "v \<notin> set passed"
  shows "vtlist (chVTResetI v s) = passed @ rest"
    "vts (chVTResetI v s) =
       ((case rest of [] \<Rightarrow> id
         | p # _ \<Rightarrow> (\<lambda>w. w(p := (w p)\<lparr>vt_time := vt_time (w p) + vt_time (vts s v)\<rparr>))) (vts s))
       (v := ((case rest of [] \<Rightarrow> id
         | p # _ \<Rightarrow> (\<lambda>w. w(p := (w p)\<lparr>vt_time := vt_time (w p) + vt_time (vts s v)\<rparr>))) (vts s) v)
            \<lparr>vt_func := None\<rparr>)"
proof -
  have "takeWhile (\<lambda>x. x \<noteq> v) (vtlist s) = passed" "tl (dropWhile (\<lambda>x. x \<noteq> v) (vtlist s)) = rest"
    using assms by (auto simp: takeWhile_append dropWhile_append)
  then show "vtlist (chVTResetI v s) = passed @ rest"
    "vts (chVTResetI v s) =
       ((case rest of [] \<Rightarrow> id
         | p # _ \<Rightarrow> (\<lambda>w. w(p := (w p)\<lparr>vt_time := vt_time (w p) + vt_time (vts s v)\<rparr>))) (vts s))
       (v := ((case rest of [] \<Rightarrow> id
         | p # _ \<Rightarrow> (\<lambda>w. w(p := (w p)\<lparr>vt_time := vt_time (w p) + vt_time (vts s v)\<rparr>))) (vts s) v)
            \<lparr>vt_func := None\<rparr>)"
    by (simp_all add: chVTResetI_def Let_def split: list.split)
qed

lemma vt_func_chVTResetI:
  "vt_func (vts (chVTResetI v s) x) = (if x = v then None else vt_func (vts s x))"
  "vt_par (vts (chVTResetI v s) x) = vt_par (vts s x)"
  by (auto simp: chVTResetI_def Let_def split: list.split)

lemma chVTResetI_delta:
  assumes wf: "vt_wf s" and l: "vtlist s = passed @ v # rest"
  shows "vtlist (chVTResetI v s) = passed @ rest"
    "delta_sum (vts (chVTResetI v s)) (passed @ rest) \<le> delta_sum (vts s) (vtlist s)"
    "ticks_left (chVTResetI v s) = (ticks_left s)(v := None)"
proof -
  have d: "distinct (passed @ v # rest)" and sm: "delta_sum (vts s) (passed @ v # rest) < 2 ^ 32"
    using wf l by (simp_all add: vt_wf_def)
  then have out: "v \<notin> set passed" "v \<notin> set rest" "set passed \<inter> set rest = {}" "distinct rest"
    by auto
  note rs = chVTResetI_cases [OF l out(1)]
  show l': "vtlist (chVTResetI v s) = passed @ rest" by (rule rs(1))
  let ?w = "vts (chVTResetI v s)"
  have wp: "vt_time (?w p) = vt_time (vts s p)" if "p \<in> set passed" for p
    using that out rs(2) by (cases rest) auto
  have pw: "delta_sum ?w passed = delta_sum (vts s) passed"
    using wp by (auto intro: delta_sum_cong)
  have nxt: "unat (vt_time (?w p)) = unat (vt_time (vts s p)) + unat (vt_time (vts s v))"
      "\<forall>q\<in>set qs. vt_time (?w q) = vt_time (vts s q)" if r: "rest = p # qs" for p qs
  proof -
    have "unat (vt_time (vts s p)) + unat (vt_time (vts s v)) < 2 ^ 32"
      using sm r by simp
    then have "unat (vt_time (vts s p) + vt_time (vts s v)) =
        unat (vt_time (vts s p)) + unat (vt_time (vts s v))"
      by (simp add: unat_word_ariths)
    then show "unat (vt_time (?w p)) = unat (vt_time (vts s p)) + unat (vt_time (vts s v))"
        "\<forall>q\<in>set qs. vt_time (?w q) = vt_time (vts s q)"
      using r out rs(2) by auto
  qed
  show "delta_sum ?w (passed @ rest) \<le> delta_sum (vts s) (vtlist s)"
  proof (cases rest)
    case (Cons p qs)
    then have "delta_sum ?w qs = delta_sum (vts s) qs" using nxt(2) by (intro delta_sum_cong) auto
    then show ?thesis using Cons nxt(1) pw l by simp
  qed (use pw l in simp)
  have "ticks_left (chVTResetI v s) x = ((ticks_left s)(v := None)) x" for x
  proof -
    have e1: "expiry ?w 0 passed x = expiry (vts s) 0 passed x"
      using wp by (auto intro: expiry_cong)
    have e2: "expiry ?w t rest x = expiry (vts s) (t + unat (vt_time (vts s v))) rest x" for t
    proof (cases rest)
      case (Cons p qs)
      then have "expiry ?w u qs x = expiry (vts s) u qs x" for u
        using nxt(2) by (intro expiry_cong) auto
      then show ?thesis using Cons nxt(1) by (simp add: Let_def add.commute add.left_commute)
    qed simp
    show ?thesis using out by (simp add: ticks_left_def l l' expiry_append Let_def e1 e2 pw)
  qed
  then show "ticks_left (chVTResetI v s) = (ticks_left s)(v := None)" by (rule ext)
qed

lemma vt_wf_chVTResetI:
  assumes wf: "vt_wf s" and a: "chVTIsArmedI v s"
  shows "vt_wf (chVTResetI v s)"
proof -
  obtain passed rest where l: "vtlist s = passed @ v # rest"
    using assms by (metis vt_wf_def split_list)
  have "distinct (passed @ v # rest)" using wf l by (simp add: vt_wf_def)
  then show ?thesis
    using wf l chVTResetI_delta [OF wf l]
    by (auto simp: vt_wf_def chVTIsArmedI_def vt_func_chVTResetI)
qed

section \<open>The ticker\<close>

text \<open>
  The loop of \<open>chVTDoTickI\<close> fires the timers at the front of the list whose delta has
  reached zero.  What a callback does is the parameter \<open>call\<close>: it runs with the kernel
  unlocked from the interrupt handler.  Not returning is the value \<open>None\<close>, which also
  stands for the call through a null function pointer.
\<close>

partial_function (option) vt_fire ::
  "(vtfunc \<Rightarrow> addr \<Rightarrow> kstate \<Rightarrow> kstate) \<Rightarrow> kstate \<Rightarrow> kstate option" where
  "vt_fire call s =
     (case vtlist s of
        [] \<Rightarrow> Some s
      | vtp # rest \<Rightarrow>
          (if vt_time (vts s vtp) \<noteq> 0 then Some s
           else (case vt_func (vts s vtp) of
                   None \<Rightarrow> None
                 | Some fn \<Rightarrow>
                     vt_fire call
                       (call fn (vt_par (vts s vtp))
                         ((upd_vt vtp (\<lambda>v. v\<lparr>vt_func := None\<rparr>) s)\<lparr>vtlist := rest\<rparr>)))))"

definition chVTDoTickI ::
  "(vtfunc \<Rightarrow> addr \<Rightarrow> kstate \<Rightarrow> kstate) \<Rightarrow> kstate \<Rightarrow> kstate option" where
  "chVTDoTickI call s =
     (let s1 = s\<lparr>vt_systime := vt_systime s + 1\<rparr>
      in case vtlist s1 of
           [] \<Rightarrow> Some s1
         | vtp # _ \<Rightarrow> vt_fire call (upd_vt vtp (\<lambda>v. v\<lparr>vt_time := vt_time v - 1\<rparr>) s1))"

text \<open>The state a callback starts in: its timer is off the list and no longer armed.\<close>

definition vt_pop :: "kstate \<Rightarrow> kstate" where
  "vt_pop s = (upd_vt (hd (vtlist s)) (\<lambda>v. v\<lparr>vt_func := None\<rparr>) s)\<lparr>vtlist := tl (vtlist s)\<rparr>"

definition zeros :: "kstate \<Rightarrow> nat" where
  "zeros s = length (takeWhile (\<lambda>v. vt_time (vts s v) = 0) (vtlist s))"

text \<open>No armed timer is due at once: the first delta is not zero.\<close>

definition vt_pos :: "kstate \<Rightarrow> bool" where
  "vt_pos s \<longleftrightarrow> (case vtlist s of [] \<Rightarrow> True | v # _ \<Rightarrow> vt_time (vts s v) \<noteq> 0)"

definition callbacks_in :: "(vtfunc \<Rightarrow> bool) \<Rightarrow> kstate \<Rightarrow> bool" where
  "callbacks_in ok s \<longleftrightarrow> (\<forall>v f. vt_func (vts s v) = Some f \<longrightarrow> ok f)"

lemma zeros_0: "zeros s = 0 \<longleftrightarrow> vt_pos s"
  by (auto simp: zeros_def vt_pos_def split: list.split)

lemma vt_fire_stop: "vt_pos s \<Longrightarrow> vt_fire call s = Some s"
  by (subst vt_fire.simps) (auto simp: vt_pos_def split: list.splits)

lemma vt_fire_step:
  assumes "vt_wf s" and "\<not> vt_pos s"
  obtains fn where "vt_func (vts s (hd (vtlist s))) = Some fn" and "vtlist s \<noteq> []"
    and "vt_fire call s = vt_fire call (call fn (vt_par (vts s (hd (vtlist s)))) (vt_pop s))"
proof -
  obtain v rest where v: "vtlist s = v # rest" "vt_time (vts s v) = 0"
    using assms(2) by (auto simp: vt_pos_def split: list.splits)
  then have "chVTIsArmedI v s" using assms(1) by (auto simp: vt_wf_def)
  then obtain fn where fn: "vt_func (vts s v) = Some fn" by (auto simp: chVTIsArmedI_def)
  show thesis
    by (rule that [of fn]) (use v fn in \<open>simp_all add: vt_pop_def vt_fire.simps [of call s]\<close>)
qed

lemma vt_pop_facts:
  assumes "vt_wf s" and "\<not> vt_pos s"
  shows "vt_wf (vt_pop s)" and "zeros (vt_pop s) < zeros s"
    and "callbacks_in ok s \<Longrightarrow> callbacks_in ok (vt_pop s)"
    and "vt_systime (vt_pop s) = vt_systime s"
    and "ticks_left (vt_pop s) = (ticks_left s)(hd (vtlist s) := None)"
proof -
  obtain v rest where v: "vtlist s = v # rest" "vt_time (vts s v) = 0"
    using assms(2) by (auto simp: vt_pos_def split: list.splits)
  have d: "v \<notin> set rest" "distinct rest" using assms(1) v by (auto simp: vt_wf_def)
  have tm: "vt_time (vts (vt_pop s) x) = vt_time (vts s x)" for x
    by (simp add: vt_pop_def)
  then have ds: "delta_sum (vts (vt_pop s)) xs = delta_sum (vts s) xs" for xs
    by (intro delta_sum_cong) simp
  have ex: "expiry (vts (vt_pop s)) a xs x = expiry (vts s) a xs x" for a xs x
    using tm by (intro expiry_cong) simp
  have l: "vtlist (vt_pop s) = rest" by (simp add: vt_pop_def v)
  show "vt_wf (vt_pop s)"
    using assms(1) v d ds [of rest] unfolding vt_wf_def l
    by (auto simp: chVTIsArmedI_def vt_pop_def)
  have "takeWhile (\<lambda>x. vt_time (vts (vt_pop s) x) = 0) rest = takeWhile (\<lambda>x. vt_time (vts s x) = 0) rest"
    by (simp add: tm)
  then show "zeros (vt_pop s) < zeros s" unfolding zeros_def l by (simp add: v)
  show "callbacks_in ok s \<Longrightarrow> callbacks_in ok (vt_pop s)"
    by (auto simp: callbacks_in_def vt_pop_def)
  show "vt_systime (vt_pop s) = vt_systime s" by (simp add: vt_pop_def)
  show "ticks_left (vt_pop s) = (ticks_left s)(hd (vtlist s) := None)"
    unfolding ticks_left_def l by (rule ext) (use v d ex in \<open>simp add: Let_def\<close>)
qed

text \<open>
  The contract of timer callbacks, for a class \<open>ok\<close> of functions: they keep the timer
  list well formed, arm only functions of the class, and never arm a timer that is due at
  once.  Then the ticker returns.
\<close>

locale timer_callbacks =
  fixes call :: "vtfunc \<Rightarrow> addr \<Rightarrow> kstate \<Rightarrow> kstate" and ok :: "vtfunc \<Rightarrow> bool"
  assumes call_wf: "ok f \<Longrightarrow> vt_wf s \<Longrightarrow> vt_wf (call f a s)"
    and call_ok: "ok f \<Longrightarrow> vt_wf s \<Longrightarrow> callbacks_in ok s \<Longrightarrow> callbacks_in ok (call f a s)"
    and call_zeros: "ok f \<Longrightarrow> vt_wf s \<Longrightarrow> zeros (call f a s) \<le> zeros s"
begin

lemma fire_returns:
  assumes "vt_wf s" and "callbacks_in ok s" and "I s"
    and step: "\<And>f v t. vt_wf t \<Longrightarrow> callbacks_in ok t \<Longrightarrow> I t \<Longrightarrow> \<not> vt_pos t \<Longrightarrow>
      vt_func (vts t (hd (vtlist t))) = Some f \<Longrightarrow> vtlist t \<noteq> [] \<Longrightarrow>
      I (call f (vt_par (vts t (hd (vtlist t)))) (vt_pop t))"
  shows "\<exists>s'. vt_fire call s = Some s' \<and> vt_wf s' \<and> vt_pos s' \<and> callbacks_in ok s' \<and> I s'"
  using assms(1-3)
proof (induction "zeros s" arbitrary: s rule: less_induct)
  case less
  show ?case
  proof (cases "vt_pos s")
    case True
    then show ?thesis using less vt_fire_stop by blast
  next
    case False
    obtain fn where fn: "vt_func (vts s (hd (vtlist s))) = Some fn" "vtlist s \<noteq> []"
      and st: "vt_fire call s = vt_fire call (call fn (vt_par (vts s (hd (vtlist s)))) (vt_pop s))"
      using vt_fire_step less.prems False by blast
    have "ok fn" using less.prems fn by (auto simp: callbacks_in_def)
    moreover note pop = vt_pop_facts [OF less.prems(1) False]
    ultimately show ?thesis unfolding st
      using less.hyps less.prems False fn step call_wf call_ok call_zeros
      by (meson le_less_trans)
  qed
qed

end

text \<open>Callbacks that leave the timers alone: the effect of a tick is then exact.\<close>

locale quiet_callbacks =
  fixes call :: "vtfunc \<Rightarrow> addr \<Rightarrow> kstate \<Rightarrow> kstate" and ok :: "vtfunc \<Rightarrow> bool"
  assumes call_vtlist: "ok f \<Longrightarrow> vtlist (call f a s) = vtlist s"
    and call_vts: "ok f \<Longrightarrow> vts (call f a s) = vts s"
    and call_systime: "ok f \<Longrightarrow> vt_systime (call f a s) = vt_systime s"

sublocale quiet_callbacks \<subseteq> timer_callbacks call ok
  by unfold_locales
    (auto simp: vt_wf_def chVTIsArmedI_def callbacks_in_def zeros_def call_vtlist call_vts)

text \<open>One tick on the abstract view: every timer gets closer by one, the due ones leave.\<close>

definition tick_view :: "(vtref \<rightharpoonup> nat) \<Rightarrow> (vtref \<rightharpoonup> nat)" where
  "tick_view m = (\<lambda>x. case m x of None \<Rightarrow> None | Some n \<Rightarrow> if n \<le> 1 then None else Some (n - 1))"

lemma ticks_left_pos:
  assumes "vt_wf s" and "vt_pos s" shows "ticks_left s x \<noteq> Some 0"
proof -
  have ge: "a \<le> n" if "expiry v a ps x = Some n" for v a ps n
    using that by (induction ps arbitrary: a) (auto simp: Let_def split: if_splits dest: add_leD1)
  show ?thesis
  proof (cases "vtlist s")
    case (Cons p ps)
    then have "0 < unat (vt_time (vts s p))" using assms(2) by (simp add: vt_pos_def unat_gt_0)
    then show ?thesis
      using ge [of "vts s" "unat (vt_time (vts s p))" ps 0] Cons
      by (auto simp: ticks_left_def Let_def)
  qed (simp add: ticks_left_def)
qed

definition vt_dec :: "kstate \<Rightarrow> kstate" where
  "vt_dec s = upd_vt (hd (vtlist s)) (\<lambda>v. v\<lparr>vt_time := vt_time v - 1\<rparr>)
     (s\<lparr>vt_systime := vt_systime s + 1\<rparr>)"

lemma vt_dec_facts:
  assumes wf: "vt_wf s" and p: "vt_pos s" and ne: "vtlist s \<noteq> []"
  shows "vt_wf (vt_dec s)" and "callbacks_in ok s \<Longrightarrow> callbacks_in ok (vt_dec s)"
    and "ticks_left (vt_dec s) x = map_option (\<lambda>n. n - 1) (ticks_left s x)"
    and "chVTDoTickI call s = vt_fire call (vt_dec s)"
proof -
  obtain v rest where v: "vtlist s = v # rest" "vt_time (vts s v) \<noteq> 0"
    using p ne by (auto simp: vt_pos_def split: list.splits)
  have d: "v \<notin> set rest" using wf v by (auto simp: vt_wf_def)
  have u: "unat (vt_time (vts s v) - 1) = unat (vt_time (vts s v)) - 1"
      "0 < unat (vt_time (vts s v))"
    using v(2) by (simp_all add: unat_minus_one unat_gt_0)
  have ds: "delta_sum (vts (vt_dec s)) rest = delta_sum (vts s) rest"
    using v d by (intro delta_sum_cong) (auto simp: vt_dec_def)
  show "vt_wf (vt_dec s)"
    using wf v d ds u by (auto simp: vt_wf_def chVTIsArmedI_def vt_dec_def)
  show "callbacks_in ok s \<Longrightarrow> callbacks_in ok (vt_dec s)"
    by (auto simp: callbacks_in_def vt_dec_def split: if_splits)
  have shift: "expiry w (a - 1) ps x = map_option (\<lambda>n. n - 1) (expiry w a ps x)"
    if "0 < a" for w a ps
    using that
  proof (induction ps arbitrary: a)
    case (Cons q ps)
    have "a - 1 + unat (vt_time (w q)) = a + unat (vt_time (w q)) - 1" using Cons(2) by simp
    then show ?case using Cons by (simp add: Let_def)
  qed simp
  have "expiry (vts (vt_dec s)) a rest x = expiry (vts s) a rest x" for a
    using v d by (intro expiry_cong) (auto simp: vt_dec_def)
  moreover have "vtlist (vt_dec s) = v # rest" "vt_time (vts (vt_dec s) v) = vt_time (vts s v) - 1"
    using v by (auto simp: vt_dec_def)
  ultimately show "ticks_left (vt_dec s) x = map_option (\<lambda>n. n - 1) (ticks_left s x)"
    using u v shift [of "unat (vt_time (vts s v))" "vts s" rest] by (simp add: ticks_left_def Let_def)
  show "chVTDoTickI call s = vt_fire call (vt_dec s)"
    using v by (simp add: chVTDoTickI_def vt_dec_def Let_def)
qed

text \<open>
  The timers that are due at the next tick, the state with all timers one tick nearer, and the
  removal of one timer from the list.
\<close>

definition due :: "kstate \<Rightarrow> vtref list" where
  "due s = takeWhile (\<lambda>v. vt_time (vts (vt_dec s) v) = 0) (vtlist s)"

definition vt_down :: "kstate \<Rightarrow> kstate" where
  "vt_down s = (if vtlist s = [] then s\<lparr>vt_systime := vt_systime s + 1\<rparr> else vt_dec s)"

definition vt_off :: "vtref \<Rightarrow> kstate \<Rightarrow> kstate" where
  "vt_off v s = (upd_vt v (\<lambda>x. x\<lparr>vt_func := None\<rparr>) s)\<lparr>vtlist := remove1 v (vtlist s)\<rparr>"

lemma expiry_0:
  "expiry w a ps x = Some 0 \<longleftrightarrow> a = 0 \<and> x \<in> set (takeWhile (\<lambda>v. vt_time (w v) = 0) ps)"
  by (induction ps arbitrary: a) (auto simp: Let_def unat_eq_0)

lemma set_due:
  assumes wf: "vt_wf s" and p: "vt_pos s"
  shows "set (due s) = {v. ticks_left s v = Some 1}" and "distinct (due s)"
proof -
  have "v \<in> set (due s) \<longleftrightarrow> ticks_left s v = Some 1" for v
  proof (cases "vtlist s = []")
    case False
    note dec = vt_dec_facts [OF wf p False]
    have l: "vtlist (vt_dec s) = vtlist s" by (simp add: vt_dec_def)
    have "v \<in> set (due s) \<longleftrightarrow> ticks_left (vt_dec s) v = Some 0"
      by (simp add: due_def ticks_left_def expiry_0 l)
    also have "\<dots> \<longleftrightarrow> ticks_left s v = Some 1"
      using dec(3) [of v] ticks_left_pos [OF wf p, of v] by (cases "ticks_left s v") auto
    finally show ?thesis .
  qed (simp add: due_def ticks_left_def)
  then show "set (due s) = {v. ticks_left s v = Some 1}" by blast
  show "distinct (due s)" using wf by (simp add: due_def vt_wf_def)
qed

context timer_callbacks
begin

lemma tick_returns:
  assumes "vt_wf s" and "vt_pos s" and "callbacks_in ok s"
  shows "\<exists>s'. chVTDoTickI call s = Some s' \<and> vt_wf s' \<and> vt_pos s' \<and> callbacks_in ok s'"
proof (cases "vtlist s = []")
  case True
  then have "chVTDoTickI call s = Some (s\<lparr>vt_systime := vt_systime s + 1\<rparr>)"
    by (simp add: chVTDoTickI_def)
  then show ?thesis
    using assms True by (simp add: vt_wf_def vt_pos_def callbacks_in_def chVTIsArmedI_def)
next
  case False
  then show ?thesis
    using assms fire_returns [of "vt_dec s" "\<lambda>_. True"] vt_dec_facts [of s] by simp
qed

end

context quiet_callbacks
begin

lemma tick_effect:
  assumes wf: "vt_wf s" and p: "vt_pos s" and ok: "callbacks_in ok s"
  shows "\<exists>s'. chVTDoTickI call s = Some s' \<and> vt_systime s' = vt_systime s + 1 \<and>
    ticks_left s' = tick_view (ticks_left s)"
proof (cases "vtlist s = []")
  case True
  then have "ticks_left (s\<lparr>vt_systime := vt_systime s + 1\<rparr>) = tick_view (ticks_left s)"
    by (intro ext) (simp add: ticks_left_def tick_view_def)
  then show ?thesis using True by (simp add: chVTDoTickI_def)
next
  case ne: False
  note dec = vt_dec_facts [OF wf p ne]
  let ?I = "\<lambda>t. vt_systime t = vt_systime s + 1 \<and>
    (\<forall>x n. 0 < n \<longrightarrow> ticks_left t x = Some n \<longleftrightarrow> ticks_left (vt_dec s) x = Some n)"
  have "?I (vt_dec s)" by (simp add: vt_dec_def)
  moreover have "?I (call f a (vt_pop t))"
    if t: "vt_wf t" "?I t" "\<not> vt_pos t" and f: "vt_func (vts t (hd (vtlist t))) = Some f"
      "callbacks_in ok t" for f a t
  proof -
    have "ok f" using f by (auto simp: callbacks_in_def)
    then have "ticks_left (call f a (vt_pop t)) = ticks_left (vt_pop t)"
        "vt_systime (call f a (vt_pop t)) = vt_systime t"
      using vt_pop_facts(4) [OF t(1,3)]
      by (simp_all add: ticks_left_def call_vtlist call_vts call_systime)
    moreover have z: "ticks_left t (hd (vtlist t)) = Some 0"
      using t(3) by (auto simp: vt_pos_def ticks_left_def split: list.splits)
    moreover have "ticks_left (vt_dec s) (hd (vtlist t)) \<noteq> Some n" if "0 < n" for n
    proof -
      have "ticks_left t (hd (vtlist t)) = Some n \<longleftrightarrow> ticks_left (vt_dec s) (hd (vtlist t)) = Some n"
        using t(2) that by blast
      then show ?thesis using z that by simp
    qed
    ultimately show ?thesis using t(2) vt_pop_facts(5) [OF t(1,3)] by (metis fun_upd_apply option.distinct(1))
  qed
  ultimately obtain s' where s': "chVTDoTickI call s = Some s'" "vt_wf s'" "vt_pos s'" "?I s'"
    using fire_returns [of "vt_dec s" ?I] dec(1) dec(2) [OF ok] unfolding dec(4) by blast
  have "ticks_left s' x = tick_view (ticks_left s) x" for x
  proof -
    have nz: "ticks_left s' x \<noteq> Some 0" "ticks_left s x \<noteq> Some 0"
      using ticks_left_pos s' wf p by blast+
    have "ticks_left s' x = Some n \<longleftrightarrow> tick_view (ticks_left s) x = Some n" if "0 < n" for n
      using s'(4) that dec(3) [of x] by (auto simp: tick_view_def split: option.split)
    moreover have "tick_view (ticks_left s) x \<noteq> Some 0" by (auto simp: tick_view_def split: option.split)
    ultimately show ?thesis using nz
      by (metis gr0I not_None_eq)
  qed
  then show ?thesis using s' by blast
qed

text \<open>The callbacks of the due timers are called, each once, in the order of the list.\<close>

lemma fire_exact:
  assumes "vt_wf s" and "callbacks_in ok s"
  shows "vt_fire call s = Some (fold (\<lambda>v t. call (the (vt_func (vts s v))) (vt_par (vts s v)) (vt_off v t))
    (takeWhile (\<lambda>v. vt_time (vts s v) = 0) (vtlist s)) s)"
  using assms
proof (induction "vtlist s" arbitrary: s)
  case Nil
  then show ?case by (simp add: vt_fire_stop vt_pos_def)
next
  case (Cons v rest)
  note l = Cons.hyps(2) [symmetric]
  show ?case
  proof (cases "vt_time (vts s v) = 0")
    case False
    then show ?thesis by (simp add: vt_fire_stop vt_pos_def l)
  next
    case True
    then have np: "\<not> vt_pos s" by (simp add: vt_pos_def l)
    obtain fn where fn: "vt_func (vts s v) = Some fn"
      and st: "vt_fire call s = vt_fire call (call fn (vt_par (vts s v)) (vt_pop s))"
      using vt_fire_step [OF Cons.prems(1) np, of call] l by auto
    define t where "t = call fn (vt_par (vts s v)) (vt_pop s)"
    have o: "ok fn" using Cons.prems(2) fn by (auto simp: callbacks_in_def)
    have d: "v \<notin> set rest" using Cons.prems(1) l by (auto simp: vt_wf_def)
    have te: "vts t x = vts s x" if "x \<in> set rest" for x
      using o that d by (auto simp: t_def call_vts vt_pop_def l)
    have vl: "rest = vtlist t" using o l by (simp add: t_def call_vtlist vt_pop_def)
    have kt: "vt_wf t" "callbacks_in ok t"
      unfolding t_def using o Cons.prems np by (simp_all add: call_wf call_ok vt_pop_facts)
    have tw: "takeWhile (\<lambda>x. vt_time (vts t x) = 0) rest = takeWhile (\<lambda>x. vt_time (vts s x) = 0) rest"
      using te by (intro takeWhile_cong) auto
    have "vt_off v s = vt_pop s" by (simp add: vt_off_def vt_pop_def l)
    then have h: "call (the (vt_func (vts s v))) (vt_par (vts s v)) (vt_off v s) = t" by (simp add: t_def fn)
    have "fold (\<lambda>x t'. call (the (vt_func (vts t x))) (vt_par (vts t x)) (vt_off x t')) (takeWhile (\<lambda>x. vt_time (vts s x) = 0) rest) t
        = fold (\<lambda>x t'. call (the (vt_func (vts s x))) (vt_par (vts s x)) (vt_off x t')) (takeWhile (\<lambda>x. vt_time (vts s x) = 0) rest) t"
      by (rule fold_cong) (use te in \<open>auto dest: set_takeWhileD\<close>)
    then show ?thesis
      using Cons.hyps(1) [OF vl kt] True l h by (simp add: st t_def [symmetric] vl [symmetric] tw)
  qed
qed

lemma tick_calls:
  assumes wf: "vt_wf s" and p: "vt_pos s" and ok: "callbacks_in ok s"
  shows "chVTDoTickI call s =
    Some (fold (\<lambda>v t. call (the (vt_func (vts s v))) (vt_par (vts s v)) (vt_off v t)) (due s) (vt_down s))"
proof (cases "vtlist s")
  case Nil
  then show ?thesis by (simp add: chVTDoTickI_def due_def vt_down_def)
next
  case (Cons v rest)
  note dec = vt_dec_facts [OF wf p]
  have e: "vt_func (vts (vt_dec s) x) = vt_func (vts s x)" "vt_par (vts (vt_dec s) x) = vt_par (vts s x)"
      "vtlist (vt_dec s) = vtlist s" for x
    by (simp_all add: vt_dec_def)
  show ?thesis
    using fire_exact [OF dec(1) dec(2) [OF _ ok]] Cons
    by (simp add: dec(4) due_def vt_down_def e)
qed

end

section \<open>Time conversion\<close>

text \<open>
  The conversion macros for an argument of type \<^verbatim>\<open>int\<close>: the arithmetic is that of 32-bit
  \<^verbatim>\<open>long\<close> and the division truncates.
\<close>

definition S2ST :: "u32 \<Rightarrow> systime_t" where
  "S2ST sec = sec * CH_FREQUENCY"

definition MS2ST :: "u32 \<Rightarrow> systime_t" where
  "MS2ST msec = word_of_int (sint (msec * CH_FREQUENCY - 1) sdiv 1000 + 1)"

definition US2ST :: "u32 \<Rightarrow> systime_t" where
  "US2ST usec = word_of_int (sint (usec * CH_FREQUENCY - 1) sdiv 1000000 + 1)"

end
