(* ===== verification/Scheduler.thy ===== *)
theory Scheduler
  imports Execution Timers
begin

text \<open>
  The scheduler (\<^verbatim>\<open>os/kernel/src/chschd.c\<close>, \<^verbatim>\<open>os/kernel/include/chschd.h\<close>): the ready
  list, sleeping with and without a timeout, waking, rescheduling and round-robin
  preemption.  The functions that may switch context are runs (theory \<^verbatim>\<open>Execution\<close>).
\<close>

section \<open>The ready list\<close>

definition scheduler_init :: "kstate \<Rightarrow> kstate" where
  "scheduler_init s = s\<lparr>r_queue := [], registry := queue_init (rlist s) (registry s)\<rparr>"

text \<open>The header of the ready list has priority \<open>NOPRIO\<close>, which an empty list shows.\<close>

definition firstprio :: "kstate \<Rightarrow> tprio_t" where
  "firstprio s = (case r_queue s of [] \<Rightarrow> NOPRIO | t # _ \<Rightarrow> prio s t)"

text \<open>
  The walk of \<open>chSchReadyI\<close> is the function \<open>ready_scan\<close> of the theory on thread lists, where it is
  shown to end with the insertion \<open>ins_behind\<close> for a thread of priority above \<open>NOPRIO\<close> and never to
  end for a thread of priority \<open>NOPRIO\<close>.  Here the insertion stands for the walk; the kernel
  invariant asks for positive priorities.
\<close>

definition chSchReadyI :: "addr \<Rightarrow> kstate \<Rightarrow> kstate" where
  "chSchReadyI tp s =
     (let s1 = upd_thd tp (\<lambda>t. t\<lparr>p_state := THD_STATE_READY\<rparr>) s
      in s1\<lparr>r_queue := ins_behind (prio s1) tp (r_queue s1)\<rparr>)"

text \<open>
  \<^verbatim>\<open>setcurrp(fifo_remove(&rlist.r_queue)); currp->p_state = THD_STATE_CURRENT\<close>, the
  common part of every function that gives up the processor.
\<close>

definition pick_next :: "kstate \<Rightarrow> kstate" where
  "pick_next s =
     (let (tp, q) = fifo_take (rlist s) (r_queue s)
      in upd_thd tp (\<lambda>t. t\<lparr>p_state := THD_STATE_CURRENT\<rparr>) (s\<lparr>r_queue := q, currp := tp\<rparr>))"

section \<open>Sleeping and waking\<close>

definition chSchGoSleepS :: "tstate \<Rightarrow> kstate \<Rightarrow> unit run" where
  "chSchGoSleepS newstate s =
     (let otp = currp s;
          s1 = upd_thd otp (\<lambda>t. t\<lparr>p_state := newstate, p_preempt := CH_TIME_QUANTUM\<rparr>) s
      in chSysSwitch (pick_next s1))"

definition chSemFastSignalI :: "addr \<Rightarrow> kstate \<Rightarrow> kstate" where
  "chSemFastSignalI sp s = upd_sem sp (\<lambda>x. x\<lparr>s_cnt := s_cnt x + 1\<rparr>) s"

definition wakeup :: "addr \<Rightarrow> kstate \<Rightarrow> kstate" where
  "wakeup tp s =
     (let timeout = (\<lambda>s. chSchReadyI tp (upd_thd tp (\<lambda>t. t\<lparr>p_u := RDY_TIMEOUT\<rparr>) s))
      in case state_of s tp of
           THD_STATE_READY \<Rightarrow> s
         | THD_STATE_WTSEM \<Rightarrow> timeout (unlink tp (chSemFastSignalI (p_u (thd s tp)) s))
         | THD_STATE_WTQUEUE \<Rightarrow> timeout (unlink tp s)
         | THD_STATE_WTCOND \<Rightarrow> timeout (unlink tp s)
         | _ \<Rightarrow> timeout s)"

definition chSchGoSleepTimeoutS :: "tstate \<Rightarrow> systime_t \<Rightarrow> kstate \<Rightarrow> msg_t run" where
  "chSchGoSleepTimeoutS newstate time s =
     (if TIME_INFINITE \<noteq> time
      then let vt = OnStack (currp s)
           in rbind (chSchGoSleepS newstate (chVTSetI vt time Wakeup (currp s) s))
                (\<lambda>_ s1. let s2 = (if chVTIsArmedI vt s1 then chVTResetI vt s1 else s1)
                        in Done (p_u (thd s2 (currp s2))) s2)
      else rbind (chSchGoSleepS newstate s) (\<lambda>_ s1. Done (p_u (thd s1 (currp s1))) s1))"

definition chSchWakeupS :: "addr \<Rightarrow> msg_t \<Rightarrow> kstate \<Rightarrow> unit run" where
  "chSchWakeupS ntp msg s =
     (let s1 = upd_thd ntp (\<lambda>t. t\<lparr>p_u := msg\<rparr>) s
      in if prio s1 ntp \<le> prio s1 (currp s1) then Done () (chSchReadyI ntp s1)
         else let s2 = (chSchReadyI (currp s1) s1)\<lparr>currp := ntp\<rparr>
              in chSysSwitch (upd_thd ntp (\<lambda>t. t\<lparr>p_state := THD_STATE_CURRENT\<rparr>) s2))"

section \<open>Rescheduling\<close>

definition chSchIsRescRequiredI :: "kstate \<Rightarrow> bool" where
  "chSchIsRescRequiredI s \<longleftrightarrow> firstprio s > prio s (currp s)"

definition chSchCanYieldS :: "kstate \<Rightarrow> bool" where
  "chSchCanYieldS s \<longleftrightarrow> firstprio s \<ge> prio s (currp s)"

definition chSchIsPreemptionRequired :: "kstate \<Rightarrow> bool" where
  "chSchIsPreemptionRequired s =
     (let p1 = firstprio s; p2 = prio s (currp s)
      in if p_preempt (thd s (currp s)) \<noteq> 0 then p1 > p2 else p1 \<ge> p2)"

definition chSchDoRescheduleBehind :: "kstate \<Rightarrow> unit run" where
  "chSchDoRescheduleBehind s =
     (let otp = currp s;
          s1 = upd_thd otp (\<lambda>t. t\<lparr>p_preempt := CH_TIME_QUANTUM\<rparr>) (pick_next s)
      in chSysSwitch (chSchReadyI otp s1))"

definition chSchDoRescheduleAhead :: "kstate \<Rightarrow> unit run" where
  "chSchDoRescheduleAhead s =
     (let otp = currp s;
          s1 = upd_thd otp (\<lambda>t. t\<lparr>p_state := THD_STATE_READY\<rparr>) (pick_next s)
      in chSysSwitch (s1\<lparr>r_queue := ins_ahead (prio s1) otp (r_queue s1)\<rparr>))"

definition chSchRescheduleS :: "kstate \<Rightarrow> unit run" where
  "chSchRescheduleS s = (if chSchIsRescRequiredI s then chSchDoRescheduleAhead s else Done () s)"

definition chSchDoReschedule :: "kstate \<Rightarrow> unit run" where
  "chSchDoReschedule s =
     (if p_preempt (thd s (currp s)) = 0 then chSchDoRescheduleBehind s
      else chSchDoRescheduleAhead s)"

definition chSchDoYieldS :: "kstate \<Rightarrow> unit run" where
  "chSchDoYieldS s = (if chSchCanYieldS s then chSchDoRescheduleBehind s else Done () s)"

definition chSchPreemption :: "kstate \<Rightarrow> unit run" where
  "chSchPreemption s =
     (let p1 = firstprio s; p2 = prio s (currp s)
      in if p_preempt (thd s (currp s)) \<noteq> 0
         then if p1 > p2 then chSchDoRescheduleAhead s else Done () s
         else if p1 \<ge> p2 then chSchDoRescheduleBehind s else Done () s)"

section \<open>The callbacks of the kernel's timers\<close>

text \<open>The kernel's own callback, and those of the application as a parameter.\<close>

definition vt_call :: "(addr \<Rightarrow> addr \<Rightarrow> kstate \<Rightarrow> kstate) \<Rightarrow> vtfunc \<Rightarrow> addr \<Rightarrow> kstate \<Rightarrow> kstate" where
  "vt_call user f a s = (case f of Wakeup \<Rightarrow> wakeup a s | UserFunc g \<Rightarrow> user g a s)"

lemma wakeup_timers:
  "vts (wakeup t s) = vts s" "vtlist (wakeup t s) = vtlist s" "vt_systime (wakeup t s) = vt_systime s"
  by (simp_all add: wakeup_def unlink_def chSemFastSignalI_def chSchReadyI_def Let_def split: tstate.split)

interpretation kernel_timers: quiet_callbacks "vt_call user" "\<lambda>f. f = Wakeup" for user
  by unfold_locales (simp_all add: vt_call_def wakeup_timers)

end
