(* ===== verification/Invariants.thy ===== *)
theory Invariants
  imports Scheduler
begin

text \<open>
  The invariant of the kernel and the interference a suspended thread has to expect.  The
  lemmas of this theory say for each elementary change the kernel makes (a thread leaves a queue and becomes ready, the
  running thread joins a queue and sleeps, the next thread is chosen) that the invariant
  survives it; the component theories reduce their operations to these.
\<close>

unbundle bit_operations_syntax

section \<open>Where a thread is queued\<close>

datatype place =
    PNone | PReady | PSem addr | PMtx addr | PCond addr | PQueue addr | PMsg addr | PExit addr

fun queue_of :: "kstate \<Rightarrow> place \<Rightarrow> addr list" where
  "queue_of s PNone = []"
| "queue_of s PReady = r_queue s"
| "queue_of s (PSem a) = s_queue (sem s a)"
| "queue_of s (PMtx a) = m_queue (mtx s a)"
| "queue_of s (PCond a) = c_queue (cond s a)"
| "queue_of s (PQueue a) = q_waiting (ioq s a)"
| "queue_of s (PMsg a) = p_msgqueue (thd s a)"
| "queue_of s (PExit a) = p_waiting (thd s a)"

text \<open>The queue that a thread's state and its wait object stand for.\<close>

definition place_ok :: "Thread \<Rightarrow> place \<Rightarrow> bool" where
  "place_ok th p \<longleftrightarrow>
     (case p_state th of
        THD_STATE_READY \<Rightarrow> p = PReady
      | THD_STATE_WTSEM \<Rightarrow> p = PSem (p_u th)
      | THD_STATE_WTMTX \<Rightarrow> p = PMtx (p_u th)
      | THD_STATE_WTCOND \<Rightarrow> p = PCond (p_u th)
      | THD_STATE_WTQUEUE \<Rightarrow> p = PQueue (p_u th)
      | THD_STATE_SNDMSGQ \<Rightarrow> (\<exists>a. p = PMsg a \<and> p_u th = p_msgqueue_addr a)
      | THD_STATE_WTEXIT \<Rightarrow> (\<exists>a. p = PExit a)
      | _ \<Rightarrow> p = PNone)"

definition linked :: "(addr \<Rightarrow> place) \<Rightarrow> (place \<Rightarrow> addr list) \<Rightarrow> bool" where
  "linked L Q \<longleftrightarrow> (\<forall>p. p \<noteq> PNone \<longrightarrow> distinct (Q p) \<and> (\<forall>t. t \<in> set (Q p) \<longleftrightarrow> L t = p))"

text \<open>
  Every thread is in the one queue that its state stands for, once, and in no other.
\<close>

definition places :: "kstate \<Rightarrow> bool" where
  "places s \<longleftrightarrow> (\<exists>L. (\<forall>t. place_ok (thd s t) (L t)) \<and> linked L (queue_of s))"

lemma place_ok_distinct:
  "place_ok th p \<Longrightarrow> place_ok th p' \<Longrightarrow>
     p = p' \<or> (\<exists>a b. p = PMsg a \<and> p' = PMsg b) \<or> (\<exists>a b. p = PExit a \<and> p' = PExit b)"
  by (auto simp: place_ok_def split: tstate.splits)

lemma place_ok_cong:
  "p_state th' = p_state th \<Longrightarrow> p_u th' = p_u th \<Longrightarrow> place_ok th' p = place_ok th p"
  by (cases "p_state th") (simp_all add: place_ok_def)

lemma places_distinct: "places s \<Longrightarrow> distinct (queue_of s p)"
  by (cases "p = PNone") (auto simp: places_def linked_def)

lemma places_at: "places s \<Longrightarrow> t \<in> set (queue_of s p) \<Longrightarrow> place_ok (thd s t) p"
  by (cases "p = PNone") (auto simp: places_def linked_def)

lemma places_unique:
  "places s \<Longrightarrow> t \<in> set (queue_of s p) \<Longrightarrow> t \<in> set (queue_of s r) \<Longrightarrow> p = r"
  by (cases "p = PNone"; cases "r = PNone") (auto simp: places_def linked_def)

lemma places_unqueued:
  "places s \<Longrightarrow> place_ok (thd s t) PNone \<Longrightarrow> t \<notin> set (queue_of s p)"
  using places_at [of s t p] place_ok_distinct [of "thd s t" p PNone] by (cases p) auto

lemma places_queued:
  assumes "places s" and "\<not> place_ok (thd s t) PNone"
  obtains p where "place_ok (thd s t) p" and "t \<in> set (queue_of s p)" and "p \<noteq> PNone"
proof -
  obtain L where L: "\<forall>t. place_ok (thd s t) (L t)" "linked L (queue_of s)"
    using assms(1) by (auto simp: places_def)
  then have "L t \<noteq> PNone" using assms(2) by metis
  then show thesis using that [of "L t"] L by (auto simp: linked_def)
qed

text \<open>
  The one rule for every move of a thread \<open>t\<close>: it leaves the queue it was in and joins
  the queue \<open>p'\<close> of its new state.
\<close>

lemma places_move:
  assumes P: "places s"
    and oth: "\<And>x. x \<noteq> t \<Longrightarrow> p_state (thd s' x) = p_state (thd s x) \<and> p_u (thd s' x) = p_u (thd s x)"
    and dst: "place_ok (thd s' t) p'"
    and q: "\<And>r. distinct (queue_of s' r) \<and>
      set (queue_of s' r) - {t} = set (queue_of s r) - {t} \<and>
      (t \<in> set (queue_of s' r) \<longleftrightarrow> r = p' \<and> r \<noteq> PNone)"
  shows "places s'"
proof -
  obtain L where L: "\<And>t. place_ok (thd s t) (L t)" "linked L (queue_of s)"
    using P by (auto simp: places_def)
  have "place_ok (thd s' x) ((L(t := p')) x)" for x
    using oth [of x] dst L(1) [of x] place_ok_cong [of "thd s' x" "thd s x" "L x"] by auto
  moreover have "linked (L(t := p')) (queue_of s')"
    unfolding linked_def
  proof (intro allI impI)
    fix r assume r: "r \<noteq> PNone"
    have "x \<in> set (queue_of s' r) \<longleftrightarrow> (L(t := p')) x = r" for x
    proof (cases "x = t")
      case False
      then have "x \<in> set (queue_of s' r) \<longleftrightarrow> x \<in> set (queue_of s r)" using q [of r] by blast
      then show ?thesis using L(2) r False by (simp add: linked_def)
    qed (use q [of r] r in auto)
    then show "distinct (queue_of s' r) \<and> (\<forall>x. x \<in> set (queue_of s' r) \<longleftrightarrow> (L(t := p')) x = r)"
      using q [of r] by simp
  qed
  ultimately show ?thesis unfolding places_def by blast
qed

section \<open>The kernel invariant\<close>

text \<open>The queues kept in priority order.\<close>

fun prio_queue :: "place \<Rightarrow> bool" where
  "prio_queue PReady = True"
| "prio_queue (PMtx a) = True"
| "prio_queue (PCond a) = True"
| "prio_queue p = False"

definition ordered :: "kstate \<Rightarrow> bool" where
  "ordered s \<longleftrightarrow> (\<forall>p. prio_queue p \<longrightarrow> desc (prio s) (queue_of s p))"

definition live :: "kstate \<Rightarrow> bool" where
  "live s \<longleftrightarrow>
     (\<forall>t. state_of s t \<noteq> THD_STATE_FINAL \<longrightarrow>
        0 < prio s t \<and> 0 < p_realprio (thd s t) \<and> t \<noteq> NULL \<and> t mod 8 = 0) \<and>
     (\<forall>t. state_of s t = THD_STATE_FINAL \<longrightarrow>
        p_waiting (thd s t) = [] \<and> p_mtxlist (thd s t) = [])"

text \<open>A semaphore counter below zero counts the waiting threads.\<close>

definition sems_ok :: "kstate \<Rightarrow> bool" where
  "sems_ok s \<longleftrightarrow>
     (\<forall>a. int (length (s_queue (sem s a))) = max 0 (- sint (s_cnt (sem s a))))"

text \<open>The lists of owned mutexes and the owner fields agree; who waits, waits for an owner.\<close>

definition owners_ok :: "kstate \<Rightarrow> bool" where
  "owners_ok s \<longleftrightarrow>
     (\<forall>t m. m \<in> set (p_mtxlist (thd s t)) \<longleftrightarrow> m_owner (mtx s m) = t \<and> t \<noteq> NULL) \<and>
     (\<forall>t. distinct (p_mtxlist (thd s t))) \<and>
     (\<forall>m. m_queue (mtx s m) \<noteq> [] \<longrightarrow> m_owner (mtx s m) \<noteq> NULL)"

text \<open>
  Priority inheritance: a thread's priority is the highest among its own and those of the
  threads that wait for a mutex it owns.
\<close>

definition inherits :: "kstate \<Rightarrow> addr \<Rightarrow> bool" where
  "inherits s t \<longleftrightarrow>
     p_realprio (thd s t) \<le> prio s t \<and>
     (\<forall>m\<in>set (p_mtxlist (thd s t)). \<forall>w\<in>set (m_queue (mtx s m)). prio s w \<le> prio s t) \<and>
     (prio s t = p_realprio (thd s t) \<or>
      (\<exists>m\<in>set (p_mtxlist (thd s t)). \<exists>w\<in>set (m_queue (mtx s m)). prio s w = prio s t))"

definition inheritance :: "kstate \<Rightarrow> bool" where
  "inheritance s \<longleftrightarrow> (\<forall>t. state_of s t \<noteq> THD_STATE_FINAL \<longrightarrow> inherits s t)"

text \<open>The states in which a thread may sleep with a timeout.\<close>

definition timed :: "tstate \<Rightarrow> bool" where
  "timed st \<longleftrightarrow> st \<in> {THD_STATE_WTSEM, THD_STATE_WTQUEUE, THD_STATE_WTCOND, THD_STATE_SLEEPING,
     THD_STATE_WTOREVT, THD_STATE_WTANDEVT, THD_STATE_SUSPENDED}"

definition runnable :: "tstate \<Rightarrow> bool" where
  [simp]: "runnable st \<longleftrightarrow> st = THD_STATE_READY \<or> st = THD_STATE_CURRENT"

definition timers_ok :: "kstate \<Rightarrow> bool" where
  "timers_ok s \<longleftrightarrow> vt_wf s \<and>
     (\<forall>v. vt_func (vts s v) = Some Wakeup \<longleftrightarrow>
        (\<exists>t. v = OnStack t) \<and> chVTIsArmedI v s) \<and>
     (\<forall>t. chVTIsArmedI (OnStack t) s \<longrightarrow> vt_par (vts s (OnStack t)) = t \<and>
        (timed (state_of s t) \<or> runnable (state_of s t)))"

text \<open>
  \<open>kinv0\<close> holds also while no thread is current, between putting the running thread to
  sleep and choosing the next one.
\<close>

definition kinv0 :: "kstate \<Rightarrow> bool" where
  "kinv0 s \<longleftrightarrow> places s \<and> ordered s \<and> live s \<and> sems_ok s \<and> owners_ok s \<and> inheritance s \<and>
     timers_ok s"

definition cur_ok :: "kstate \<Rightarrow> bool" where
  "cur_ok s \<longleftrightarrow> (\<forall>t. state_of s t = THD_STATE_CURRENT \<longleftrightarrow> t = currp s)"

definition idle_ok :: "kstate \<Rightarrow> bool" where
  "idle_ok s \<longleftrightarrow> runnable (state_of s (idle_thread s))"

text \<open>Between two ticks no timer is due.\<close>

definition kinv :: "kstate \<Rightarrow> bool" where
  "kinv s \<longleftrightarrow> kinv0 s \<and> cur_ok s \<and> idle_ok s \<and> vt_pos s"

text \<open>The running thread has the highest priority among those that can run.\<close>

definition prio_ok :: "kstate \<Rightarrow> bool" where
  "prio_ok s \<longleftrightarrow> (\<forall>t\<in>set (r_queue s). prio s t \<le> prio s (currp s))"

text \<open>What holds whenever the kernel is not locked.\<close>

definition kinvU :: "kstate \<Rightarrow> bool" where
  "kinvU s \<longleftrightarrow> kinv s \<and> prio_ok s \<and> \<not> chVTIsArmedI (OnStack (currp s)) s"

section \<open>What other threads may do to a waiting thread\<close>

text \<open>
  A thread that waits for a mutex goes on waiting or gets it; a thread that does not run
  acquires and releases no mutex by itself.
\<close>

definition mtx_rely :: "Thread \<Rightarrow> Thread \<Rightarrow> bool" where
  "mtx_rely th th' \<longleftrightarrow>
     (if p_state th = THD_STATE_WTMTX
      then (p_state th' = THD_STATE_WTMTX \<and> p_u th' = p_u th \<and> p_mtxlist th' = p_mtxlist th) \<or>
           (runnable (p_state th') \<and>
              p_mtxlist th' = p_u th # p_mtxlist th)
      else p_state th' \<noteq> THD_STATE_WTMTX \<and> p_mtxlist th' = p_mtxlist th)"

text \<open>
  Messages join the queue at its end; a thread that waits for messages is not made ready
  before there is one.
\<close>

definition msg_rely :: "Thread \<Rightarrow> Thread \<Rightarrow> bool" where
  "msg_rely th th' \<longleftrightarrow>
     (\<exists>ys. p_msgqueue th' = p_msgqueue th @ ys) \<and>
     (p_state th = THD_STATE_WTMSG \<longrightarrow> p_state th' = THD_STATE_WTMSG \<or> p_msgqueue th' \<noteq> []) \<and>
     (p_state th \<noteq> THD_STATE_WTMSG \<longrightarrow> p_state th' \<noteq> THD_STATE_WTMSG)"

text \<open>A thread that can run stays so, keeps its own priority, and is not ended by others.\<close>

definition run_rely :: "Thread \<Rightarrow> Thread \<Rightarrow> bool" where
  "run_rely th th' \<longleftrightarrow>
     p_state th' \<noteq> THD_STATE_FINAL \<and> p_realprio th' = p_realprio th \<and>
     (runnable (p_state th) \<longrightarrow>
        runnable (p_state th'))"

text \<open>
  A thread that waits on a semaphore, a condition variable or an I/O queue is woken with
  one of the three wakeup messages, with the timeout message only if its timer was armed;
  the message stays until the thread runs.
\<close>

definition wait_rely :: "bool \<Rightarrow> Thread \<Rightarrow> Thread \<Rightarrow> bool" where
  "wait_rely armed th th' \<longleftrightarrow>
     (runnable (p_state th) \<longrightarrow> p_u th' = p_u th) \<and>
     (p_state th \<in> {THD_STATE_WTSEM, THD_STATE_WTCOND, THD_STATE_WTQUEUE} \<longrightarrow>
        (p_state th' = p_state th \<and> p_u th' = p_u th) \<or>
        (runnable (p_state th') \<and>
           (p_u th' = RDY_OK \<or> p_u th' = RDY_RESET \<or> armed \<and> p_u th' = RDY_TIMEOUT)))"

text \<open>
  Events are only added to a thread that does not run.  A thread that waits for events is
  woken with \<open>RDY_OK\<close> once enough of them are pending, or by its timer.
\<close>

definition evt_ready :: "tstate \<Rightarrow> eventmask_t \<Rightarrow> eventmask_t \<Rightarrow> bool" where
  "evt_ready st wanted pending \<longleftrightarrow>
     (st = THD_STATE_WTOREVT \<and> pending AND wanted \<noteq> 0) \<or>
     (st = THD_STATE_WTANDEVT \<and> pending AND wanted = wanted)"

definition evt_rely :: "bool \<Rightarrow> Thread \<Rightarrow> Thread \<Rightarrow> bool" where
  "evt_rely armed th th' \<longleftrightarrow>
     p_epending th AND p_epending th' = p_epending th \<and>
     (p_state th \<in> {THD_STATE_WTOREVT, THD_STATE_WTANDEVT} \<longrightarrow>
        (p_state th' = p_state th \<and> p_u th' = p_u th) \<or>
        (runnable (p_state th') \<and>
           (p_u th' = RDY_OK \<and> evt_ready (p_state th) (p_u th) (p_epending th') \<or>
            armed \<and> p_u th' = RDY_TIMEOUT)))"

definition rely :: "addr \<Rightarrow> kstate \<Rightarrow> kstate \<Rightarrow> bool" where
  "rely t s s' \<longleftrightarrow> (state_of s t \<noteq> THD_STATE_FINAL \<longrightarrow>
     run_rely (thd s t) (thd s' t) \<and> mtx_rely (thd s t) (thd s' t) \<and> msg_rely (thd s t) (thd s' t) \<and>
     wait_rely (chVTIsArmedI (OnStack t) s) (thd s t) (thd s' t) \<and>
     evt_rely (chVTIsArmedI (OnStack t) s) (thd s t) (thd s' t) \<and>
     (chVTIsArmedI (OnStack t) s' \<longrightarrow> chVTIsArmedI (OnStack t) s) \<and>
     idle_thread s' = idle_thread s)"

definition guar :: "addr \<Rightarrow> kstate \<Rightarrow> kstate \<Rightarrow> bool" where
  "guar me s s' \<longleftrightarrow> (\<forall>t. t \<noteq> me \<longrightarrow> rely t s s')"

lemma mtx_rely_refl [simp]: "mtx_rely th th"
  by (simp add: mtx_rely_def)

lemma msg_rely_refl [simp]: "msg_rely th th"
  by (simp add: msg_rely_def)

lemma run_rely_refl [simp]: "run_rely th th \<longleftrightarrow> p_state th \<noteq> THD_STATE_FINAL"
  by (auto simp: run_rely_def)

lemma mtx_rely_trans: "mtx_rely a b \<Longrightarrow> mtx_rely b c \<Longrightarrow> run_rely b c \<Longrightarrow> mtx_rely a c"
  unfolding mtx_rely_def run_rely_def
  by (cases "p_state a = THD_STATE_WTMTX"; cases "p_state b = THD_STATE_WTMTX") auto

lemma msg_rely_trans: "msg_rely a b \<Longrightarrow> msg_rely b c \<Longrightarrow> msg_rely a c"
  unfolding msg_rely_def
  by (cases "p_state a = THD_STATE_WTMSG"; cases "p_state b = THD_STATE_WTMSG") auto

lemma wait_rely_refl [simp]: "wait_rely b th th"
  by (simp add: wait_rely_def)

lemma wait_rely_trans:
  "wait_rely x a b \<Longrightarrow> wait_rely y b c \<Longrightarrow> run_rely a b \<Longrightarrow> run_rely b c \<Longrightarrow> (y \<Longrightarrow> x) \<Longrightarrow>
     wait_rely x a c"
  unfolding wait_rely_def run_rely_def
  by (cases "p_state a"; cases "p_state b") (auto split: if_splits)

lemma evt_rely_refl [simp]: "evt_rely b th th"
  by (simp add: evt_rely_def)

lemma and_mono_bits:
  fixes a b m :: eventmask_t
  assumes "a AND b = a" shows "a AND m \<noteq> 0 \<Longrightarrow> b AND m \<noteq> 0" and "a AND m = m \<Longrightarrow> b AND m = m"
proof -
  have "a AND m = (a AND b) AND m" using assms by simp
  also have "\<dots> = a AND (b AND m)" by (simp add: and.assoc)
  finally have e: "a AND m = a AND (b AND m)" .
  then show "a AND m \<noteq> 0 \<Longrightarrow> b AND m \<noteq> 0" by auto
  assume "a AND m = m"
  then have "b AND m = b AND (a AND m)" by simp
  also have "\<dots> = (a AND b) AND m" by (simp add: ac_simps)
  finally show "b AND m = m" using assms \<open>a AND m = m\<close> by simp
qed

lemma evt_rely_trans:
  assumes ab: "evt_rely x a b" and bc: "evt_rely y b c" and w: "wait_rely y b c"
    and r: "run_rely b c" and yx: "y \<Longrightarrow> x"
  shows "evt_rely x a c"
proof -
  have m: "p_epending a AND p_epending b = p_epending a" "p_epending b AND p_epending c = p_epending b"
    using ab bc by (simp_all add: evt_rely_def)
  then have mono: "p_epending a AND p_epending c = p_epending a" by (metis and.assoc)
  show ?thesis
  proof (cases "p_state a \<in> {THD_STATE_WTOREVT, THD_STATE_WTANDEVT}")
    case False
    then show ?thesis using mono by (simp add: evt_rely_def)
  next
    case st: True
    show ?thesis
    proof (cases "p_state b = p_state a \<and> p_u b = p_u a")
      case True
      then show ?thesis using bc st yx mono unfolding evt_rely_def by metis
    next
      case False
      then have b: "runnable (p_state b)" "p_u b = RDY_OK \<and> evt_ready (p_state a) (p_u a) (p_epending b) \<or>
          x \<and> p_u b = RDY_TIMEOUT"
        using ab st unfolding evt_rely_def by blast+
      then have "runnable (p_state c)" "p_u c = p_u b" using r w by (simp_all add: run_rely_def wait_rely_def)
      moreover have "evt_ready (p_state a) (p_u a) (p_epending b) \<Longrightarrow> evt_ready (p_state a) (p_u a) (p_epending c)"
        using and_mono_bits [OF m(2), of "p_u a"] unfolding evt_ready_def by blast
      ultimately show ?thesis using b(2) mono unfolding evt_rely_def by metis
    qed
  qed
qed

lemma run_rely_trans: "run_rely a b \<Longrightarrow> run_rely b c \<Longrightarrow> run_rely a c"
  unfolding run_rely_def by (simp del: runnable_def)

lemma rely_refl [simp]: "rely t s s"
  by (simp add: rely_def)

lemma rely_trans:
  assumes "rely t s s'" and "rely t s' s''" shows "rely t s s''"
proof -
  have "state_of s' t \<noteq> THD_STATE_FINAL" if "state_of s t \<noteq> THD_STATE_FINAL"
    using assms(1) that by (simp add: rely_def run_rely_def)
  then show ?thesis
    using assms mtx_rely_trans [of "thd s t" "thd s' t" "thd s'' t"]
      msg_rely_trans [of "thd s t" "thd s' t" "thd s'' t"]
      wait_rely_trans [of "chVTIsArmedI (OnStack t) s" "thd s t" "thd s' t" "chVTIsArmedI (OnStack t) s'" "thd s'' t"]
      evt_rely_trans [of "chVTIsArmedI (OnStack t) s" "thd s t" "thd s' t" "chVTIsArmedI (OnStack t) s'" "thd s'' t"]
      run_rely_trans [of "thd s t" "thd s' t" "thd s'' t"]
    unfolding rely_def by simp
qed

lemma guar_refl [simp]: "guar me s s"
  by (simp add: guar_def)

lemma guar_trans: "guar me s s' \<Longrightarrow> guar me s' s'' \<Longrightarrow> guar me s s''"
  unfolding guar_def by (meson rely_trans)

section \<open>Elementary changes\<close>

lemma vt_pos_hd: "vt_pos s \<longleftrightarrow> (vtlist s \<noteq> [] \<longrightarrow> vt_time (vts s (hd (vtlist s))) \<noteq> 0)"
  by (cases "vtlist s") (simp_all add: vt_pos_def)

lemma inheritance_frame:
  assumes "inheritance s"
    and keep: "\<And>x. p_prio (thd s' x) = p_prio (thd s x) \<and>
      p_realprio (thd s' x) = p_realprio (thd s x) \<and> p_mtxlist (thd s' x) = p_mtxlist (thd s x)"
    and "\<And>m. set (m_queue (mtx s' m)) = set (m_queue (mtx s m))"
    and fin: "\<And>x. state_of s' x \<noteq> THD_STATE_FINAL \<Longrightarrow> state_of s x \<noteq> THD_STATE_FINAL"
  shows "inheritance s'"
  unfolding inheritance_def
proof (intro allI impI)
  fix x assume "state_of s' x \<noteq> THD_STATE_FINAL"
  then have "inherits s x" using assms(1) fin by (simp add: inheritance_def)
  then show "inherits s' x" using assms(2,3) by (simp add: inherits_def)
qed

lemma kinv0_move:
  assumes K: "kinv0 s"
    and oth: "\<And>x. x \<noteq> t \<Longrightarrow> p_state (thd s' x) = p_state (thd s x) \<and> p_u (thd s' x) = p_u (thd s x)"
    and keep: "\<And>x. p_prio (thd s' x) = p_prio (thd s x) \<and>
      p_realprio (thd s' x) = p_realprio (thd s x) \<and> p_mtxlist (thd s' x) = p_mtxlist (thd s x)"
    and fin: "\<And>x. state_of s' x = THD_STATE_FINAL \<Longrightarrow> p_waiting (thd s' x) = []"
    and alive: "state_of s t \<noteq> THD_STATE_FINAL"
      "state_of s' t = THD_STATE_FINAL \<Longrightarrow> p_mtxlist (thd s t) = []"
    and dst: "place_ok (thd s' t) p'"
    and q: "\<And>r. distinct (queue_of s' r) \<and>
      set (queue_of s' r) - {t} = set (queue_of s r) - {t} \<and>
      (t \<in> set (queue_of s' r) \<longleftrightarrow> r = p' \<and> r \<noteq> PNone)"
    and ord: "\<And>p. prio_queue p \<Longrightarrow> desc (prio s) (queue_of s' p)"
    and mq: "\<And>m. m_owner (mtx s' m) = m_owner (mtx s m) \<and>
      set (m_queue (mtx s' m)) = set (m_queue (mtx s m))"
    and sem: "sems_ok s'" and tim: "timers_ok s'"
  shows "kinv0 s'"
proof -
  have pr: "prio s' = prio s" using keep by auto
  have "places s'" using K places_move [of s t s' p'] oth dst q by (simp add: kinv0_def)
  moreover have "ordered s'" using ord pr by (simp add: ordered_def)
  moreover have "live s'" unfolding live_def
  proof (intro conjI allI impI)
    fix x
    have L: "live s" using K by (simp add: kinv0_def)
    show "p_waiting (thd s' x) = []" if "state_of s' x = THD_STATE_FINAL" using fin that by simp
    show "p_mtxlist (thd s' x) = []" if "state_of s' x = THD_STATE_FINAL"
      using that keep oth alive L by (cases "x = t") (auto simp: live_def)
    assume f: "state_of s' x \<noteq> THD_STATE_FINAL"
    then have "state_of s x \<noteq> THD_STATE_FINAL" using oth alive by (cases "x = t") auto
    then show "0 < prio s' x" "0 < p_realprio (thd s' x)" "x \<noteq> NULL" "x mod 8 = 0"
      using L keep by (auto simp: live_def)
  qed
  moreover have "owners_ok s'"
  proof -
    have "(m_queue (mtx s' m) = []) = (m_queue (mtx s m) = [])" for m
      using mq [of m] by (metis set_empty)
    then show ?thesis using K keep mq by (simp add: kinv0_def owners_ok_def)
  qed
  moreover have "inheritance s'"
    by (rule inheritance_frame [of s]) (use K keep mq oth alive in \<open>auto simp: kinv0_def, metis+\<close>)
  ultimately show ?thesis using sem tim by (simp add: kinv0_def)
qed

text \<open>
  \<open>detached t s s'\<close>: \<open>t\<close> has been taken out of the queue it was in, and nothing else that
  the invariant is about has changed except semaphore counters and the wait object of \<open>t\<close>.
\<close>

definition detached :: "addr \<Rightarrow> kstate \<Rightarrow> kstate \<Rightarrow> bool" where
  "detached t s s' \<longleftrightarrow>
     (\<forall>r. queue_of s' r = remove1 t (queue_of s r)) \<and>
     (\<forall>x. p_state (thd s' x) = p_state (thd s x) \<and> p_prio (thd s' x) = p_prio (thd s x) \<and>
        p_realprio (thd s' x) = p_realprio (thd s x) \<and> p_mtxlist (thd s' x) = p_mtxlist (thd s x) \<and>
        p_epending (thd s x) AND p_epending (thd s' x) = p_epending (thd s x) \<and>
        (x \<noteq> t \<longrightarrow> p_u (thd s' x) = p_u (thd s x))) \<and>
     (\<forall>m. m_owner (mtx s' m) = m_owner (mtx s m)) \<and>
     vts s' = vts s \<and> vtlist s' = vtlist s \<and> currp s' = currp s \<and> idle_thread s' = idle_thread s"

lemma detached_queue:
  assumes "places s" and "detached t s s'"
  shows "distinct (queue_of s' r)" "set (queue_of s' r) = set (queue_of s r) - {t}"
  using assms places_distinct [of s r] by (simp_all add: detached_def distinct_remove1)

lemma ready_queue [simp]:
  "queue_of (chSchReadyI t s) r =
     (if r = PReady then ins_behind (prio s) t (r_queue s) else queue_of s r)"
proof -
  have "ins_behind (\<lambda>a. p_prio (((thd s)(t := (thd s t)\<lparr>p_state := THD_STATE_READY\<rparr>)) a)) t (r_queue s) =
      ins_behind (prio s) t (r_queue s)"
    by (rule ins_cong) auto
  then show ?thesis by (cases r) (auto simp: chSchReadyI_def Let_def)
qed

lemma ready_fields [simp]:
  "thd (chSchReadyI t s) = (thd s)(t := (thd s t)\<lparr>p_state := THD_STATE_READY\<rparr>)"
  "sem (chSchReadyI t s) = sem s" "mtx (chSchReadyI t s) = mtx s"
  "cond (chSchReadyI t s) = cond s" "ioq (chSchReadyI t s) = ioq s"
  "vts (chSchReadyI t s) = vts s" "vtlist (chSchReadyI t s) = vtlist s"
  "vt_systime (chSchReadyI t s) = vt_systime s"
  "currp (chSchReadyI t s) = currp s" "idle_thread (chSchReadyI t s) = idle_thread s"
  "rlist (chSchReadyI t s) = rlist s" "registry (chSchReadyI t s) = registry s"
  "el_next (chSchReadyI t s) = el_next s" "evl (chSchReadyI t s) = evl s" "mbx (chSchReadyI t s) = mbx s"
  "mem8 (chSchReadyI t s) = mem8 s" "mem32 (chSchReadyI t s) = mem32 s"
  by (simp_all add: chSchReadyI_def Let_def)

lemma ready_r_queue [simp]: "r_queue (chSchReadyI t s) = ins_behind (prio s) t (r_queue s)"
  using ready_queue [of t s PReady] by simp

lemma timers_ok_frame:
  assumes "timers_ok s" and "vts s' = vts s" and "vtlist s' = vtlist s"
    and "\<And>t. chVTIsArmedI (OnStack t) s \<Longrightarrow> state_of s' t = state_of s t \<or>
      timed (state_of s' t) \<or> runnable (state_of s' t)"
  shows "timers_ok s'"
proof -
  have "vt_wf s'" "chVTIsArmedI v s' = chVTIsArmedI v s" for v
    using assms(1-3) by (auto simp: timers_ok_def vt_wf_def chVTIsArmedI_def)
  then show ?thesis
    using assms unfolding timers_ok_def by metis
qed

lemma detached_prio_queue:
  assumes "kinv0 s" and "detached t s s'" and "prio_queue p"
  shows "desc (prio s) (queue_of s' p)"
  using assms by (simp add: kinv0_def ordered_def detached_def desc_remove1)

lemma detached_mtx:
  assumes K: "kinv0 s" and d: "detached t s s'" and st: "state_of s t \<noteq> THD_STATE_WTMTX"
  shows "set (m_queue (mtx s' m)) = set (m_queue (mtx s m))"
proof -
  have P: "places s" using K by (simp add: kinv0_def)
  have "t \<notin> set (queue_of s (PMtx m))"
    using places_at [OF P, of t "PMtx m"] st by (auto simp: place_ok_def split: tstate.splits)
  then show ?thesis using detached_queue(2) [OF P d, of "PMtx m"] by simp
qed

lemma detached_final:
  assumes "kinv0 s" and "detached t s s'" and "state_of s x = THD_STATE_FINAL"
  shows "p_waiting (thd s' x) = []"
proof -
  have "p_waiting (thd s' x) = remove1 t (p_waiting (thd s x))"
    using assms(2) by (metis detached_def queue_of.simps(8))
  then show ?thesis using assms by (simp add: kinv0_def live_def)
qed

definition make_current :: "addr \<Rightarrow> kstate \<Rightarrow> kstate" where
  "make_current t s = upd_thd t (\<lambda>x. x\<lparr>p_state := THD_STATE_CURRENT\<rparr>) (s\<lparr>currp := t\<rparr>)"

lemma make_current_queue [simp]: "queue_of (make_current t s) r = queue_of s r"
  by (cases r) (auto simp: make_current_def)

lemma make_current_fields [simp]:
  "thd (make_current t s) = (thd s)(t := (thd s t)\<lparr>p_state := THD_STATE_CURRENT\<rparr>)"
  "sem (make_current t s) = sem s" "mtx (make_current t s) = mtx s"
  "vts (make_current t s) = vts s" "vtlist (make_current t s) = vtlist s"
  "r_queue (make_current t s) = r_queue s"
  "currp (make_current t s) = t" "idle_thread (make_current t s) = idle_thread s"
  by (simp_all add: make_current_def)

text \<open>
  \<open>limbo t s\<close>: all is well except that thread \<open>t\<close>, taken from its queue, is in none
  whatever its state says.
\<close>

definition unplaced :: "addr \<Rightarrow> kstate \<Rightarrow> bool" where
  "unplaced t s \<longleftrightarrow>
     (\<exists>L. L t = PNone \<and> (\<forall>x. x \<noteq> t \<longrightarrow> place_ok (thd s x) (L x)) \<and> linked L (queue_of s))"

definition limbo :: "addr \<Rightarrow> kstate \<Rightarrow> bool" where
  "limbo t s \<longleftrightarrow> unplaced t s \<and> ordered s \<and> live s \<and> sems_ok s \<and> owners_ok s \<and> inheritance s \<and>
     timers_ok s"

lemma unplaced_notin: "unplaced t s \<Longrightarrow> t \<notin> set (queue_of s r)"
  by (cases "r = PNone") (auto simp: unplaced_def linked_def)

lemma unplaced_put:
  assumes "unplaced t s"
    and oth: "\<And>x. x \<noteq> t \<Longrightarrow> p_state (thd s' x) = p_state (thd s x) \<and> p_u (thd s' x) = p_u (thd s x)"
    and dst: "place_ok (thd s' t) p"
    and q: "\<And>r. r \<noteq> p \<Longrightarrow> queue_of s' r = queue_of s r"
    and p: "p \<noteq> PNone \<Longrightarrow> set (queue_of s' p) = insert t (set (queue_of s p)) \<and> distinct (queue_of s' p)"
  shows "places s'"
proof -
  obtain L where L: "L t = PNone" "\<And>x. x \<noteq> t \<Longrightarrow> place_ok (thd s x) (L x)" "linked L (queue_of s)"
    using assms(1) by (auto simp: unplaced_def)
  have "place_ok (thd s' x) ((L(t := p)) x)" for x
    using oth [of x] dst L(2) [of x] place_ok_cong [of "thd s' x" "thd s x" "L x"] by auto
  moreover have "linked (L(t := p)) (queue_of s')"
    using L(1,3) p q unfolding linked_def fun_upd_apply by (smt (verit) insert_iff)
  ultimately show ?thesis unfolding places_def by blast
qed

lemma unplaced_take:
  assumes "places s"
    and oth: "\<And>x. x \<noteq> t \<Longrightarrow> p_state (thd s' x) = p_state (thd s x) \<and> p_u (thd s' x) = p_u (thd s x)"
    and q: "\<And>r. distinct (queue_of s' r) \<and> set (queue_of s' r) = set (queue_of s r) - {t}"
  shows "unplaced t s'"
proof -
  obtain L where L: "\<And>x. place_ok (thd s x) (L x)" "linked L (queue_of s)"
    using assms(1) by (auto simp: places_def)
  have "place_ok (thd s' x) ((L(t := PNone)) x)" if "x \<noteq> t" for x
    using oth [OF that] that L(1) [of x] place_ok_cong [of "thd s' x" "thd s x" "L x"] by auto
  moreover have "linked (L(t := PNone)) (queue_of s')"
    using L(2) q by (auto simp: linked_def)
  ultimately show ?thesis
    unfolding unplaced_def by (intro exI [of _ "L(t := PNone)"]) simp
qed

lemma limbo_detached:
  assumes K: "kinv0 s" and d: "detached t s s1" and sm: "sems_ok s1"
    and st: "state_of s t \<noteq> THD_STATE_WTMTX"
  shows "limbo t s1"
proof -
  have P: "places s" using K by (simp add: kinv0_def)
  have pr: "prio s1 = prio s" using d by (auto simp: detached_def)
  have "unplaced t s1"
    by (rule unplaced_take [OF P]) (use detached_queue [OF P d] d in \<open>simp_all add: detached_def\<close>)
  moreover have "ordered s1" using detached_prio_queue [OF K d] pr by (simp add: ordered_def)
  moreover have "live s1"
    using K d detached_final [OF K d] by (simp add: kinv0_def live_def detached_def)
  moreover have mq: "set (m_queue (mtx s1 m)) = set (m_queue (mtx s m))"
      "(m_queue (mtx s1 m) = []) = (m_queue (mtx s m) = [])" for m
    using detached_mtx [OF K d st, of m] by (simp, metis set_empty)
  have "owners_ok s1" using K d mq by (simp add: kinv0_def owners_ok_def detached_def)
  moreover have "inheritance s1"
    using K d mq by (simp add: kinv0_def inheritance_def inherits_def detached_def)
  moreover have "timers_ok s1"
    by (rule timers_ok_frame [of s]) (use K d in \<open>simp_all add: kinv0_def detached_def\<close>)
  ultimately show ?thesis using sm by (simp add: limbo_def)
qed

text \<open>A thread that is not queued, the running one in particular, is in limbo.\<close>

lemma limbo_unqueued:
  assumes K: "kinv0 s" and st: "place_ok (thd s t) PNone"
  shows "limbo t s"
proof -
  have P: "places s" using K by (simp add: kinv0_def)
  have "unplaced t s"
    by (rule unplaced_take [OF P]) (use places_unqueued [OF P st] places_distinct [OF P] in auto)
  then show ?thesis using K by (simp add: limbo_def kinv0_def)
qed

text \<open>
  What a function may set in the record of a thread in limbo: the wait object, the message,
  the preemption counter, its state.
\<close>

lemma limbo_frame:
  assumes L: "limbo t s"
    and q: "\<And>r. queue_of s' r = queue_of s r"
    and oth: "\<And>x. x \<noteq> t \<Longrightarrow> p_state (thd s' x) = p_state (thd s x) \<and> p_u (thd s' x) = p_u (thd s x)"
    and keep: "\<And>x. p_prio (thd s' x) = p_prio (thd s x) \<and>
      p_realprio (thd s' x) = p_realprio (thd s x) \<and> p_mtxlist (thd s' x) = p_mtxlist (thd s x)"
    and st: "state_of s' t = state_of s t \<or> (state_of s t \<noteq> THD_STATE_FINAL \<and> state_of s' t \<noteq> THD_STATE_FINAL)"
    and sm: "\<And>a. s_cnt (sem s' a) = s_cnt (sem s a)" and own: "\<And>m. m_owner (mtx s' m) = m_owner (mtx s m)"
    and vt: "vts s' = vts s" "vtlist s' = vtlist s"
      "chVTIsArmedI (OnStack t) s \<Longrightarrow> state_of s' t = state_of s t \<or> timed (state_of s' t) \<or> runnable (state_of s' t)"
  shows "limbo t s'"
proof -
  have pr: "prio s' = prio s" using keep by auto
  have mq: "m_queue (mtx s' m) = m_queue (mtx s m)" "s_queue (sem s' a) = s_queue (sem s a)"
      "p_waiting (thd s' x) = p_waiting (thd s x)" for m a x
    using q [of "PMtx m"] q [of "PSem a"] q [of "PExit x"] by simp_all
  have fin: "(state_of s' x = THD_STATE_FINAL) = (state_of s x = THD_STATE_FINAL)" for x
    using oth [of x] st by (cases "x = t") auto
  obtain L where "L t = PNone" "\<And>x. x \<noteq> t \<Longrightarrow> place_ok (thd s x) (L x)" "linked L (queue_of s)"
    using L by (auto simp: limbo_def unplaced_def)
  then have "unplaced t s'" unfolding unplaced_def
    by (intro exI [of _ L]) (auto simp: linked_def q place_ok_cong [OF conjunct1 [OF oth] conjunct2 [OF oth]])
  moreover have "ordered s'" "live s'" "sems_ok s'" "owners_ok s'" "inheritance s'"
    using L keep pr q mq fin sm own
    by (simp_all add: limbo_def ordered_def live_def sems_ok_def owners_ok_def inheritance_def inherits_def)
  moreover have "timers_ok s'"
  proof (rule timers_ok_frame [of s])
    show "state_of s' x = state_of s x \<or> timed (state_of s' x) \<or> runnable (state_of s' x)"
      if "chVTIsArmedI (OnStack x) s" for x
      using vt(3) oth [of x] that by (cases "x = t") auto
  qed (use L vt in \<open>simp_all add: limbo_def\<close>)
  ultimately show ?thesis by (simp add: limbo_def)
qed

text \<open>A thread in limbo is made ready, or made the current one at once.\<close>

definition ready_at :: "addr list \<Rightarrow> addr \<Rightarrow> kstate \<Rightarrow> kstate" where
  "ready_at q t s = (upd_thd t (\<lambda>x. x\<lparr>p_state := THD_STATE_READY\<rparr>) s)\<lparr>r_queue := q\<rparr>"

lemma chSchReadyI_at: "chSchReadyI t s = ready_at (ins_behind (prio s) t (r_queue s)) t s"
  using ready_r_queue [of t s] by (simp add: chSchReadyI_def ready_at_def Let_def)

lemma ready_at_queue [simp]: "queue_of (ready_at q t s) r = (if r = PReady then q else queue_of s r)"
  by (cases r) (auto simp: ready_at_def)

lemma ready_at_fields [simp]:
  "thd (ready_at q t s) = (thd s)(t := (thd s t)\<lparr>p_state := THD_STATE_READY\<rparr>)"
  "sem (ready_at q t s) = sem s" "mtx (ready_at q t s) = mtx s"
  "vts (ready_at q t s) = vts s" "vtlist (ready_at q t s) = vtlist s"
  "r_queue (ready_at q t s) = q"
  "currp (ready_at q t s) = currp s" "idle_thread (ready_at q t s) = idle_thread s"
  by (simp_all add: ready_at_def)

lemma kinv0_ready_at:
  assumes L: "limbo t s" and st: "state_of s t \<noteq> THD_STATE_FINAL"
    and q: "distinct q" "set q = insert t (set (r_queue s))" "desc (prio s) q"
  shows "kinv0 (ready_at q t s)"
proof -
  have U: "unplaced t s" using L by (simp add: limbo_def)
  have "places (ready_at q t s)"
    by (rule unplaced_put [OF U, where p = PReady]) (use q in \<open>auto simp: place_ok_def\<close>)
  moreover have "ordered (ready_at q t s)"
  proof -
    have "prio (ready_at q t s) = prio s" by auto
    then show ?thesis using L q(3) by (simp add: ordered_def limbo_def)
  qed
  moreover have "live (ready_at q t s)" "sems_ok (ready_at q t s)" "owners_ok (ready_at q t s)"
    using L st by (auto simp: limbo_def live_def sems_ok_def owners_ok_def)
  moreover have "inheritance (ready_at q t s)"
    by (rule inheritance_frame [of s]) (use L st in \<open>auto simp: limbo_def split: if_splits\<close>)
  moreover have "timers_ok (ready_at q t s)"
    by (rule timers_ok_frame [of s]) (use L in \<open>auto simp: limbo_def\<close>)
  ultimately show ?thesis by (simp add: kinv0_def)
qed

lemma limbo_ready_queue:
  assumes "limbo t s"
  shows "distinct (r_queue s)" "t \<notin> set (r_queue s)" "desc (prio s) (r_queue s)"
  using assms unplaced_notin [of t s PReady]
  by (auto simp: limbo_def unplaced_def linked_def ordered_def dest: spec [of _ PReady])

lemma kinv0_ready:
  assumes L: "limbo t s" and st: "state_of s t \<noteq> THD_STATE_FINAL"
  shows "kinv0 (chSchReadyI t s)"
  unfolding chSchReadyI_at using limbo_ready_queue [OF L]
  by (intro kinv0_ready_at [OF L st]) (auto intro: desc_ins_behind)

lemma kinv0_run:
  assumes L: "limbo t s" and st: "state_of s t \<noteq> THD_STATE_FINAL"
  shows "kinv0 (make_current t s)"
proof -
  have U: "unplaced t s" using L by (simp add: limbo_def)
  have "places (make_current t s)"
    by (rule unplaced_put [OF U, where p = PNone]) (auto simp: place_ok_def)
  moreover have "ordered (make_current t s)"
  proof -
    have "prio (make_current t s) = prio s" by auto
    then show ?thesis using L by (simp add: ordered_def limbo_def)
  qed
  moreover have "live (make_current t s)" "sems_ok (make_current t s)" "owners_ok (make_current t s)"
    using L st by (auto simp: limbo_def live_def sems_ok_def owners_ok_def)
  moreover have "inheritance (make_current t s)"
    by (rule inheritance_frame [of s]) (use L st in \<open>auto simp: limbo_def split: if_splits\<close>)
  moreover have "timers_ok (make_current t s)"
    by (rule timers_ok_frame [of s]) (use L in \<open>auto simp: limbo_def\<close>)
  ultimately show ?thesis by (simp add: kinv0_def)
qed

lemma pick_next_eq:
  "r_queue s = t # q \<Longrightarrow> pick_next s = make_current t (s\<lparr>r_queue := q\<rparr>)"
  by (simp add: pick_next_def make_current_def)

lemma detached_fifo_ready:
  assumes "places s" and "r_queue s = t # q"
  shows "detached t s (s\<lparr>r_queue := q\<rparr>)"
proof -
  have "queue_of (s\<lparr>r_queue := q\<rparr>) r = remove1 t (queue_of s r)" for r
  proof (cases "r = PReady")
    case False
    then have "t \<notin> set (queue_of s r)" using places_unique [of s t r PReady] assms by auto
    then show ?thesis using False by (cases r) (auto simp: remove1_idem)
  qed (use assms in simp)
  then show ?thesis by (simp add: detached_def)
qed

lemma ready_state: "places s \<Longrightarrow> t \<in> set (r_queue s) \<Longrightarrow> state_of s t = THD_STATE_READY"
  using places_at [of s t PReady] by (auto simp: place_ok_def split: tstate.splits)

text \<open>Choosing the next thread: the first of the ready list, none of higher priority.\<close>

lemma kinv0_pick_next:
  assumes K: "kinv0 s" and ne: "r_queue s \<noteq> []"
  shows "kinv0 (pick_next s)" and "currp (pick_next s) = hd (r_queue s)"
    and "thd (pick_next s) = (thd s)(hd (r_queue s) := (thd s (hd (r_queue s)))\<lparr>p_state := THD_STATE_CURRENT\<rparr>)"
    and "r_queue (pick_next s) = tl (r_queue s)"
    and "prio_ok (pick_next s)"
    and "idle_thread (pick_next s) = idle_thread s" "vts (pick_next s) = vts s"
      "vtlist (pick_next s) = vtlist s"
proof -
  obtain t q where r: "r_queue s = t # q" using ne by (cases "r_queue s") auto
  have P: "places s" and S: "sems_ok s" and O: "ordered s" using K by (simp_all add: kinv0_def)
  have st: "state_of s t = THD_STATE_READY" using ready_state [OF P] r by simp
  show "kinv0 (pick_next s)"
    unfolding pick_next_eq [OF r]
    by (intro kinv0_run limbo_detached [OF K detached_fifo_ready [OF P r]])
      (use S st in \<open>simp_all add: sems_ok_def\<close>)
  have "desc (prio s) (t # q)" using O r unfolding ordered_def by (metis prio_queue.simps(1) queue_of.simps(2))
  then show "prio_ok (pick_next s)" unfolding pick_next_eq [OF r] by (auto simp: prio_ok_def)
qed (use ne in \<open>cases "r_queue s"; simp add: pick_next_def\<close>)+

lemma prio_ok_pick_next_mono: "prio (pick_next s) = prio s"
  by (auto simp: pick_next_def split: prod.split)

text \<open>
  \<open>attached t p s s'\<close>: the running thread \<open>t\<close> has been put into the queue \<open>p\<close> and its
  wait object set, before it gives up the processor.
\<close>

definition attached :: "addr \<Rightarrow> place \<Rightarrow> kstate \<Rightarrow> kstate \<Rightarrow> bool" where
  "attached t p s s' \<longleftrightarrow>
     (\<forall>r. r \<noteq> p \<longrightarrow> queue_of s' r = queue_of s r) \<and>
     (p \<noteq> PNone \<longrightarrow> distinct (queue_of s' p) \<and>
        set (queue_of s' p) = insert t (set (queue_of s p))) \<and>
     (prio_queue p \<longrightarrow> desc (prio s) (queue_of s' p)) \<and>
     (\<forall>x. p_state (thd s' x) = p_state (thd s x) \<and> p_prio (thd s' x) = p_prio (thd s x) \<and>
        p_realprio (thd s' x) = p_realprio (thd s x) \<and> p_mtxlist (thd s' x) = p_mtxlist (thd s x) \<and>
        p_epending (thd s x) AND p_epending (thd s' x) = p_epending (thd s x) \<and>
        (x \<noteq> t \<longrightarrow> p_u (thd s' x) = p_u (thd s x))) \<and>
     (\<forall>m. m_owner (mtx s' m) = m_owner (mtx s m)) \<and>
     currp s' = currp s \<and> idle_thread s' = idle_thread s"

definition sleeping :: "tstate \<Rightarrow> addr \<Rightarrow> kstate \<Rightarrow> kstate" where
  "sleeping ns t s = upd_thd t (\<lambda>x. x\<lparr>p_state := ns, p_preempt := CH_TIME_QUANTUM\<rparr>) s"

lemma sleeping_queue [simp]: "queue_of (sleeping ns t s) r = queue_of s r"
  by (cases r) (auto simp: sleeping_def)

lemma sleeping_fields [simp]:
  "thd (sleeping ns t s) = (thd s)(t := (thd s t)\<lparr>p_state := ns, p_preempt := CH_TIME_QUANTUM\<rparr>)"
  "sem (sleeping ns t s) = sem s" "mtx (sleeping ns t s) = mtx s"
  "vts (sleeping ns t s) = vts s" "vtlist (sleeping ns t s) = vtlist s"
  "r_queue (sleeping ns t s) = r_queue s"
  "currp (sleeping ns t s) = currp s" "idle_thread (sleeping ns t s) = idle_thread s"
  by (simp_all add: sleeping_def)

lemma chSchGoSleepS_eq: "chSchGoSleepS ns s = Switch (pick_next (sleeping ns (currp s) s)) (Done ())"
  by (simp add: chSchGoSleepS_def chSysSwitch_def sleeping_def Let_def)

lemma kinv0_sleep:
  assumes K: "kinv0 s" and a: "attached t p s s1" and st: "state_of s t = THD_STATE_CURRENT"
    and pl: "place_ok (thd (sleeping ns t s1) t) p" and nm: "\<And>m. p \<noteq> PMtx m"
    and fin: "\<And>x. state_of s x = THD_STATE_FINAL \<Longrightarrow> p \<noteq> PExit x"
    and nf: "ns = THD_STATE_FINAL \<Longrightarrow> p_mtxlist (thd s t) = [] \<and> p_waiting (thd s1 t) = []"
    and sm: "sems_ok s1" and tm: "timers_ok (sleeping ns t s1)"
  shows "kinv0 (sleeping ns t s1)"
proof (rule kinv0_move [OF K, where t = t and p' = p])
  have P: "places s" and O: "ordered s" using K by (simp_all add: kinv0_def)
  have un: "t \<notin> set (queue_of s r)" for r
    using places_unqueued [OF P] st by (simp add: place_ok_def)
  show "distinct (queue_of (sleeping ns t s1) r) \<and>
      set (queue_of (sleeping ns t s1) r) - {t} = set (queue_of s r) - {t} \<and>
      (t \<in> set (queue_of (sleeping ns t s1) r) \<longleftrightarrow> r = p \<and> r \<noteq> PNone)" for r
    using a un [of r] places_distinct [OF P, of r]
    by (cases "r = p"; cases "p = PNone") (auto simp: attached_def)
  show "desc (prio s) (queue_of (sleeping ns t s1) r)" if "prio_queue r" for r
    using a that O by (cases "r = p") (auto simp: attached_def ordered_def)
  show "p_waiting (thd (sleeping ns t s1) x) = []"
    if "state_of (sleeping ns t s1) x = THD_STATE_FINAL" for x
  proof (cases "x = t")
    case False
    then have f: "state_of s x = THD_STATE_FINAL" using that a by (simp add: attached_def)
    then have "queue_of s1 (PExit x) = queue_of s (PExit x)" using fin a by (metis attached_def)
    then show ?thesis using K f False by (simp add: kinv0_def live_def)
  qed (use that nf in simp)
  show "m_owner (mtx (sleeping ns t s1) m) = m_owner (mtx s m) \<and>
      set (m_queue (mtx (sleeping ns t s1) m)) = set (m_queue (mtx s m))" for m
  proof -
    have "queue_of s1 (PMtx m) = queue_of s (PMtx m)" using a nm by (metis attached_def)
    then show ?thesis using a by (simp add: attached_def)
  qed
  show "sems_ok (sleeping ns t s1)" using sm by (simp add: sems_ok_def)
qed (use a st pl tm nf in \<open>auto simp: attached_def\<close>)

lemma idle_ready:
  assumes "kinv s" and "currp s \<noteq> idle_thread s"
  shows "r_queue s \<noteq> []"
proof -
  have "state_of s (idle_thread s) = THD_STATE_READY"
    using assms by (auto simp: kinv_def idle_ok_def cur_ok_def)
  then have "\<not> place_ok (thd s (idle_thread s)) PNone" "\<And>p. place_ok (thd s (idle_thread s)) p \<Longrightarrow> p = PReady"
    by (simp_all add: place_ok_def)
  then have "idle_thread s \<in> set (queue_of s PReady)"
    using places_queued [of s "idle_thread s"] assms(1) by (metis kinv_def kinv0_def)
  then show ?thesis by auto
qed

section \<open>Frame rules for the interference\<close>

lemma mtx_rely_cong:
  "p_state th' = p_state th \<Longrightarrow> p_u th' = p_u th \<Longrightarrow> p_mtxlist th' = p_mtxlist th \<Longrightarrow> mtx_rely th th'"
  by (simp add: mtx_rely_def)

lemma rely_frame:
  assumes "state_of s' t = state_of s t" and "p_u (thd s' t) = p_u (thd s t)"
    and "p_mtxlist (thd s' t) = p_mtxlist (thd s t)"
    and "p_realprio (thd s' t) = p_realprio (thd s t)"
    and "\<exists>ys. p_msgqueue (thd s' t) = p_msgqueue (thd s t) @ ys"
    and "p_epending (thd s t) AND p_epending (thd s' t) = p_epending (thd s t)"
    and "chVTIsArmedI (OnStack t) s' \<longrightarrow> chVTIsArmedI (OnStack t) s"
    and "idle_thread s' = idle_thread s"
  shows "rely t s s'"
  using assms by (auto simp: rely_def run_rely_def msg_rely_def wait_rely_def evt_rely_def intro: mtx_rely_cong)

text \<open>A thread that was waiting, for no mutex, or was ready, goes on to run.\<close>

lemma rely_ready:
  assumes "runnable (state_of s' t)" and "state_of s t \<noteq> THD_STATE_WTMTX"
    and "p_mtxlist (thd s' t) = p_mtxlist (thd s t)"
    and "p_realprio (thd s' t) = p_realprio (thd s t)"
    and "\<exists>ys. p_msgqueue (thd s' t) = p_msgqueue (thd s t) @ ys"
    and "state_of s t = THD_STATE_WTMSG \<Longrightarrow> p_msgqueue (thd s' t) \<noteq> []"
    and "runnable (state_of s t) \<Longrightarrow> p_u (thd s' t) = p_u (thd s t)"
    and "state_of s t \<in> {THD_STATE_WTSEM, THD_STATE_WTCOND, THD_STATE_WTQUEUE} \<Longrightarrow>
      p_u (thd s' t) \<in> {RDY_OK, RDY_RESET} \<or> chVTIsArmedI (OnStack t) s \<and> p_u (thd s' t) = RDY_TIMEOUT"
    and "p_epending (thd s t) AND p_epending (thd s' t) = p_epending (thd s t)"
    and "state_of s t \<in> {THD_STATE_WTOREVT, THD_STATE_WTANDEVT} \<Longrightarrow>
      p_u (thd s' t) = RDY_OK \<and> evt_ready (state_of s t) (p_u (thd s t)) (p_epending (thd s' t)) \<or>
      chVTIsArmedI (OnStack t) s \<and> p_u (thd s' t) = RDY_TIMEOUT"
    and "chVTIsArmedI (OnStack t) s' \<longrightarrow> chVTIsArmedI (OnStack t) s"
    and "idle_thread s' = idle_thread s"
  shows "rely t s s'"
  using assms by (auto simp: rely_def run_rely_def msg_rely_def mtx_rely_def wait_rely_def evt_rely_def)

definition kinvS :: "kstate \<Rightarrow> bool" where
  "kinvS s \<longleftrightarrow> kinv s \<and> prio_ok s"

lemma kinvU_S: "kinvU s \<longleftrightarrow> kinvS s \<and> \<not> chVTIsArmedI (OnStack (currp s)) s"
  by (simp add: kinvU_def kinvS_def)

lemma ready_queued:
  assumes "places s" and "state_of s t = THD_STATE_READY" shows "t \<in> set (r_queue s)"
proof -
  obtain p where "place_ok (thd s t) p" "t \<in> set (queue_of s p)"
    using places_queued [OF assms(1), of t] assms(2) by (auto simp: place_ok_def)
  then show ?thesis using assms(2) by (simp add: place_ok_def)
qed

text \<open>
  The running thread \<open>t\<close> has been put to sleep and perhaps others made ready: the next thread
  is chosen.
\<close>

lemma next_ok:
  assumes K: "kinv s" and cur: "t = currp s" and ni: "t \<noteq> idle_thread s"
    and K2: "kinv0 s2" and st: "\<not> runnable (state_of s2 t)" and pos: "vt_pos s2"
    and oth: "\<And>x. x \<noteq> t \<Longrightarrow> rely x s s2 \<and> state_of s2 x \<noteq> THD_STATE_CURRENT"
    and id: "idle_thread s2 = idle_thread s"
  shows "kinvS (pick_next s2)" and "guar t s (pick_next s2)" and "thd (pick_next s2) t = thd s2 t"
    and "vts (pick_next s2) = vts s2" and "idle_thread (pick_next s2) = idle_thread s"
proof -
  let ?s3 = "pick_next s2"
  have C: "cur_ok s" and I: "idle_ok s" using K by (simp_all add: kinv_def)
  have P2: "places s2" using K2 by (simp add: kinv0_def)
  have "state_of s (idle_thread s) \<noteq> THD_STATE_FINAL" using I by (auto simp: idle_ok_def)
  then have "runnable (state_of s2 (idle_thread s))"
    using oth [of "idle_thread s"] ni I by (auto simp: rely_def run_rely_def idle_ok_def)
  then have ir: "state_of s2 (idle_thread s) = THD_STATE_READY" using oth [of "idle_thread s"] ni by simp
  then have ne: "r_queue s2 \<noteq> []" using ready_queued [OF P2] by fastforce
  note pn = kinv0_pick_next [OF K2 ne]
  define h where "h = hd (r_queue s2)"
  have hs: "state_of s2 h = THD_STATE_READY" using ready_state [OF P2] ne by (simp add: h_def)
  have ht: "h \<noteq> t" using hs st by auto
  then show "thd ?s3 t = thd s2 t" "vts ?s3 = vts s2" "idle_thread ?s3 = idle_thread s"
    using pn id by (simp_all add: h_def)
  have st3: "state_of ?s3 x = (if x = h then THD_STATE_CURRENT else state_of s2 x)" for x
    using pn(3) by (simp add: h_def)
  have "state_of s2 x \<noteq> THD_STATE_CURRENT" for x using oth [of x] st by (cases "x = t") auto
  then have "cur_ok ?s3" unfolding cur_ok_def using pn(2) st3 by (simp add: h_def)
  moreover have "idle_ok ?s3" using ir st3 pn(6) id by (simp add: idle_ok_def)
  moreover have "vt_pos ?s3" using pos pn(7,8) by (simp add: vt_pos_hd)
  ultimately show "kinvS ?s3" using pn(1,5) by (simp add: kinvS_def kinv_def)
  have "rely x s2 ?s3" if "x \<noteq> t" for x
  proof (cases "x = h")
    case True
    show ?thesis by (rule rely_ready) (use True hs pn in \<open>simp_all add: h_def chVTIsArmedI_def\<close>)
  next
    case False
    show ?thesis by (rule rely_frame) (use False pn in \<open>simp_all add: h_def chVTIsArmedI_def\<close>)
  qed
  then show "guar t s ?s3" unfolding guar_def using oth rely_trans by blast
qed

lemma sleep_next:
  assumes K: "kinv s" and cur: "t = currp s" and ni: "t \<noteq> idle_thread s"
    and K2: "kinv0 (sleeping ns t s1)" and nc: "\<not> runnable ns" and pos: "vt_pos s1"
    and fr: "\<And>x. x \<noteq> t \<Longrightarrow> p_state (thd s1 x) = p_state (thd s x) \<and> p_u (thd s1 x) = p_u (thd s x) \<and>
      p_mtxlist (thd s1 x) = p_mtxlist (thd s x) \<and> p_realprio (thd s1 x) = p_realprio (thd s x) \<and>
      p_epending (thd s x) AND p_epending (thd s1 x) = p_epending (thd s x)"
    and id: "idle_thread s1 = idle_thread s"
    and msg: "\<And>x. x \<noteq> t \<Longrightarrow> \<exists>ys. p_msgqueue (thd s1 x) = p_msgqueue (thd s x) @ ys"
    and arm: "\<And>x. x \<noteq> t \<Longrightarrow> chVTIsArmedI (OnStack x) s1 \<Longrightarrow> chVTIsArmedI (OnStack x) s"
  shows "kinvS (pick_next (sleeping ns t s1))" and "guar t s (pick_next (sleeping ns t s1))"
    and "thd (pick_next (sleeping ns t s1)) t = thd (sleeping ns t s1) t"
    and "vts (pick_next (sleeping ns t s1)) = vts s1" and "idle_thread (pick_next (sleeping ns t s1)) = idle_thread s"
proof -
  have o: "rely x s (sleeping ns t s1) \<and> state_of (sleeping ns t s1) x \<noteq> THD_STATE_CURRENT" if "x \<noteq> t" for x
  proof
    show "rely x s (sleeping ns t s1)"
      by (rule rely_frame) (use that fr [OF that] msg [OF that] arm [OF that] id in \<open>simp_all add: chVTIsArmedI_def\<close>)
    show "state_of (sleeping ns t s1) x \<noteq> THD_STATE_CURRENT"
      using that fr [OF that] K cur by (simp add: kinv_def cur_ok_def)
  qed
  have f: "\<not> runnable (state_of (sleeping ns t s1) t)" "vt_pos (sleeping ns t s1)"
      "idle_thread (sleeping ns t s1) = idle_thread s"
    using nc pos id by (simp_all add: vt_pos_hd)
  note n = next_ok [OF K cur ni K2 f(1,2) o f(3)]
  show "kinvS (pick_next (sleeping ns t s1))" "guar t s (pick_next (sleeping ns t s1))"
    "thd (pick_next (sleeping ns t s1)) t = thd (sleeping ns t s1) t"
    "idle_thread (pick_next (sleeping ns t s1)) = idle_thread s"
    by (rule n; assumption)+
  have "vts (pick_next (sleeping ns t s1)) = vts (sleeping ns t s1)" by (rule n; assumption)
  then show "vts (pick_next (sleeping ns t s1)) = vts s1" by simp
qed

lemma sleep_ok:
  assumes K: "kinv s" and cur: "t = currp s" and ni: "t \<noteq> idle_thread s"
    and a: "attached t p s s1" and np: "p \<noteq> PReady" and nm: "\<And>m. p \<noteq> PMtx m"
    and fin: "\<And>x. state_of s x = THD_STATE_FINAL \<Longrightarrow> p \<noteq> PExit x"
    and nf: "ns = THD_STATE_FINAL \<Longrightarrow> p_mtxlist (thd s t) = [] \<and> p_waiting (thd s1 t) = []"
    and pl: "place_ok (thd (sleeping ns t s1) t) p" and nc: "\<not> runnable ns"
    and sm: "sems_ok s1" and tm: "timers_ok (sleeping ns t s1)" "vt_pos s1"
    and msg: "\<And>x. x \<noteq> t \<Longrightarrow> \<exists>ys. p_msgqueue (thd s1 x) = p_msgqueue (thd s x) @ ys"
    and arm: "\<And>x. x \<noteq> t \<Longrightarrow> chVTIsArmedI (OnStack x) s1 \<Longrightarrow> chVTIsArmedI (OnStack x) s"
  shows "kinvS (pick_next (sleeping ns t s1))" and "guar t s (pick_next (sleeping ns t s1))"
proof -
  have K0: "kinv0 s" and st: "state_of s t = THD_STATE_CURRENT"
    using K cur by (simp_all add: kinv_def cur_ok_def)
  have fr: "p_state (thd s1 x) = p_state (thd s x) \<and> p_u (thd s1 x) = p_u (thd s x) \<and>
      p_mtxlist (thd s1 x) = p_mtxlist (thd s x) \<and> p_realprio (thd s1 x) = p_realprio (thd s x) \<and>
      p_epending (thd s x) AND p_epending (thd s1 x) = p_epending (thd s x)" if "x \<noteq> t" for x
    using a that by (simp add: attached_def)
  have id: "idle_thread s1 = idle_thread s" using a by (simp add: attached_def)
  note n = sleep_next [OF K cur ni kinv0_sleep [OF K0 a st pl nm fin nf sm tm(1)] nc tm(2) fr id msg arm]
  show "kinvS (pick_next (sleeping ns t s1))" "guar t s (pick_next (sleeping ns t s1))"
    by (rule n; assumption)+
qed

end
