(* ===== verification/SafeRuns.thy ===== *)
theory SafeRuns
  imports Invariants
begin

text \<open>
  The predicate \<open>safe\<close> on runs, its composition rule, and what each function of the
  scheduler establishes: sleeping, waking, rescheduling and preemption keep the kernel
  invariant and hand the processor to a thread of the highest priority.  The locale
  \<open>iclass_op\<close> is the contract of operations that may be called from interrupt handlers.
\<close>

section \<open>Safe runs\<close>

text \<open>
  \<open>safe me Q s r\<close>: the run \<open>r\<close> of thread \<open>me\<close>, which last got the processor in state
  \<open>s\<close>, keeps the kernel invariant whenever it gives the processor up, does to the other
  threads only what they expect, and ends in a state and with a result that satisfy \<open>Q\<close>,
  provided the others keep to their part when it is suspended.
\<close>

coinductive safe :: "addr \<Rightarrow> ('a \<Rightarrow> kstate \<Rightarrow> bool) \<Rightarrow> kstate \<Rightarrow> 'a run \<Rightarrow> bool"
  for me :: addr and Q :: "'a \<Rightarrow> kstate \<Rightarrow> bool" where
  safe_Done: "guar me s0 s \<Longrightarrow> Q a s \<Longrightarrow> safe me Q s0 (Done a s)"
| safe_Switch: "guar me s0 s \<Longrightarrow> kinvS s \<Longrightarrow>
    (\<And>s'. kinvS s' \<Longrightarrow> currp s' = me \<Longrightarrow> rely me s s' \<Longrightarrow> safe me Q s' (k s')) \<Longrightarrow>
    safe me Q s0 (Switch s k)"
| safe_Unlock: "guar me s0 s \<Longrightarrow> kinvU s \<Longrightarrow> currp s = me \<Longrightarrow>
    (\<And>s'. kinvU s' \<Longrightarrow> currp s' = me \<Longrightarrow> rely me s s' \<Longrightarrow> safe me Q s' (k s')) \<Longrightarrow>
    safe me Q s0 (Unlock s k)"

inductive_cases safe_DoneE [elim!]: "safe me Q s0 (Done a s)"
inductive_cases safe_SwitchE: "safe me Q s0 (Switch s k)"
inductive_cases safe_UnlockE: "safe me Q s0 (Unlock s k)"

lemma safe_rebase: "safe me Q s1 r \<Longrightarrow> guar me s0 s1 \<Longrightarrow> safe me Q s0 r"
  by (erule safe.cases) (auto intro: safe.intros guar_trans)

lemma safe_bind:
  assumes "safe me Q s0 r" and "\<And>a s. Q a s \<Longrightarrow> safe me Q' s (f a s)"
  shows "safe me Q' s0 (rbind r f)"
  using assms(1)
proof (coinduction arbitrary: s0 r rule: safe.coinduct)
  case (safe s0 r)
  from this show ?case
  proof (cases rule: safe.cases)
    case (safe_Done s a)
    have "safe me Q' s0 (f a s)" using safe_rebase [OF assms(2)] safe_Done by blast
    then show ?thesis using safe_Done(2)
      by (cases rule: safe.cases) (auto simp: safe_Done(1))
  next
    case (safe_Switch s k)
    then show ?thesis by auto
  next
    case (safe_Unlock s k)
    then show ?thesis by auto
  qed
qed

lemma safe_mono:
  assumes "safe me Q s0 r" and "\<And>a s. Q a s \<Longrightarrow> Q' a s"
  shows "safe me Q' s0 r"
  using assms(1)
proof (coinduction arbitrary: s0 r rule: safe.coinduct)
  case (safe s0 r)
  from this show ?case by (cases rule: safe.cases) (use assms(2) in auto)
qed

text \<open>
  The postcondition of \<open>safe_from\<close> also sees the state in which the thread last got the
  processor, the start of the run or the state of its last resumption: what the function did
  since then is its own doing.
\<close>

coinductive safe_from :: "addr \<Rightarrow> (kstate \<Rightarrow> 'a \<Rightarrow> kstate \<Rightarrow> bool) \<Rightarrow> kstate \<Rightarrow> 'a run \<Rightarrow> bool"
  for me :: addr and Q :: "kstate \<Rightarrow> 'a \<Rightarrow> kstate \<Rightarrow> bool" where
  from_Done: "guar me s0 s \<Longrightarrow> Q s0 a s \<Longrightarrow> safe_from me Q s0 (Done a s)"
| from_Switch: "guar me s0 s \<Longrightarrow> kinvS s \<Longrightarrow>
    (\<And>s'. kinvS s' \<Longrightarrow> currp s' = me \<Longrightarrow> rely me s s' \<Longrightarrow> safe_from me Q s' (k s')) \<Longrightarrow>
    safe_from me Q s0 (Switch s k)"
| from_Unlock: "guar me s0 s \<Longrightarrow> kinvU s \<Longrightarrow> currp s = me \<Longrightarrow>
    (\<And>s'. kinvU s' \<Longrightarrow> currp s' = me \<Longrightarrow> rely me s s' \<Longrightarrow> safe_from me Q s' (k s')) \<Longrightarrow>
    safe_from me Q s0 (Unlock s k)"

lemma from_bind:
  assumes "safe_from me P s0 r" and "\<And>b a s. guar me b s \<Longrightarrow> P b a s \<Longrightarrow> safe_from me Q b (f a s)"
  shows "safe_from me Q s0 (rbind r f)"
  using assms(1)
proof (coinduction arbitrary: s0 r rule: safe_from.coinduct)
  case (safe_from s0 r)
  from this show ?case
  proof (cases rule: safe_from.cases)
    case (from_Done s a)
    have "safe_from me Q s0 (f a s)" using assms(2) from_Done by blast
    then show ?thesis by (cases rule: safe_from.cases) (auto simp: from_Done(1))
  next
    case (from_Switch s k)
    then show ?thesis by auto
  next
    case (from_Unlock s k)
    then show ?thesis by auto
  qed
qed

lemma from_mono:
  assumes "safe_from me Q s0 r" and "\<And>b a s. Q b a s \<Longrightarrow> Q' b a s"
  shows "safe_from me Q' s0 r"
  using assms(1)
proof (coinduction arbitrary: s0 r rule: safe_from.coinduct)
  case (safe_from s0 r)
  from this show ?case by (cases rule: safe_from.cases) (use assms(2) in auto)
qed

section \<open>Scheduler functions in the invariant\<close>

text \<open>What holds inside a function that runs with the kernel locked.\<close>

definition kinvL :: "kstate \<Rightarrow> bool" where
  "kinvL s \<longleftrightarrow> kinv s \<and> \<not> chVTIsArmedI (OnStack (currp s)) s"

lemma kinvU_L: "kinvU s \<longleftrightarrow> kinvL s \<and> prio_ok s"
  by (auto simp: kinvU_def kinvL_def)

lemma kinvS_rely_U:
  "kinvS s' \<Longrightarrow> rely (currp s') s s' \<Longrightarrow> state_of s (currp s') \<noteq> THD_STATE_FINAL \<Longrightarrow>
     \<not> chVTIsArmedI (OnStack (currp s')) s \<Longrightarrow> kinvU s'"
  by (auto simp: kinvU_S rely_def)

text \<open>
  \<open>parked ns t p s s'\<close>: in \<open>s'\<close> the running thread \<open>t\<close> of \<open>s\<close> is in the queue \<open>p\<close>, ready
  to sleep in state \<open>ns\<close>.
\<close>

definition parked :: "tstate \<Rightarrow> addr \<Rightarrow> place \<Rightarrow> kstate \<Rightarrow> kstate \<Rightarrow> bool" where
  "parked ns t p s s' \<longleftrightarrow>
     attached t p s s' \<and> p \<noteq> PReady \<and> (\<forall>m. p \<noteq> PMtx m) \<and>
     (\<forall>x. state_of s x = THD_STATE_FINAL \<longrightarrow> p \<noteq> PExit x) \<and>
     place_ok (thd (sleeping ns t s') t) p \<and> \<not> runnable ns \<and> ns \<noteq> THD_STATE_FINAL \<and>
     sems_ok s' \<and> vts s' = vts s \<and> vtlist s' = vtlist s \<and>
     (\<forall>x. x \<noteq> t \<longrightarrow> (\<exists>ys. p_msgqueue (thd s' x) = p_msgqueue (thd s x) @ ys))"

lemma timers_ok_sleeping:
  assumes "timers_ok s" and "\<not> chVTIsArmedI (OnStack t) s"
  shows "timers_ok (sleeping ns t s)"
  by (rule timers_ok_frame [of s]) (use assms in auto)

lemma vt_pos_chVTSetI:
  assumes "vt_wf s" and "vt_pos s" and "\<not> chVTIsArmedI v s" and "time \<noteq> 0"
  shows "vt_pos (chVTSetI v time f a s)"
proof -
  have nin: "v \<notin> set (vtlist s)" and d: "distinct (vtlist s)" using assms by (auto simp: vt_wf_def)
  have *: "ticks_left (chVTSetI v time f a s) x \<noteq> Some 0" for x
    using chVTSetI_ticks_left [OF nin d] ticks_left_pos [OF assms(1,2), of x] assms(4)
    by (simp add: unat_eq_0)
  show ?thesis
  proof (cases "vtlist (chVTSetI v time f a s)")
    case (Cons p ps)
    then show ?thesis using * [of p] by (auto simp: ticks_left_def vt_pos_def)
  qed (simp add: vt_pos_def)
qed

lemma vt_pos_chVTResetI:
  assumes "vt_wf s" and "vt_pos s" and "chVTIsArmedI v s"
  shows "vt_pos (chVTResetI v s)"
proof -
  obtain passed rest where l: "vtlist s = passed @ v # rest"
    using assms by (metis vt_wf_def split_list)
  have *: "ticks_left (chVTResetI v s) x \<noteq> Some 0" for x
    using chVTResetI_delta(3) [OF assms(1) l] ticks_left_pos [OF assms(1,2), of x] by simp
  show ?thesis
  proof (cases "vtlist (chVTResetI v s)")
    case (Cons p ps)
    then show ?thesis using * [of p] by (auto simp: ticks_left_def vt_pos_def)
  qed (simp add: vt_pos_def)
qed

lemma timers_ok_set_sleeping:
  assumes T: "timers_ok s" and u: "\<not> chVTIsArmedI (OnStack t) s" and "timed ns"
  shows "timers_ok (sleeping ns t (chVTSetI (OnStack t) time Wakeup t s))"
proof -
  let ?s = "sleeping ns t (chVTSetI (OnStack t) time Wakeup t s)"
  have wf: "vt_wf s" using T by (simp_all add: timers_ok_def)
  have "vt_wf ?s" using vt_wf_chVTSetI [OF wf u] by (simp add: vt_wf_def chVTIsArmedI_def)
  moreover have "chVTIsArmedI v ?s \<longleftrightarrow> v = OnStack t \<or> chVTIsArmedI v s" for v
    by (simp add: chVTIsArmedI_def vt_func_chVTSetI)
  ultimately show ?thesis
    using T assms(3) by (auto simp: timers_ok_def vt_func_chVTSetI)
qed

lemma kinv0_reset:
  assumes K: "kinv0 s" and a: "chVTIsArmedI v s"
  shows "kinv0 (chVTResetI v s)"
proof -
  have T: "timers_ok s" using K by (simp add: kinv0_def)
  then have wf: "vt_wf s" by (simp add: timers_ok_def)
  have am: "chVTIsArmedI x (chVTResetI v s) \<longleftrightarrow> x \<noteq> v \<and> chVTIsArmedI x s" for x
    by (simp add: chVTIsArmedI_def vt_func_chVTResetI)
  have "timers_ok (chVTResetI v s)"
    using T vt_wf_chVTResetI [OF wf a] am
    by (auto simp: timers_ok_def vt_func_chVTResetI)
  moreover have "queue_of (chVTResetI v s) = queue_of s"
    by (rule ext, case_tac x) simp_all
  ultimately show ?thesis
    using K by (simp add: kinv0_def places_def ordered_def live_def sems_ok_def owners_ok_def
      inheritance_def inherits_def)
qed

lemma kinvU_reset:
  assumes "kinvS s" and "chVTIsArmedI (OnStack (currp s)) s"
  shows "kinvU (chVTResetI (OnStack (currp s)) s)"
  using assms kinv0_reset [of s "OnStack (currp s)"] vt_pos_chVTResetI [of s "OnStack (currp s)"]
  by (auto simp: kinvU_S kinvS_def kinv_def kinv0_def timers_ok_def cur_ok_def idle_ok_def prio_ok_def chVTIsArmedI_def
      vt_func_chVTResetI)

lemma parked_sleep:
  assumes K: "kinvL s" and cur: "t = currp s" and ni: "t \<noteq> idle_thread s"
    and p: "parked ns t p s s1"
  shows "kinvS (pick_next (sleeping ns t s1))" "guar t s (pick_next (sleeping ns t s1))"
    "time \<noteq> 0 \<Longrightarrow> timed ns \<Longrightarrow> kinvS (pick_next (sleeping ns t (chVTSetI (OnStack t) time Wakeup t s1)))"
    "time \<noteq> 0 \<Longrightarrow> timed ns \<Longrightarrow> guar t s (pick_next (sleeping ns t (chVTSetI (OnStack t) time Wakeup t s1)))"
proof -
  have K': "kinv s" and u: "\<not> chVTIsArmedI (OnStack t) s" using K cur by (simp_all add: kinvL_def)
  have a: "attached t p s s1" and sm: "sems_ok s1" using p by (simp_all add: parked_def)
  have T: "timers_ok s1" and u1: "\<not> chVTIsArmedI (OnStack t) s1" and pos: "vt_pos s1"
    using p a u K' timers_ok_frame [of s s1]
    by (auto simp: parked_def attached_def kinv_def kinv0_def chVTIsArmedI_def vt_pos_hd)
  note hyps = p [unfolded parked_def]
  show "kinvS (pick_next (sleeping ns t s1))" "guar t s (pick_next (sleeping ns t s1))"
    by (rule sleep_ok [OF K' cur ni a]; (use hyps pos timers_ok_sleeping [OF T u1] in \<open>auto simp: chVTIsArmedI_def\<close>))+
  let ?s2 = "chVTSetI (OnStack t) time Wakeup t s1"
  have q: "queue_of ?s2 r = queue_of s1 r" for r by (cases r) simp_all
  have a2: "attached t p s ?s2" using a by (simp add: attached_def q)
  have sm2: "sems_ok ?s2" using sm by (simp add: sems_ok_def)
  have pl: "place_ok (thd (sleeping ns t ?s2) t) p" using hyps by (simp add: place_ok_def)
  assume tm: "time \<noteq> 0" "timed ns"
  have pos2: "vt_pos ?s2" using T vt_pos_chVTSetI [OF _ pos u1 tm(1)] by (simp add: timers_ok_def)
  show "kinvS (pick_next (sleeping ns t ?s2))" "guar t s (pick_next (sleeping ns t ?s2))"
    by (rule sleep_ok [OF K' cur ni a2]; (use hyps pl sm2 pos2 timers_ok_set_sleeping [OF T u1 tm(2)] in
      \<open>auto simp: chVTIsArmedI_def vt_func_chVTSetI\<close>))+
qed

lemma pick_next_other:
  assumes K: "kinv s" and ni: "currp s \<noteq> idle_thread s" and "attached (currp s) p s s1" and "p \<noteq> PReady"
  shows "thd (pick_next (sleeping ns (currp s) s1)) (currp s) = thd (sleeping ns (currp s) s1) (currp s)"
    and "vts (pick_next (sleeping ns (currp s) s1)) = vts s1"
    and "idle_thread (pick_next (sleeping ns (currp s) s1)) = idle_thread s"
proof -
  have rq: "r_queue s1 = r_queue s" using assms(3,4) by (metis attached_def queue_of.simps(2))
  obtain h q where h: "r_queue s = h # q" using idle_ready [OF K ni] by (cases "r_queue s") auto
  have "state_of s h = THD_STATE_READY" using ready_state [of s h] K h by (simp add: kinv_def kinv0_def)
  moreover have "state_of s (currp s) = THD_STATE_CURRENT" using K by (simp add: kinv_def cur_ok_def)
  ultimately have "h \<noteq> currp s" by auto
  then show "thd (pick_next (sleeping ns (currp s) s1)) (currp s) = thd (sleeping ns (currp s) s1) (currp s)"
      "vts (pick_next (sleeping ns (currp s) s1)) = vts s1"
      "idle_thread (pick_next (sleeping ns (currp s) s1)) = idle_thread s"
    using rq h assms(3) by (simp_all add: pick_next_eq [where t = h and q = q] attached_def)
qed

text \<open>
  Sleeping is safe; on return the invariant of the unlocked kernel holds, and the thread's
  record is what the others may have made of it since it was put to sleep.
\<close>

lemma chSchGoSleepS_safe:
  assumes K: "kinvL s" and cur: "t = currp s" and ni: "t \<noteq> idle_thread s"
    and p: "parked ns t p s s1"
  shows "safe t (\<lambda>_ s'. kinvU s' \<and> currp s' = t \<and> rely t (sleeping ns t s1) s') s (chSchGoSleepS ns s1)"
proof -
  have a: "attached t p s s1" "p \<noteq> PReady" "ns \<noteq> THD_STATE_FINAL" and v: "vts s1 = vts s"
    using p by (simp_all add: parked_def)
  then have c1: "currp s1 = t" using cur by (simp add: attached_def)
  have K': "kinv s" and u: "\<not> chVTIsArmedI (OnStack t) s" using K cur by (simp_all add: kinvL_def)
  note po = pick_next_other [OF K' ni [unfolded cur] a(1) [unfolded cur] a(2), folded cur, of ns]
  have R: "rely t (pick_next (sleeping ns t s1)) s' \<Longrightarrow> rely t (sleeping ns t s1) s'" for s'
    unfolding rely_def po using po(2) a(1) by (simp add: chVTIsArmedI_def attached_def po)
  show ?thesis
    unfolding chSchGoSleepS_eq c1
  proof (rule safe_Switch)
    fix s' assume s': "kinvS s'" "currp s' = t" "rely t (pick_next (sleeping ns t s1)) s'"
    have "kinvU s'"
      by (rule kinvS_rely_U [where s = "pick_next (sleeping ns t s1)"])
        (use s' po u v a(3) in \<open>simp_all add: chVTIsArmedI_def\<close>)
    then show "safe t (\<lambda>_ s'. kinvU s' \<and> currp s' = t \<and> rely t (sleeping ns t s1) s') s' (Done () s')"
      using s' R by (intro safe_Done) auto
  qed (rule parked_sleep [OF K cur ni p])+
qed

lemma rely_disarmed:
  "rely t s s1 \<Longrightarrow> thd s2 t = thd s1 t \<Longrightarrow> idle_thread s2 = idle_thread s1 \<Longrightarrow>
   \<not> chVTIsArmedI (OnStack t) s2 \<Longrightarrow> rely t s s2"
  by (simp add: rely_def)

definition arm :: "systime_t \<Rightarrow> addr \<Rightarrow> kstate \<Rightarrow> kstate" where
  "arm time t s = (if time = TIME_INFINITE then s else chVTSetI (OnStack t) time Wakeup t s)"

lemma chSchGoSleepTimeoutS_safe:
  assumes K: "kinvL s" and cur: "t = currp s" and ni: "t \<noteq> idle_thread s"
    and p: "parked ns t p s s1" and tm: "time \<noteq> 0" "timed ns"
  shows "safe t (\<lambda>m s'. kinvU s' \<and> currp s' = t \<and> rely t (sleeping ns t (arm time t s1)) s' \<and>
           m = p_u (thd s' t)) s (chSchGoSleepTimeoutS ns time s1)"
    (is "safe t ?Q s _")
proof -
  have a: "attached t p s s1" "p \<noteq> PReady" "ns \<noteq> THD_STATE_FINAL"
    using p by (simp_all add: parked_def)
  then have c1: "currp s1 = t" "idle_thread s1 = idle_thread s" using cur by (simp_all add: attached_def)
  have K': "kinv s" using K by (simp add: kinvL_def)
  let ?s2 = "chVTSetI (OnStack t) time Wakeup t s1"
  have q: "queue_of ?s2 r = queue_of s1 r" for r by (cases r) simp_all
  have a2: "attached t p s ?s2" using a by (simp add: attached_def q)
  note po = pick_next_other [OF K' ni [unfolded cur] a2 [unfolded cur] a(2), folded cur, of ns]
  have R: "rely t (pick_next (sleeping ns t ?s2)) s' \<Longrightarrow> rely t (sleeping ns t ?s2) s'" for s'
    unfolding rely_def po using po(2) c1 by (simp add: chVTIsArmedI_def po)
  show ?thesis
  proof (cases "TIME_INFINITE = time")
    case True
    then show ?thesis unfolding chSchGoSleepTimeoutS_def
      by (auto intro!: safe_bind [OF chSchGoSleepS_safe [OF K cur ni p]] safe_Done simp: arm_def)
  next
    case False
    have "safe t ?Q s
      (rbind (chSchGoSleepS ns ?s2)
        (\<lambda>_ s1. let s2 = (if chVTIsArmedI (OnStack t) s1 then chVTResetI (OnStack t) s1 else s1)
          in Done (p_u (thd s2 (currp s2))) s2))"
      unfolding chSchGoSleepS_eq rbind_simps chVTSetI_frame c1
    proof (rule safe_Switch)
      fix s' assume s': "kinvS s'" "currp s' = t" "rely t (pick_next (sleeping ns t ?s2)) s'"
      let ?s3 = "if chVTIsArmedI (OnStack t) s' then chVTResetI (OnStack t) s' else s'"
      have U: "kinvU ?s3" using kinvU_reset [of s'] s' by (auto simp: kinvU_S)
      moreover have "currp ?s3 = t" using s' by simp
      moreover have "rely t (sleeping ns t ?s2) ?s3"
        by (rule rely_disarmed [OF R [OF s'(3)]]) (use U s' in \<open>auto simp: kinvU_def\<close>)
      moreover have "guar t s' ?s3"
        unfolding guar_def by (auto intro!: rely_frame simp: chVTIsArmedI_def vt_func_chVTResetI)
      ultimately show "safe t ?Q s' (let s2 = ?s3 in Done (p_u (thd s2 (currp s2))) s2)"
        unfolding Let_def using False by (intro safe_Done) (auto simp: arm_def)
    qed (rule parked_sleep [OF K cur ni p] tm)+
    then show ?thesis using False c1 by (simp add: chSchGoSleepTimeoutS_def Let_def)
  qed
qed

section \<open>Operations that do not give up the processor\<close>

text \<open>
  An operation of the I class keeps the invariant and the running thread; it may leave a
  thread ready that ought to run, which the caller's reschedule or the interrupt epilogue
  takes care of.
\<close>

definition iclass :: "kstate \<Rightarrow> kstate \<Rightarrow> bool" where
  "iclass s s' \<longleftrightarrow> kinv s' \<and> currp s' = currp s \<and> (\<forall>t. rely t s s')"

lemma iclass_refl: "kinv s \<Longrightarrow> iclass s s"
  by (simp add: iclass_def)

lemma iclass_trans: "iclass s s' \<Longrightarrow> iclass s' s'' \<Longrightarrow> iclass s s''"
  unfolding iclass_def by (metis rely_trans)

lemma iclass_guar: "iclass s s' \<Longrightarrow> guar me s s'"
  by (simp add: iclass_def guar_def)

lemma cur_state: "kinv s \<Longrightarrow> state_of s (currp s) = THD_STATE_CURRENT"
  by (simp add: kinv_def cur_ok_def)

lemma iclass_L: "iclass s s' \<Longrightarrow> kinvL s \<Longrightarrow> kinvL s'"
  using cur_state [of s] unfolding iclass_def kinvL_def rely_def by (metis tstate.distinct)

lemma detachedI:
  assumes P: "places s" and t: "t \<in> set (queue_of s p)"
    and "\<And>r. r \<noteq> p \<Longrightarrow> queue_of s' r = queue_of s r" and "queue_of s' p = remove1 t (queue_of s p)"
    and "\<And>x. p_state (thd s' x) = p_state (thd s x) \<and> p_prio (thd s' x) = p_prio (thd s x) \<and>
        p_realprio (thd s' x) = p_realprio (thd s x) \<and> p_mtxlist (thd s' x) = p_mtxlist (thd s x) \<and>
        p_epending (thd s x) AND p_epending (thd s' x) = p_epending (thd s x) \<and>
        (x \<noteq> t \<longrightarrow> p_u (thd s' x) = p_u (thd s x))"
    and "\<And>m. m_owner (mtx s' m) = m_owner (mtx s m)"
    and "vts s' = vts s" "vtlist s' = vtlist s" "currp s' = currp s" "idle_thread s' = idle_thread s"
  shows "detached t s s'"
proof -
  have "queue_of s' r = remove1 t (queue_of s r)" for r
  proof (cases "r = p")
    case False
    then have "t \<notin> set (queue_of s r)" using places_unique [OF P t, of r] by auto
    then show ?thesis using assms(3) [OF False] by (simp add: remove1_idem)
  qed (use assms(4) in simp)
  then show ?thesis using assms by (simp add: detached_def)
qed

lemma detached_unqueued:
  assumes "places s" and "place_ok (thd s t) PNone"
    and "\<And>r. queue_of s' r = queue_of s r"
    and "\<And>x. p_state (thd s' x) = p_state (thd s x) \<and> p_prio (thd s' x) = p_prio (thd s x) \<and>
        p_realprio (thd s' x) = p_realprio (thd s x) \<and> p_mtxlist (thd s' x) = p_mtxlist (thd s x) \<and>
        p_epending (thd s x) AND p_epending (thd s' x) = p_epending (thd s x) \<and>
        (x \<noteq> t \<longrightarrow> p_u (thd s' x) = p_u (thd s x))"
    and "\<And>m. m_owner (mtx s' m) = m_owner (mtx s m)"
    and "vts s' = vts s" "vtlist s' = vtlist s" "currp s' = currp s" "idle_thread s' = idle_thread s"
  shows "detached t s s'"
  using assms places_unqueued [OF assms(1,2)] by (simp add: detached_def remove1_idem)

lemma detached_unlink:
  assumes "places s" and "state_of s t \<noteq> THD_STATE_WTEXIT"
  shows "detached t s (unlink t s)"
proof -
  have "t \<notin> set (queue_of s (PExit a))" for a
    using places_at [OF assms(1), of t "PExit a"] assms(2) by (auto simp: place_ok_def split: tstate.splits)
  then have "queue_of (unlink t s) r = remove1 t (queue_of s r)" for r
    by (cases r) (simp_all add: unlink_def remove1_idem)
  then show ?thesis by (simp add: detached_def unlink_def)
qed

text \<open>The wait object of a detached thread may be set: it holds the wakeup message.\<close>

lemma detached_msg:
  assumes "detached t s s1" shows "detached t s (upd_thd t (\<lambda>x. x\<lparr>p_u := m\<rparr>) s1)"
proof -
  have "queue_of (upd_thd t (\<lambda>x. x\<lparr>p_u := m\<rparr>) s1) r = queue_of s1 r" for r
    by (cases r) auto
  then show ?thesis using assms unfolding detached_def by auto
qed

lemma detached_msgqueue:
  assumes K: "kinv0 s" and d: "detached t s s1" and st: "state_of s t \<noteq> THD_STATE_SNDMSGQ"
  shows "p_msgqueue (thd s1 x) = p_msgqueue (thd s x)"
proof -
  have "t \<notin> set (queue_of s (PMsg x))"
    using places_at [of s t "PMsg x"] K st by (auto simp: place_ok_def kinv0_def split: tstate.splits)
  moreover have "queue_of s1 (PMsg x) = remove1 t (queue_of s (PMsg x))"
    using d unfolding detached_def by blast
  ultimately show ?thesis by (simp add: remove1_idem)
qed

text \<open>Making a waiting thread ready is an operation of the I class.\<close>

lemma ready_weak:
  assumes K0: "kinv0 s" and C: "cur_ok s" and I: "idle_ok s" and d: "detached t s s1" and sm: "sems_ok s1"
    and st: "state_of s t \<notin> {THD_STATE_READY, THD_STATE_CURRENT, THD_STATE_FINAL, THD_STATE_WTMTX,
      THD_STATE_SNDMSGQ}"
    and msg: "state_of s t = THD_STATE_WTMSG \<Longrightarrow> p_msgqueue (thd s t) \<noteq> []"
    and u: "state_of s t \<in> {THD_STATE_WTSEM, THD_STATE_WTCOND, THD_STATE_WTQUEUE} \<Longrightarrow>
      p_u (thd s1 t) \<in> {RDY_OK, RDY_RESET} \<or> chVTIsArmedI (OnStack t) s0 \<and> p_u (thd s1 t) = RDY_TIMEOUT"
    and ev: "state_of s t \<in> {THD_STATE_WTOREVT, THD_STATE_WTANDEVT} \<Longrightarrow>
      p_u (thd s1 t) = RDY_OK \<and> evt_ready (state_of s t) (p_u (thd s t)) (p_epending (thd s1 t)) \<or>
      chVTIsArmedI (OnStack t) s0 \<and> p_u (thd s1 t) = RDY_TIMEOUT"
    and s0: "thd s0 = thd s" "idle_thread s0 = idle_thread s"
      "\<And>x. chVTIsArmedI (OnStack x) s \<Longrightarrow> chVTIsArmedI (OnStack x) s0"
  shows "kinv0 (chSchReadyI t s1)" "cur_ok (chSchReadyI t s1)" "idle_ok (chSchReadyI t s1)"
    "rely x s0 (chSchReadyI t s1)"
proof -
  have L: "limbo t s1" using limbo_detached [OF K0 d sm] st by simp
  have eq: "state_of s1 x = state_of s x" "p_mtxlist (thd s1 x) = p_mtxlist (thd s x)"
      "p_realprio (thd s1 x) = p_realprio (thd s x)" "p_msgqueue (thd s1 x) = p_msgqueue (thd s x)"
      "x \<noteq> t \<Longrightarrow> p_u (thd s1 x) = p_u (thd s x)" "currp s1 = currp s" "idle_thread s1 = idle_thread s"
      "vts s1 = vts s" "p_epending (thd s x) AND p_epending (thd s1 x) = p_epending (thd s x)" for x
    using d detached_msgqueue [OF K0 d, of x] st by (simp_all add: detached_def)
  show "kinv0 (chSchReadyI t s1)" using kinv0_ready [OF L] st eq by simp
  show "cur_ok (chSchReadyI t s1)" using C st eq by (auto simp: cur_ok_def)
  show "idle_ok (chSchReadyI t s1)" using I eq by (auto simp: idle_ok_def)
  have am: "chVTIsArmedI (OnStack x) (chSchReadyI t s1) \<Longrightarrow> chVTIsArmedI (OnStack x) s0"
    using s0(3) [of x] eq(8) by (simp add: chVTIsArmedI_def)
  show "rely x s0 (chSchReadyI t s1)"
  proof (cases "x = t")
    case True
    show ?thesis
      by (rule rely_ready) (use True st msg u ev eq s0(1,2) am in auto)
  next
    case False
    show ?thesis
      by (rule rely_frame) (use False eq s0(1,2) am in auto)
  qed
qed

lemma iclass_ready:
  assumes K: "kinv s" and d: "detached t s s1" and sm: "sems_ok s1"
    and st: "state_of s t \<notin> {THD_STATE_READY, THD_STATE_CURRENT, THD_STATE_FINAL, THD_STATE_WTMTX,
      THD_STATE_SNDMSGQ}"
    and msg: "state_of s t = THD_STATE_WTMSG \<Longrightarrow> p_msgqueue (thd s t) \<noteq> []"
    and u: "state_of s t \<in> {THD_STATE_WTSEM, THD_STATE_WTCOND, THD_STATE_WTQUEUE} \<Longrightarrow>
      p_u (thd s1 t) \<in> {RDY_OK, RDY_RESET} \<or> chVTIsArmedI (OnStack t) s \<and> p_u (thd s1 t) = RDY_TIMEOUT"
    and ev: "state_of s t \<in> {THD_STATE_WTOREVT, THD_STATE_WTANDEVT} \<Longrightarrow>
      p_u (thd s1 t) = RDY_OK \<and> evt_ready (state_of s t) (p_u (thd s t)) (p_epending (thd s1 t)) \<or>
      chVTIsArmedI (OnStack t) s \<and> p_u (thd s1 t) = RDY_TIMEOUT"
  shows "iclass s (chSchReadyI t s1)"
proof -
  have k: "kinv0 s" "cur_ok s" "idle_ok s" "vt_pos s" using K by (simp_all add: kinv_def)
  note w = ready_weak [OF k(1-3) d sm st msg u ev refl refl]
  have "vt_pos (chSchReadyI t s1)" "currp (chSchReadyI t s1) = currp s"
    using k(4) d by (simp_all add: vt_pos_hd detached_def)
  then show ?thesis using w by (simp add: iclass_def kinv_def)
qed

text \<open>
  The message is often stored after the thread has been made ready; the order does not
  matter.
\<close>

lemma ready_msg_commute:
  "upd_thd t (\<lambda>x. x\<lparr>p_u := m\<rparr>) (chSchReadyI t s) = chSchReadyI t (upd_thd t (\<lambda>x. x\<lparr>p_u := m\<rparr>) s)"
proof -
  have "prio (upd_thd t (\<lambda>x. x\<lparr>p_u := m\<rparr>) s) = prio s" by auto
  then show ?thesis
    by (intro kstate.equality) (auto simp: chSchReadyI_at ready_at_def intro: Thread.equality)
qed

text \<open>
  The timeout callback.  It runs when the timer of the sleeping thread is already off the
  list; \<open>s0\<close> is the state before.
\<close>

lemma sem_cnt_neg:
  "int (length q) = max 0 (- sint (c :: cnt_t)) \<Longrightarrow> sint c < 0 \<longleftrightarrow> q \<noteq> []"
  by (cases q) (auto simp: max_def split: if_splits)

lemma sem_cnt_pop:
  assumes "int (length q) = max 0 (- sint (c :: cnt_t))" and "q \<noteq> []"
  shows "int (length q - 1) = max 0 (- sint (c + 1))"
proof -
  have "sint c < 0" using sem_cnt_neg [OF assms(1)] assms(2) by simp
  then have "sint (c + 1) = sint c + 1" by (simp add: sint_inc)
  then show ?thesis using assms \<open>sint c < 0\<close> by (cases q) (auto simp: max_def)
qed

lemma sems_ok_timeout:
  assumes K: "kinv0 s" and st: "state_of s t = THD_STATE_WTSEM"
  shows "sems_ok (unlink t (chSemFastSignalI (p_u (thd s t)) s))"
proof -
  let ?a = "p_u (thd s t)"
  have P: "places s" and S: "sems_ok s" using K by (simp_all add: kinv0_def)
  have "place_ok (thd s t) p \<Longrightarrow> p = PSem ?a" for p using st by (simp add: place_ok_def)
  then have ta: "t \<in> set (queue_of s (PSem ?a))"
    using places_queued [OF P, of t] st by (auto simp: place_ok_def)
  have "t \<notin> set (s_queue (sem s a))" if "a \<noteq> ?a" for a
    using places_unique [OF P ta, of "PSem a"] that by auto
  moreover have "int (length (s_queue (sem s ?a)) - 1) = max 0 (- sint (s_cnt (sem s ?a) + 1))"
    by (rule sem_cnt_pop) (use S ta in \<open>auto simp: sems_ok_def\<close>)
  ultimately show ?thesis
    using S ta by (auto simp: sems_ok_def unlink_def chSemFastSignalI_def remove1_idem length_remove1)
qed

lemma detached_unlink_sem:
  assumes "places s" and "state_of s t \<noteq> THD_STATE_WTEXIT"
  shows "detached t s (unlink t (chSemFastSignalI a s))"
proof -
  have q: "queue_of (chSemFastSignalI a s) r = queue_of s r" for r
    by (cases r) (auto simp: chSemFastSignalI_def)
  have "queue_of (unlink t (chSemFastSignalI a s)) r = queue_of (unlink t s) r" for r
    by (cases r) (auto simp: chSemFastSignalI_def unlink_def)
  then show ?thesis
    using detached_unlink [OF assms] by (simp add: detached_def unlink_def chSemFastSignalI_def)
qed

lemma wakeup_weak:
  assumes K0: "kinv0 s" and C: "cur_ok s" and I: "idle_ok s"
    and st: "timed (state_of s t) \<or> state_of s t = THD_STATE_READY"
    and s0: "thd s0 = thd s" "idle_thread s0 = idle_thread s"
      "\<And>x. chVTIsArmedI (OnStack x) s \<Longrightarrow> chVTIsArmedI (OnStack x) s0" "chVTIsArmedI (OnStack t) s0"
  shows "kinv0 (wakeup t s) \<and> cur_ok (wakeup t s) \<and> idle_ok (wakeup t s) \<and> rely x s0 (wakeup t s)"
proof (cases "state_of s t = THD_STATE_READY")
  case True
  have "rely x s0 s" by (rule rely_frame) (use s0 in auto)
  then show ?thesis using True assms by (simp add: wakeup_def)
next
  case False
  have P: "places s" and S: "sems_ok s" using K0 by (simp_all add: kinv0_def)
  define s1 where "s1 = (case state_of s t of
      THD_STATE_WTSEM \<Rightarrow> unlink t (chSemFastSignalI (p_u (thd s t)) s)
    | THD_STATE_WTQUEUE \<Rightarrow> unlink t s | THD_STATE_WTCOND \<Rightarrow> unlink t s | _ \<Rightarrow> s)"
  have w: "wakeup t s = chSchReadyI t (upd_thd t (\<lambda>x. x\<lparr>p_u := RDY_TIMEOUT\<rparr>) s1)"
    using False by (auto simp: wakeup_def s1_def Let_def split: tstate.split)
  have d: "detached t s s1 \<and> sems_ok s1"
  proof (cases "state_of s t \<in> {THD_STATE_WTQUEUE, THD_STATE_WTCOND}")
    case True
    then have "sems_ok (unlink t s)"
    proof -
      have "t \<notin> set (s_queue (sem s a))" for a
        using True places_at [OF P, of t "PSem a"] by (auto simp: place_ok_def)
      then show ?thesis using S by (simp add: sems_ok_def unlink_def remove1_idem)
    qed
    then show ?thesis using True detached_unlink [OF P, of t] by (auto simp: s1_def)
  next
    case False
    show ?thesis
    proof (cases "state_of s t = THD_STATE_WTSEM")
      case True
      then show ?thesis using detached_unlink_sem [OF P, of t] sems_ok_timeout [OF K0]
        by (simp add: s1_def)
    next
      case no: False
      then have "s1 = s" using False by (auto simp: s1_def split: tstate.split)
      moreover have "place_ok (thd s t) PNone"
        using st no False \<open>state_of s t \<noteq> THD_STATE_READY\<close> by (auto simp: timed_def place_ok_def)
      ultimately show ?thesis using S detached_unqueued [OF P, of t s] by simp
    qed
  qed
  have sm: "sems_ok (upd_thd t (\<lambda>x. x\<lparr>p_u := RDY_TIMEOUT\<rparr>) s1)" using d by (simp add: sems_ok_def)
  show ?thesis unfolding w
    using ready_weak [OF K0 C I detached_msg [OF conjunct1 [OF d]] sm _ _ _ _ s0(1-3)] st False s0(4)
    by (auto simp: timed_def)
qed

section \<open>Rescheduling in the invariant\<close>

lemma kinv_distinct_ready: "kinv s \<Longrightarrow> distinct (r_queue s)"
  using places_distinct [of s PReady] by (simp add: kinv_def kinv0_def)

lemma kinv_desc_ready: "kinv s \<Longrightarrow> desc (prio s) (r_queue s)"
  unfolding kinv_def kinv0_def ordered_def by (metis prio_queue.simps(1) queue_of.simps(2))

lemma kinv_ready_state: "kinv s \<Longrightarrow> t \<in> set (r_queue s) \<Longrightarrow> state_of s t = THD_STATE_READY"
  using ready_state by (simp add: kinv_def kinv0_def)

lemma prio_ok_firstprio: "kinv s \<Longrightarrow> prio_ok s \<longleftrightarrow> firstprio s \<le> prio s (currp s)"
  using kinv_desc_ready [of s]
  by (cases "r_queue s") (auto simp: prio_ok_def firstprio_def intro: order_trans)

lemma firstprio_pos:
  assumes "kinv s" and "prio s (currp s) \<le> firstprio s"
  obtains h q where "r_queue s = h # q" and "prio s (currp s) \<le> prio s h"
proof -
  have "0 < prio s (currp s)"
    using assms(1) cur_state [OF assms(1)] by (simp add: kinv_def kinv0_def live_def)
  then show thesis using assms(2) that by (cases "r_queue s") (auto simp: firstprio_def)
qed

text \<open>
  Giving the processor to the first ready thread: the running one goes back to the ready
  list, behind or ahead of its peers.
\<close>

lemma switch_ready:
  assumes K: "kinv s" and me: "me = currp s" and r: "r_queue s = h # q" and ge: "prio s me \<le> prio s h"
    and ys: "distinct ys" "set ys = insert me (set q)" "desc (prio s) ys"
    and s1: "s1 = upd_thd me (\<lambda>t. t\<lparr>p_preempt := pr\<rparr>) (pick_next s)"
  shows "kinvS (ready_at ys me s1)" and "guar me s (ready_at ys me s1)"
    and "rely me s (ready_at ys me s1)"
proof -
  have k: "kinv0 s" "cur_ok s" "idle_ok s" "vt_pos s" using K by (simp_all add: kinv_def)
  have cs: "state_of s me = THD_STATE_CURRENT" using cur_state [OF K] me by simp
  have hs: "state_of s h = THD_STATE_READY" using kinv_ready_state [OF K] r by simp
  have hme: "h \<noteq> me" using cs hs by auto
  have ne: "r_queue s \<noteq> []" using r by simp
  note pn = kinv0_pick_next [OF k(1) ne]
  have th: "thd s1 x = (if x = h then (thd s h)\<lparr>p_state := THD_STATE_CURRENT\<rparr>
      else if x = me then (thd s me)\<lparr>p_preempt := pr\<rparr> else thd s x)" for x
    using pn(3) r s1 hme by auto
  have "limbo me (pick_next s)"
    by (rule limbo_unqueued [OF pn(1)]) (use pn(3) r hme cs in \<open>simp add: place_ok_def\<close>)
  then have L: "limbo me s1"
  proof (rule limbo_frame)
    show "queue_of s1 x = queue_of (pick_next s) x" for x by (cases x) (auto simp: s1)
  qed (auto simp: s1)
  have pr: "prio s1 = prio s" using th by auto
  have q1: "r_queue s1 = q" using pn(4) r s1 by simp
  have "kinv0 (ready_at ys me s1)"
    by (rule kinv0_ready_at [OF L]) (use ys q1 pr th cs hme in auto)
  moreover have st: "state_of (ready_at ys me s1) x = (if x = h then THD_STATE_CURRENT
      else if x = me then THD_STATE_READY else state_of s x)" for x
    using th hme by auto
  have fr: "currp s1 = h" "idle_thread s1 = idle_thread s" "vts s1 = vts s" "vtlist s1 = vtlist s"
    using pn(2,6,7,8) r s1 by simp_all
  have "cur_ok (ready_at ys me s1)" using k(2) fr unfolding cur_ok_def st by (auto simp: me)
  moreover have "idle_ok (ready_at ys me s1)" using k(3) unfolding idle_ok_def st by (auto simp: fr)
  moreover have "vt_pos (ready_at ys me s1)" using k(4) fr by (simp add: vt_pos_hd)
  moreover have "prio_ok (ready_at ys me s1)"
    unfolding prio_ok_def using ys(2) ge fr(1) th kinv_desc_ready [OF K] r by auto
  ultimately show "kinvS (ready_at ys me s1)" by (simp add: kinvS_def kinv_def)
  have am: "chVTIsArmedI v (ready_at ys me s1) = chVTIsArmedI v s" for v
    using fr by (simp add: chVTIsArmedI_def)
  show "guar me s (ready_at ys me s1)" unfolding guar_def
  proof (intro allI impI)
    fix x assume x: "x \<noteq> me"
    show "rely x s (ready_at ys me s1)"
    proof (cases "x = h")
      case True
      show ?thesis by (rule rely_ready) (use True x th hs am fr in auto)
    next
      case False
      show ?thesis by (rule rely_frame) (use False x th am fr in auto)
    qed
  qed
  show "rely me s (ready_at ys me s1)"
    by (rule rely_ready) (use th cs hme am fr in auto)
qed

lemma safe_switch_ready:
  assumes K: "kinvL s" and me: "me = currp s"
    and r: "kinvS s3" "guar me s s3" "rely me s s3"
  shows "safe me (\<lambda>_ s'. kinvU s' \<and> currp s' = me \<and> rely me s s') s (chSysSwitch s3)"
  unfolding chSysSwitch_def
proof (rule safe_Switch [OF r(2,1)])
  fix s' assume s': "kinvS s'" "currp s' = me" "rely me s3 s'"
  have R: "rely me s s'" using rely_trans [OF r(3) s'(3)] .
  have "kinv s" "\<not> chVTIsArmedI (OnStack me) s" using K me by (simp_all add: kinvL_def)
  then have "kinvU s'"
    using kinvS_rely_U [OF s'(1), of s] R s'(2) cur_state [of s] me by simp
  then show "safe me (\<lambda>_ s'. kinvU s' \<and> currp s' = me \<and> rely me s s') s' (Done () s')"
    using s' R by (intro safe_Done) auto
qed

lemma reschedule_safe:
  assumes K: "kinvL s" and me: "me = currp s" and ge: "prio s me \<le> firstprio s"
  shows "safe me (\<lambda>_ s'. kinvU s' \<and> currp s' = me \<and> rely me s s') s (chSchDoRescheduleBehind s)"
    and "safe me (\<lambda>_ s'. kinvU s' \<and> currp s' = me \<and> rely me s s') s (chSchDoRescheduleAhead s)"
proof -
  have K': "kinv s" using K by (simp add: kinvL_def)
  obtain h q where r: "r_queue s = h # q" and hp: "prio s me \<le> prio s h"
    using firstprio_pos [OF K'] ge me by metis
  have d: "distinct q" "me \<notin> set q" "desc (prio s) q"
    using kinv_distinct_ready [OF K'] kinv_desc_ready [OF K'] kinv_ready_state [OF K', of me]
      cur_state [OF K'] r me by auto
  let ?b = "upd_thd me (\<lambda>t. t\<lparr>p_preempt := CH_TIME_QUANTUM\<rparr>) (pick_next s)"
  have rb: "r_queue ?b = q" "prio ?b = prio s" using r by (auto simp: pick_next_def)
  have ra: "r_queue (pick_next s) = q" "prio (pick_next s) = prio s" using r by (auto simp: pick_next_def)
  have B: "chSchDoRescheduleBehind s = chSysSwitch (ready_at (ins_behind (prio s) me q) me ?b)"
    unfolding chSchDoRescheduleBehind_def Let_def chSchReadyI_at me [symmetric] rb ..
  show "safe me (\<lambda>_ s'. kinvU s' \<and> currp s' = me \<and> rely me s s') s (chSchDoRescheduleBehind s)"
    unfolding B
    by (intro safe_switch_ready [OF K me] switch_ready [OF K' me r hp _ _ _ refl])
      (use d in \<open>auto intro: desc_ins_behind\<close>)
  have eq: "pick_next s = upd_thd me (\<lambda>t. t\<lparr>p_preempt := p_preempt (thd (pick_next s) me)\<rparr>) (pick_next s)"
    by simp
  have pa: "prio (upd_thd me (\<lambda>t. t\<lparr>p_state := THD_STATE_READY\<rparr>) (pick_next s)) = prio s"
    using ra(2) by (auto simp: fun_eq_iff)
  have A: "chSchDoRescheduleAhead s = chSysSwitch (ready_at (ins_ahead (prio s) me q) me (pick_next s))"
    unfolding chSchDoRescheduleAhead_def Let_def me [symmetric] pa ready_at_def using ra(1) by simp
  show "safe me (\<lambda>_ s'. kinvU s' \<and> currp s' = me \<and> rely me s s') s (chSchDoRescheduleAhead s)"
    unfolding A
    by (intro safe_switch_ready [OF K me] switch_ready [OF K' me r hp _ _ _ eq])
      (use d in \<open>auto intro: desc_ins_ahead\<close>)
qed

text \<open>What the rescheduling functions establish, from any locked state.\<close>

abbreviation returns :: "addr \<Rightarrow> kstate \<Rightarrow> 'a \<Rightarrow> kstate \<Rightarrow> bool" where
  "returns me s \<equiv> (\<lambda>_ s'. kinvU s' \<and> currp s' = me \<and> rely me s s')"

lemma chSchRescheduleS_safe:
  assumes K: "kinvL s" and me: "me = currp s"
  shows "safe me (returns me s) s (chSchRescheduleS s)"
proof (cases "chSchIsRescRequiredI s")
  case True
  then show ?thesis
    using reschedule_safe(2) [OF K me] me by (simp add: chSchRescheduleS_def chSchIsRescRequiredI_def)
next
  case False
  then have "prio_ok s" using prio_ok_firstprio K by (simp add: kinvL_def chSchIsRescRequiredI_def)
  then show ?thesis
    using False K me by (auto simp: chSchRescheduleS_def kinvU_L intro!: safe_Done)
qed

lemma chSchDoYieldS_safe:
  assumes K: "kinvU s" and me: "me = currp s"
  shows "safe me (returns me s) s (chSchDoYieldS s)"
proof (cases "chSchCanYieldS s")
  case True
  then show ?thesis
    using reschedule_safe(1) [of s me] K me
    by (simp add: chSchDoYieldS_def chSchCanYieldS_def kinvU_L)
qed (use K me in \<open>auto simp: chSchDoYieldS_def intro!: safe_Done\<close>)

lemma chSchPreemption_safe:
  assumes K: "kinvL s" and me: "me = currp s"
  shows "safe me (returns me s) s (chSchPreemption s)"
proof -
  have K': "kinv s" using K by (simp add: kinvL_def)
  have "safe me (returns me s) s (Done () s)" if "\<not> prio s me < firstprio s"
    using that K me prio_ok_firstprio [OF K'] by (auto intro!: safe_Done simp: kinvU_L)
  then show ?thesis
    using reschedule_safe [OF K me] me by (auto simp: chSchPreemption_def Let_def not_le)
qed

text \<open>The two ways the port layer preempts are the same.\<close>

lemma chSchPreemption_eq:
  "chSchPreemption s = (if chSchIsPreemptionRequired s then chSchDoReschedule s else Done () s)"
  by (simp add: chSchPreemption_def chSchIsPreemptionRequired_def chSchDoReschedule_def Let_def)

section \<open>Waking a thread\<close>

lemma rely_cong:
  "rely x s s1 \<Longrightarrow> thd s' x = thd s1 x \<Longrightarrow> vts s' = vts s1 \<Longrightarrow> idle_thread s' = idle_thread s1 \<Longrightarrow>
   rely x s s'"
  by (simp add: rely_def chVTIsArmedI_def)

lemma safe_Switch_back:
  assumes K: "kinvS s2" and g: "guar me s s2" and R: "rely me s1 s2"
    and u: "\<not> chVTIsArmedI (OnStack me) s1" and st: "state_of s1 me \<noteq> THD_STATE_FINAL"
  shows "safe me (returns me s1) s (chSysSwitch s2)"
  unfolding chSysSwitch_def
proof (rule safe_Switch [OF g K])
  fix s' assume s': "kinvS s'" "currp s' = me" "rely me s2 s'"
  have R': "rely me s1 s'" using rely_trans [OF R s'(3)] .
  then have "kinvU s'" using kinvS_rely_U [OF s'(1), of s1] s'(2) u st by simp
  then show "safe me (returns me s1) s' (Done () s')" using s' R' by (intro safe_Done) auto
qed

lemma make_current_ready_commute:
  assumes "ntp \<noteq> me"
  shows "make_current ntp (chSchReadyI me s) = chSchReadyI me (make_current ntp s)"
proof -
  have "prio (make_current ntp s) = prio s" by auto
  then show ?thesis using assms
    by (intro kstate.equality) (auto simp: chSchReadyI_at ready_at_def make_current_def fun_upd_twist)
qed

text \<open>
  \<open>chSchWakeupS\<close> for a thread in limbo: whoever of the two has the higher priority runs on,
  so the running thread has the highest priority afterwards as well.
\<close>

lemma chSchWakeupS_safe:
  assumes L: "limbo ntp s1" and C: "cur_ok s1" and I: "idle_ok s1" and pos: "vt_pos s1"
    and me: "me = currp s1" and un: "\<not> chVTIsArmedI (OnStack me) s1"
    and st: "state_of s1 ntp \<notin> {THD_STATE_FINAL, THD_STATE_CURRENT}"
    and pr: "prio s1 ntp \<le> prio s1 me \<Longrightarrow> prio_ok s1"
      "prio s1 me < prio s1 ntp \<Longrightarrow> \<forall>x\<in>set (r_queue s1). prio s1 x \<le> prio s1 ntp"
    and oth: "\<And>x. x \<noteq> me \<Longrightarrow> x \<noteq> ntp \<Longrightarrow> rely x s s1"
    and nt: "\<And>st s'. runnable st \<Longrightarrow> thd s' ntp = (thd s1 ntp)\<lparr>p_u := msg, p_state := st\<rparr> \<Longrightarrow>
      vts s' = vts s1 \<Longrightarrow> idle_thread s' = idle_thread s1 \<Longrightarrow> rely ntp s s'"
  shows "safe me (returns me s1) s (chSchWakeupS ntp msg s1)"
proof -
  let ?s = "upd_thd ntp (\<lambda>t. t\<lparr>p_u := msg\<rparr>) s1"
  have cs: "state_of s1 me = THD_STATE_CURRENT" using C me by (simp add: cur_ok_def)
  have ne: "ntp \<noteq> me" using cs st by auto
  have q: "queue_of ?s r = queue_of s1 r" for r by (cases r) auto
  have L': "limbo ntp ?s" by (rule limbo_frame [OF L q]) auto
  have p: "prio ?s = prio s1" by auto
  show ?thesis
  proof (cases "prio s1 ntp \<le> prio s1 me")
    case True
    let ?s2 = "chSchReadyI ntp ?s"
    have "kinv0 ?s2" using kinv0_ready [OF L'] st by simp
    moreover have "cur_ok ?s2" using C st by (auto simp: cur_ok_def)
    moreover have "idle_ok ?s2" using I by (auto simp: idle_ok_def)
    moreover have "vt_pos ?s2" using pos by (simp add: vt_pos_hd)
    moreover have "prio_ok ?s2" using pr(1) [OF True] True me by (auto simp: prio_ok_def p)
    ultimately have "kinvU ?s2" using un me by (simp add: kinvU_def kinv_def chVTIsArmedI_def)
    moreover have "rely me s1 ?s2" by (rule rely_frame) (use ne in \<open>auto simp: chVTIsArmedI_def\<close>)
    moreover have "guar me s ?s2" unfolding guar_def
    proof (intro allI impI)
      fix x assume "x \<noteq> me"
      then show "rely x s ?s2"
        using rely_cong [OF oth, of x ?s2] nt [of THD_STATE_READY ?s2] by (cases "x = ntp") auto
    qed
    ultimately show ?thesis
      using True me p ne by (auto simp: chSchWakeupS_def Let_def intro!: safe_Done)
  next
    case False
    let ?m = "make_current ntp ?s"
    let ?s2 = "chSchReadyI me ?m"
    have m0: "kinv0 ?m" using kinv0_run [OF L'] st by simp
    have "limbo me ?m"
      by (rule limbo_unqueued [OF m0]) (use ne cs in \<open>simp add: place_ok_def\<close>)
    then have "kinv0 ?s2" using kinv0_ready [of me ?m] ne cs by simp
    moreover have "cur_ok ?s2" using C ne me by (auto simp: cur_ok_def)
    moreover have "idle_ok ?s2" using I by (auto simp: idle_ok_def)
    moreover have "vt_pos ?s2" using pos by (simp add: vt_pos_hd)
    moreover have "prio_ok ?s2" using pr(2) False ne by (auto simp: prio_ok_def)
    ultimately have K: "kinvS ?s2" by (simp add: kinvS_def kinv_def)
    have R: "rely me s1 ?s2" by (rule rely_ready) (use ne cs in \<open>auto simp: chVTIsArmedI_def\<close>)
    have "guar me s ?s2" unfolding guar_def
    proof (intro allI impI)
      fix x assume "x \<noteq> me"
      then show "rely x s ?s2"
        using rely_cong [OF oth, of x ?s2] nt [of THD_STATE_CURRENT ?s2] ne by (cases "x = ntp") auto
    qed
    then have "safe me (returns me s1) s (chSysSwitch ?s2)"
      using safe_Switch_back [OF K _ R un] cs by simp
    moreover have "chSchWakeupS ntp msg s1 = chSysSwitch ?s2"
      using False p me ne unfolding make_current_ready_commute [OF ne, symmetric]
      by (simp add: chSchWakeupS_def Let_def make_current_def)
    ultimately show ?thesis by simp
  qed
qed

text \<open>The usual case: a waiting thread is taken from its queue and woken.\<close>

lemma chSchWakeupS_detached:
  assumes K: "kinvU s" and me: "me = currp s" and d: "detached t s s1" and sm: "sems_ok s1"
    and st: "state_of s t \<notin> {THD_STATE_READY, THD_STATE_CURRENT, THD_STATE_FINAL, THD_STATE_WTMTX,
      THD_STATE_SNDMSGQ, THD_STATE_WTMSG, THD_STATE_WTOREVT, THD_STATE_WTANDEVT}"
    and u: "state_of s t \<in> {THD_STATE_WTSEM, THD_STATE_WTCOND, THD_STATE_WTQUEUE} \<Longrightarrow>
      msg \<in> {RDY_OK, RDY_RESET}"
  shows "safe me (returns me s1) s (chSchWakeupS t msg s1)"
proof -
  have k: "kinv0 s" "cur_ok s" "idle_ok s" "vt_pos s" "prio_ok s" "\<not> chVTIsArmedI (OnStack me) s"
    using K me by (simp_all add: kinvU_def kinv_def)
  have eq: "state_of s1 x = state_of s x" "p_mtxlist (thd s1 x) = p_mtxlist (thd s x)"
      "p_realprio (thd s1 x) = p_realprio (thd s x)" "p_msgqueue (thd s1 x) = p_msgqueue (thd s x)"
      "x \<noteq> t \<Longrightarrow> p_u (thd s1 x) = p_u (thd s x)" "currp s1 = currp s" "idle_thread s1 = idle_thread s"
      "vts s1 = vts s" "vtlist s1 = vtlist s" "prio s1 x = prio s x"
      "p_epending (thd s x) AND p_epending (thd s1 x) = p_epending (thd s x)" for x
    using d detached_msgqueue [OF k(1) d, of x] st by (simp_all add: detached_def)
  have "t \<notin> set (r_queue s)" using ready_state [of s t] k(1) st by (auto simp: kinv0_def)
  then have rq: "r_queue s1 = r_queue s"
    using d by (metis detached_def queue_of.simps(2) remove1_idem)
  show ?thesis
  proof (rule chSchWakeupS_safe)
    show "limbo t s1" using limbo_detached [OF k(1) d sm] st by simp
    show "cur_ok s1" "idle_ok s1" "vt_pos s1" "me = currp s1" "\<not> chVTIsArmedI (OnStack me) s1"
      using k eq me by (simp_all add: cur_ok_def idle_ok_def vt_pos_hd chVTIsArmedI_def)
    show "prio_ok s1" using k(5) eq rq by (simp add: prio_ok_def)
    then show "\<forall>x\<in>set (r_queue s1). prio s1 x \<le> prio s1 t" if "prio s1 me < prio s1 t"
      using that me eq(6) by (auto simp: prio_ok_def)
    show "rely x s s1" if "x \<noteq> me" "x \<noteq> t" for x
      by (rule rely_frame) (use that eq in \<open>auto simp: chVTIsArmedI_def\<close>)
    show "rely t s s'" if "runnable r" "thd s' t = (thd s1 t)\<lparr>p_u := msg, p_state := r\<rparr>"
        "vts s' = vts s1" "idle_thread s' = idle_thread s1" for r s'
      by (rule rely_ready) (use that eq st u in \<open>auto simp: chVTIsArmedI_def\<close>)
  qed (use eq st in auto)
qed

section \<open>Changes the invariant does not see\<close>

text \<open>
  \<open>same_core s s'\<close>: queues, states, priorities, mutexes and timers are as they were.
\<close>

definition same_core :: "kstate \<Rightarrow> kstate \<Rightarrow> bool" where
  "same_core s s' \<longleftrightarrow>
     (\<forall>r. queue_of s' r = queue_of s r) \<and>
     (\<forall>x. p_state (thd s' x) = p_state (thd s x) \<and> p_prio (thd s' x) = p_prio (thd s x) \<and>
        p_realprio (thd s' x) = p_realprio (thd s x) \<and> p_mtxlist (thd s' x) = p_mtxlist (thd s x) \<and>
        (p_state (thd s x) \<noteq> THD_STATE_CURRENT \<longrightarrow> p_u (thd s' x) = p_u (thd s x) \<and>
           p_epending (thd s x) AND p_epending (thd s' x) = p_epending (thd s x))) \<and>
     (\<forall>m. m_owner (mtx s' m) = m_owner (mtx s m)) \<and>
     vts s' = vts s \<and> vtlist s' = vtlist s \<and> currp s' = currp s \<and> idle_thread s' = idle_thread s"

lemma kinv_same_core:
  assumes K: "kinv s" and c: "same_core s s'" and sm: "sems_ok s'"
  shows "kinv s'"
proof -
  have eq: "state_of s' x = state_of s x" "prio s' x = prio s x" "p_realprio (thd s' x) = p_realprio (thd s x)"
      "p_mtxlist (thd s' x) = p_mtxlist (thd s x)" "m_owner (mtx s' m) = m_owner (mtx s m)"
      "vts s' = vts s" "vtlist s' = vtlist s" "currp s' = currp s" "idle_thread s' = idle_thread s"
      "queue_of s' r = queue_of s r" for x m r
    using c by (simp_all add: same_core_def)
  have mq: "m_queue (mtx s' m) = m_queue (mtx s m)" "p_waiting (thd s' x) = p_waiting (thd s x)" for m x
    using eq(10) [of "PMtx m"] eq(10) [of "PExit x"] by simp_all
  have "place_ok (thd s' x) p = place_ok (thd s x) p" for x p
    using c by (cases "state_of s x") (auto simp: same_core_def place_ok_def)
  moreover have "queue_of s' = queue_of s" using eq(10) by blast
  ultimately have "places s'" using K by (simp add: kinv_def kinv0_def places_def)
  moreover have "ordered s'" "live s'" "owners_ok s'"
    using K by (simp_all add: kinv_def kinv0_def ordered_def live_def owners_ok_def eq mq)
  moreover have "inheritance s'"
    by (rule inheritance_frame [of s]) (use K in \<open>simp_all add: kinv_def kinv0_def eq mq\<close>)
  moreover have "timers_ok s'"
    by (rule timers_ok_frame [of s]) (use K in \<open>simp_all add: kinv_def kinv0_def eq\<close>)
  moreover have "cur_ok s'" "idle_ok s'" "vt_pos s'"
    using K unfolding kinv_def cur_ok_def idle_ok_def vt_pos_hd eq by auto
  ultimately show ?thesis using sm by (simp add: kinv_def kinv0_def)
qed

lemma same_core_msgqueue: "same_core s s' \<Longrightarrow> p_msgqueue (thd s' x) = p_msgqueue (thd s x)"
  unfolding same_core_def by (metis queue_of.simps(7))

lemma same_core_guar:
  assumes K: "kinv s" and c: "same_core s s'" and me: "me = currp s"
  shows "guar me s s'"
  unfolding guar_def
proof (intro allI impI)
  fix x assume "x \<noteq> me"
  then have "state_of s x \<noteq> THD_STATE_CURRENT" using K me by (simp add: kinv_def cur_ok_def)
  then show "rely x s s'"
    by (intro rely_frame) (use c same_core_msgqueue [OF c] in \<open>auto simp: same_core_def chVTIsArmedI_def\<close>)
qed

lemma iclass_same_core:
  assumes K: "kinv s" and c: "same_core s s'" and sm: "sems_ok s'"
    and u: "p_u (thd s' (currp s)) = p_u (thd s (currp s))"
      "p_epending (thd s (currp s)) AND p_epending (thd s' (currp s)) = p_epending (thd s (currp s))"
  shows "iclass s s'"
proof -
  have "p_u (thd s' x) = p_u (thd s x) \<and> p_epending (thd s x) AND p_epending (thd s' x) = p_epending (thd s x)" for x
    using c u cur_state [OF K] K by (cases "x = currp s") (auto simp: same_core_def kinv_def cur_ok_def)
  then have "rely x s s'" for x
    by (intro rely_frame) (use c same_core_msgqueue [OF c] in \<open>auto simp: same_core_def chVTIsArmedI_def\<close>)
  then show ?thesis using kinv_same_core [OF K c sm] c by (simp add: iclass_def same_core_def)
qed

lemma same_core_prio_ok: "same_core s s' \<Longrightarrow> prio_ok s' \<longleftrightarrow> prio_ok s"
  unfolding prio_ok_def same_core_def by (metis queue_of.simps(2))

text \<open>An operation of the I class followed by a reschedule.\<close>

locale iclass_op =
  fixes f :: "kstate \<Rightarrow> kstate" and pre :: "kstate \<Rightarrow> bool"
  assumes keeps: "kinv s \<Longrightarrow> pre s \<Longrightarrow> iclass s (f s)"
begin

lemma then_reschedule:
  assumes K: "kinvL s" and p: "pre s" and me: "me = currp s"
  shows "safe me (returns me s) s (chSchRescheduleS (f s))"
proof -
  have i: "iclass s (f s)" using keeps p K by (simp add: kinvL_def)
  then have "rely me s (f s)" "me = currp (f s)" using me by (simp_all add: iclass_def)
  then have "safe me (returns me s) (f s) (chSchRescheduleS (f s))"
    using safe_mono [OF chSchRescheduleS_safe [OF iclass_L [OF i K]], of me "returns me s"] rely_trans by blast
  then show ?thesis by (rule safe_rebase) (rule iclass_guar [OF i])
qed

text \<open>The same from an interrupt handler: the epilogue preempts the interrupted thread.\<close>

lemma then_preempt:
  assumes K: "kinvL s" and p: "pre s" and me: "me = currp s"
  shows "safe me (returns me s) s (chSchPreemption (f s))"
proof -
  have i: "iclass s (f s)" using keeps p K by (simp add: kinvL_def)
  then have "rely me s (f s)" "me = currp (f s)" using me by (simp_all add: iclass_def)
  then have "safe me (returns me s) (f s) (chSchPreemption (f s))"
    using safe_mono [OF chSchPreemption_safe [OF iclass_L [OF i K]], of me "returns me s"] rely_trans by blast
  then show ?thesis by (rule safe_rebase) (rule iclass_guar [OF i])
qed

end

section \<open>What a blocking function returns with\<close>

text \<open>
  Whatever happened while it was suspended, the thread finds its own things as it left them:
  the mutexes it owns, its own priority, the messages sent to it and the events pending.
\<close>

definition kept :: "addr \<Rightarrow> kstate \<Rightarrow> kstate \<Rightarrow> bool" where
  "kept me s s' \<longleftrightarrow>
     p_mtxlist (thd s' me) = p_mtxlist (thd s me) \<and> p_realprio (thd s' me) = p_realprio (thd s me) \<and>
     (\<exists>ys. p_msgqueue (thd s' me) = p_msgqueue (thd s me) @ ys) \<and>
     p_epending (thd s me) AND p_epending (thd s' me) = p_epending (thd s me) \<and>
     idle_thread s' = idle_thread s"

definition returned :: "addr \<Rightarrow> kstate \<Rightarrow> kstate \<Rightarrow> bool" where
  "returned me s s' \<longleftrightarrow> kinvU s' \<and> currp s' = me \<and> kept me s s'"

lemma kept_refl [simp]: "kept me s s"
  by (simp add: kept_def)

lemma kept_trans: "kept me s s' \<Longrightarrow> kept me s' s'' \<Longrightarrow> kept me s s''"
  unfolding kept_def by (metis append_assoc and.assoc)

lemma rely_kept:
  "rely me s s' \<Longrightarrow> state_of s me \<notin> {THD_STATE_WTMTX, THD_STATE_FINAL} \<Longrightarrow> kept me s s'"
  by (auto simp: rely_def kept_def run_rely_def mtx_rely_def msg_rely_def evt_rely_def)

lemma kept_sleeping: "kept me (sleeping ns me s) s' \<longleftrightarrow> kept me s s'"
  by (simp add: kept_def)

lemma iclass_kept: "iclass s s' \<Longrightarrow> kinv s \<Longrightarrow> me = currp s \<Longrightarrow> kept me s s'"
  using cur_state [of s] by (intro rely_kept) (auto simp: iclass_def)

lemma returned_trans: "kept me s s1 \<Longrightarrow> returned me s1 s' \<Longrightarrow> returned me s s'"
  unfolding returned_def using kept_trans by blast

lemma returned_currp: "returned me s s' \<Longrightarrow> me = currp s'"
  by (simp add: returned_def)

lemma returned_kinvL: "returned me s s' \<Longrightarrow> kinvL s'"
  by (simp add: returned_def kinvU_L)

lemma safe_returned:
  assumes "safe me (returns me s1) s r" and "kept me s s1"
    and "state_of s1 me \<notin> {THD_STATE_WTMTX, THD_STATE_FINAL}"
  shows "safe me (\<lambda>_. returned me s) s r"
  using assms(1)
  by (rule safe_mono) (use rely_kept [OF _ assms(3)] kept_trans [OF assms(2)] in \<open>auto simp: returned_def\<close>)

lemma safe_Done_returned:
  "kinvU s' \<Longrightarrow> currp s' = me \<Longrightarrow> kept me s s' \<Longrightarrow> guar me s s' \<Longrightarrow> Q a s' \<Longrightarrow>
   safe me (\<lambda>a s'. returned me s s' \<and> Q a s') s (Done a s')"
  by (intro safe_Done) (auto simp: returned_def)

lemma parked_kept: "parked ns me p s s1 \<Longrightarrow> p_msgqueue (thd s1 me) = p_msgqueue (thd s me) \<Longrightarrow> kept me s s1"
  by (simp add: parked_def attached_def kept_def)

text \<open>Sleeping as the component theories use it.\<close>

lemma goSleep_returned:
  assumes K: "kinvL s" and cur: "me = currp s" and ni: "me \<noteq> idle_thread s"
    and p: "parked ns me p s s1" and mq: "p_msgqueue (thd s1 me) = p_msgqueue (thd s me)"
    and ns: "ns \<noteq> THD_STATE_WTMTX"
  shows "safe me (\<lambda>_ s'. returned me s s' \<and> rely me (sleeping ns me s1) s') s (chSchGoSleepS ns s1)"
proof (rule safe_mono [OF chSchGoSleepS_safe [OF K cur ni p]])
  fix a :: unit and s' assume s': "kinvU s' \<and> currp s' = me \<and> rely me (sleeping ns me s1) s'"
  have "ns \<noteq> THD_STATE_FINAL" using p by (simp add: parked_def)
  then have "kept me (sleeping ns me s1) s'" using s' ns by (intro rely_kept) auto
  then show "returned me s s' \<and> rely me (sleeping ns me s1) s'"
    using s' kept_trans [OF parked_kept [OF p mq]] by (auto simp: returned_def kept_sleeping)
qed

lemma arm_fields [simp]:
  "thd (arm time t s) = thd s" "currp (arm time t s) = currp s" "idle_thread (arm time t s) = idle_thread s"
  by (simp_all add: arm_def)

lemma goSleepTimeout_returned:
  assumes K: "kinvL s" and cur: "me = currp s" and ni: "me \<noteq> idle_thread s"
    and p: "parked ns me p s s1" and mq: "p_msgqueue (thd s1 me) = p_msgqueue (thd s me)"
    and tm: "time \<noteq> 0" "timed ns"
  shows "safe me (\<lambda>m s'. returned me s s' \<and> rely me (sleeping ns me (arm time me s1)) s' \<and> m = p_u (thd s' me)) s
    (chSchGoSleepTimeoutS ns time s1)"
proof (rule safe_mono [OF chSchGoSleepTimeoutS_safe [OF K cur ni p tm]])
  fix m s' assume s': "kinvU s' \<and> currp s' = me \<and> rely me (sleeping ns me (arm time me s1)) s' \<and> m = p_u (thd s' me)"
  have "ns \<noteq> THD_STATE_FINAL" "ns \<noteq> THD_STATE_WTMTX" using p tm by (auto simp: parked_def timed_def)
  then have "kept me (sleeping ns me (arm time me s1)) s'" using s' by (intro rely_kept) auto
  then have "kept me s1 s'" by (simp add: kept_def)
  then show "returned me s s' \<and> rely me (sleeping ns me (arm time me s1)) s' \<and> m = p_u (thd s' me)"
    using s' kept_trans [OF parked_kept [OF p mq]] by (auto simp: returned_def)
qed

text \<open>A sleeping function does nothing to the threads after it was resumed.\<close>

lemma goSleep_from:
  assumes "safe me Q s0 (chSchGoSleepS ns s1)"
  shows "safe_from me (\<lambda>b a s'. Q a s' \<and> thd s' = thd b) s0 (chSchGoSleepS ns s1)"
  using assms unfolding chSchGoSleepS_eq
  by (elim safe_SwitchE) (auto intro!: from_Switch from_Done)

lemma thd_unarm [simp]: "thd (if chVTIsArmedI v s then chVTResetI v s else s) = thd s"
  by simp

lemma goSleepTimeout_from:
  assumes "safe me Q s0 (chSchGoSleepTimeoutS ns time s1)"
  shows "safe_from me (\<lambda>b a s'. Q a s' \<and> thd s' = thd b) s0 (chSchGoSleepTimeoutS ns time s1)"
proof (cases "time = TIME_INFINITE")
  case True
  then show ?thesis using assms unfolding chSchGoSleepTimeoutS_def chSchGoSleepS_eq
    by (auto elim!: safe_SwitchE intro!: from_Switch from_Done)
next
  case False
  then show ?thesis using assms unfolding chSchGoSleepTimeoutS_def chSchGoSleepS_eq Let_def
    by (auto elim!: safe_SwitchE intro!: from_Switch from_Done simp del: upd_thd_def)
qed

text \<open>
  Where a sleeping function first gives up the processor: the state it has put the caller in.
\<close>

definition suspends :: "(kstate \<Rightarrow> bool) \<Rightarrow> 'a run \<Rightarrow> bool" where
  "suspends P r \<longleftrightarrow> (\<exists>s k. r = Switch s k \<and> P s)"

lemma suspends_bind [simp]: "suspends P r \<Longrightarrow> suspends P (rbind r f)"
  by (auto simp: suspends_def)

lemma pick_next_queue:
  assumes "r_queue s \<noteq> []" and "r \<noteq> PReady" shows "queue_of (pick_next s) r = queue_of s r"
  using assms by (cases "r_queue s"; cases r) (auto simp: pick_next_eq make_current_def)

text \<open>The state in which the sleeper has left its own record and the queues.\<close>

definition left_as :: "tstate \<Rightarrow> addr \<Rightarrow> kstate \<Rightarrow> kstate \<Rightarrow> bool" where
  "left_as ns me s1 s \<longleftrightarrow> kinvS s \<and> thd s me = (thd s1 me)\<lparr>p_state := ns, p_preempt := CH_TIME_QUANTUM\<rparr> \<and>
     vts s = vts s1 \<and> (\<forall>r. r \<noteq> PReady \<longrightarrow> queue_of s r = queue_of s1 r)"

lemma goSleep_suspends:
  assumes K: "kinvL s" and cur: "me = currp s" and ni: "me \<noteq> idle_thread s" and p: "parked ns me p s s1"
  shows "suspends (left_as ns me s1) (chSchGoSleepS ns s1)"
proof -
  have K': "kinv s" using K by (simp add: kinvL_def)
  have a: "attached me p s s1" "p \<noteq> PReady" using p by (simp_all add: parked_def)
  then have c1: "currp s1 = me" "r_queue s1 = r_queue s"
    using cur a(1) unfolding attached_def by (simp_all, metis queue_of.simps(2))
  have rq: "r_queue (sleeping ns me s1) \<noteq> []"
    using idle_ready [OF K'] ni cur c1(2) by (cases "r_queue s") auto
  note po = pick_next_other [OF K' ni [unfolded cur] a(1) [unfolded cur] a(2), folded cur, of ns]
  have "kinvS (pick_next (sleeping ns me s1))" by (rule parked_sleep [OF K cur ni p])
  then show ?thesis
    using po pick_next_queue [OF rq] by (auto simp: suspends_def chSchGoSleepS_eq c1 left_as_def)
qed

lemma goSleepTimeout_suspends:
  assumes K: "kinvL s" and cur: "me = currp s" and ni: "me \<noteq> idle_thread s" and p: "parked ns me p s s1"
    and tm: "time \<noteq> 0" "timed ns"
  shows "suspends (left_as ns me (arm time me s1)) (chSchGoSleepTimeoutS ns time s1)"
proof (cases "time = TIME_INFINITE")
  case True
  then show ?thesis using goSleep_suspends [OF K cur ni p]
    by (auto simp: chSchGoSleepTimeoutS_def arm_def intro!: suspends_bind)
next
  case False
  have K': "kinv s" using K by (simp add: kinvL_def)
  let ?s2 = "chVTSetI (OnStack me) time Wakeup me s1"
  have a: "attached me p s s1" "p \<noteq> PReady" using p by (simp_all add: parked_def)
  then have c1: "currp s1 = me" "r_queue s1 = r_queue s"
    using cur a(1) unfolding attached_def by (simp_all, metis queue_of.simps(2))
  have q: "queue_of ?s2 r = queue_of s1 r" for r by (cases r) simp_all
  have a2: "attached me p s ?s2" using a by (simp add: attached_def q)
  have rq: "r_queue (sleeping ns me ?s2) \<noteq> []"
    using idle_ready [OF K'] ni cur c1(2) by (cases "r_queue s") auto
  note po = pick_next_other [OF K' ni [unfolded cur] a2 [unfolded cur] a(2), folded cur, of ns]
  have "kinvS (pick_next (sleeping ns me ?s2))" by (rule parked_sleep(3) [OF K cur ni p tm])
  then have "suspends (left_as ns me ?s2) (chSchGoSleepS ns ?s2)"
    using po pick_next_queue [OF rq] c1 by (auto simp: suspends_def chSchGoSleepS_eq left_as_def)
  then show ?thesis using False c1 by (auto simp: chSchGoSleepTimeoutS_def arm_def Let_def intro!: suspends_bind)
qed

text \<open>The wakeup message that a sleeper on a semaphore, condition or queue gets.\<close>

lemma rely_wait_msg:
  assumes R: "rely me (sleeping ns me s1) s'" and ns: "ns \<in> {THD_STATE_WTSEM, THD_STATE_WTCOND, THD_STATE_WTQUEUE}"
    and s': "kinv s'" "currp s' = me"
  shows "p_u (thd s' me) \<in> {RDY_OK, RDY_RESET} \<or> chVTIsArmedI (OnStack me) s1 \<and> p_u (thd s' me) = RDY_TIMEOUT"
proof -
  have "state_of s' me = THD_STATE_CURRENT" using cur_state [OF s'(1)] s'(2) by simp
  moreover have "ns \<noteq> THD_STATE_FINAL" using ns by auto
  then have "wait_rely (chVTIsArmedI (OnStack me) (sleeping ns me s1)) (thd (sleeping ns me s1) me) (thd s' me)"
    using R by (simp add: rely_def)
  ultimately show ?thesis using ns by (auto simp: wait_rely_def chVTIsArmedI_def)
qed

lemma kinvU_iclass: "kinvU s \<Longrightarrow> iclass s s' \<Longrightarrow> prio_ok s' \<Longrightarrow> kinvU s'"
  using iclass_L by (auto simp: kinvU_L)

lemma safe_iclass_Done:
  assumes K: "kinvU s" and i: "iclass s s'" and p: "prio_ok s'" and me: "me = currp s" and Q: "Q a s'"
  shows "safe me (\<lambda>a s'. returned me s s' \<and> Q a s') s (Done a s')"
  using kinvU_iclass [OF K i p] iclass_kept [OF i _ me] iclass_guar [OF i] i me Q K
  by (intro safe_Done_returned) (auto simp: iclass_def kinvU_def)

end
