(* ===== verification/SampleSystem.thy ===== *)
theory SampleSystem
  imports SafeRuns
begin

text \<open>
  A state to evaluate the properties on: thread \<open>4096\<close> runs and owns mutex \<open>512\<close>, for which
  thread \<open>16384\<close> waits and lends it its priority; thread \<open>12288\<close> waits on semaphore \<open>256\<close>
  with a timeout of 5 ticks and owns mutex \<open>640\<close>; thread \<open>20480\<close>, of the same priority, is ready and \<open>8192\<close> is the
  idle thread; thread \<open>24576\<close> waits on condition variable \<open>768\<close> and \<open>28672\<close> is suspended.
  The event source \<open>900\<close> has no listener.
\<close>

definition blank_thread :: Thread where
  "blank_thread = \<lparr>p_prio = 0, p_name = NULL, p_state = THD_STATE_FINAL, p_flags = 0, p_refs = 0,
     p_preempt = 0, p_time = 0, p_u = 0, p_waiting = [], p_msgqueue = [], p_msg = 0, p_epending = 0,
     p_mtxlist = [], p_realprio = 0, p_mpool = NULL\<rparr>"

definition sample_thread :: "tprio_t \<Rightarrow> tprio_t \<Rightarrow> tstate \<Rightarrow> u32 \<Rightarrow> addr list \<Rightarrow> Thread" where
  "sample_thread p r st u ml = blank_thread\<lparr>p_prio := p, p_realprio := r, p_state := st, p_u := u,
     p_mtxlist := ml, p_preempt := 5, p_refs := 1\<rparr>"

definition sample_threads :: "addr \<Rightarrow> Thread" where
  "sample_threads = (\<lambda>_. blank_thread)(
     4096 := sample_thread 80 64 THD_STATE_CURRENT 0 [512],
     8192 := sample_thread 1 1 THD_STATE_READY 0 [],
     12288 := sample_thread 70 70 THD_STATE_WTSEM 256 [640],
     16384 := sample_thread 80 80 THD_STATE_WTMTX 512 [],
     20480 := sample_thread 80 80 THD_STATE_READY 0 [],
     24576 := sample_thread 90 90 THD_STATE_WTCOND 768 [],
     28672 := sample_thread 100 100 THD_STATE_SUSPENDED 0 [])"

definition sample_registry :: links where
  "sample_registry = fold (\<lambda>t. queue_insert t 64) [4096, 8192, 12288, 16384, 20480, 24576, 28672]
     (queue_init 64 \<lparr>p_next = (\<lambda>_. 0), p_prev = (\<lambda>_. 0), prio_of = (\<lambda>_. 0)\<rparr>)"

definition sample :: kstate where
  "sample = \<lparr>rlist = 64, r_queue = [20480, 8192], currp = 4096,
     registry = sample_registry, thd = sample_threads,
     sem = (\<lambda>_. \<lparr>s_queue = [], s_cnt = 0\<rparr>)(256 := \<lparr>s_queue = [12288], s_cnt = - 1\<rparr>),
     mtx = (\<lambda>_. \<lparr>m_queue = [], m_owner = NULL\<rparr>)(512 := \<lparr>m_queue = [16384], m_owner = 4096\<rparr>,
       640 := \<lparr>m_queue = [], m_owner = 12288\<rparr>),
     cond = (\<lambda>_. \<lparr>c_queue = []\<rparr>)(768 := \<lparr>c_queue = [24576]\<rparr>),
     el_next = (\<lambda>_. 0)(900 := 900), evl = (\<lambda>_. \<lparr>el_listener = NULL, el_mask = 0, el_flags = 0\<rparr>),
     mbx = (\<lambda>_. \<lparr>mb_buffer = 0, mb_top = 0, mb_wrptr = 0, mb_rdptr = 0\<rparr>),
     ioq = (\<lambda>_. \<lparr>q_waiting = [], q_counter = 0, q_buffer = 0, q_top = 0, q_wrptr = 0, q_rdptr = 0,
       q_notify = 0, q_link = 0\<rparr>),
     vts = (\<lambda>_. \<lparr>vt_time = 0, vt_func = None, vt_par = 0\<rparr>)
       (OnStack 12288 := \<lparr>vt_time = 5, vt_func = Some Wakeup, vt_par = 12288\<rparr>),
     vtlist = [OnStack 12288], vt_systime = 100, mem8 = (\<lambda>_. 0), mem32 = (\<lambda>_. 0),
     nextmem = 32768, endmem = 36864, pools = (\<lambda>_. \<lparr>mp_next = 0, mp_object_size = 64, mp_provider = None\<rparr>),
     h_provider = (\<lambda>_. None)(1024 := Some CoreAlloc), default_heap = 1024,
     idle_thread = 8192\<rparr>"

lemmas sample_defs = sample_def sample_threads_def sample_thread_def blank_thread_def

lemma sample_fields [simp]:
  "currp sample = 4096" "idle_thread sample = 8192" "r_queue sample = [20480, 8192]"
  "sem sample = (\<lambda>_. \<lparr>s_queue = [], s_cnt = 0\<rparr>)(256 := \<lparr>s_queue = [12288], s_cnt = - 1\<rparr>)"
  "mtx sample = (\<lambda>_. \<lparr>m_queue = [], m_owner = NULL\<rparr>)(512 := \<lparr>m_queue = [16384], m_owner = 4096\<rparr>,
       640 := \<lparr>m_queue = [], m_owner = 12288\<rparr>)"
  "cond sample = (\<lambda>_. \<lparr>c_queue = []\<rparr>)(768 := \<lparr>c_queue = [24576]\<rparr>)"
  "vtlist sample = [OnStack 12288]" "vt_systime sample = 100" "el_next sample = (\<lambda>_. 0)(900 := 900)"
  by (simp_all add: sample_def)

lemma sample_places: "places sample"
proof -
  let ?L = "(\<lambda>_. PNone)(8192 := PReady, 12288 := PSem 256, 16384 := PMtx 512, 20480 := PReady,
    24576 := PCond 768)"
  have "place_ok (thd sample t) (?L t)" for t
    by (simp add: sample_defs place_ok_def)
  moreover have "linked ?L (queue_of sample)"
    unfolding linked_def
  proof (intro allI impI)
    fix p assume "p \<noteq> PNone"
    then show "distinct (queue_of sample p) \<and> (\<forall>t. t \<in> set (queue_of sample p) \<longleftrightarrow> ?L t = p)"
      by (cases p) (auto simp: sample_defs)
  qed
  ultimately show ?thesis unfolding places_def by blast
qed

lemma sample_ordered: "ordered sample"
  unfolding ordered_def
proof (intro allI impI)
  fix p assume "prio_queue p"
  then show "desc (prio sample) (queue_of sample p)" by (cases p) (auto simp: sample_defs)
qed

lemma sample_kinvU: "kinvU sample"
proof -
  have "live sample" "sems_ok sample" "owners_ok sample"
    by (auto simp: live_def sems_ok_def owners_ok_def sample_defs)
  moreover have "inheritance sample"
    by (auto simp: inheritance_def inherits_def sample_defs)
  moreover have "timers_ok sample"
    by (auto simp: timers_ok_def vt_wf_def chVTIsArmedI_def timed_def sample_defs)
  moreover have "cur_ok sample" "idle_ok sample" "vt_pos sample" "prio_ok sample"
      "\<not> chVTIsArmedI (OnStack (currp sample)) sample"
    by (auto simp: cur_ok_def idle_ok_def vt_pos_def prio_ok_def chVTIsArmedI_def sample_defs)
  ultimately show ?thesis
    using sample_places sample_ordered by (simp add: kinvU_def kinv_def kinv0_def)
qed

lemma sample_kinv: "kinv sample"
  using sample_kinvU by (simp add: kinvU_def)

end
