(* ===== verification/SchedulerCorrect.thy ===== *)
theory SchedulerCorrect
  imports SampleSystem
begin

text \<open>
  The properties of the virtual timers and of the scheduler: the delta list against the map
  of remaining ticks, the tick, the time functions, and what rescheduling, round-robin
  preemption and waking do to the ready list.
\<close>

section \<open>Virtual timers\<close>

text \<open>
  C8: arming a timer that is not armed adds exactly its delay to the abstract view of the
  timers and leaves the remaining time of every other timer as it is, although the code
  rewrites the delta of a neighbour; the delta list stays well formed.  Disarming an armed
  timer removes exactly its entry.
\<close>

theorem vt_set_reset_exact:
  assumes "vt_wf s"
  shows "(\<not> chVTIsArmedI v s \<longrightarrow> vt_wf (chVTSetI v time f a s) \<and>
      ticks_left (chVTSetI v time f a s) = (ticks_left s)(v \<mapsto> unat time)) \<and>
    (chVTIsArmedI v s \<longrightarrow> vt_wf (chVTResetI v s) \<and>
      ticks_left (chVTResetI v s) = (ticks_left s)(v := None))"
proof (intro conjI impI)
  assume "\<not> chVTIsArmedI v s"
  moreover from this have "v \<notin> set (vtlist s)" "distinct (vtlist s)" using assms by (auto simp: vt_wf_def)
  ultimately show "vt_wf (chVTSetI v time f a s)"
    "ticks_left (chVTSetI v time f a s) = (ticks_left s)(v \<mapsto> unat time)"
    using assms by (simp_all add: vt_wf_chVTSetI chVTSetI_ticks_left)
next
  assume a: "chVTIsArmedI v s"
  then obtain passed rest where "vtlist s = passed @ v # rest" using assms by (metis vt_wf_def split_list)
  then show "vt_wf (chVTResetI v s)" "ticks_left (chVTResetI v s) = (ticks_left s)(v := None)"
    using assms a vt_wf_chVTResetI chVTResetI_delta(3) by blast+
qed

lemma sample_timers: "vt_wf sample" "vt_pos sample" "callbacks_in (\<lambda>f. f = Wakeup) sample"
  using sample_kinv by (simp_all add: kinv_def kinv0_def timers_ok_def)
    (auto simp: sample_def callbacks_in_def split: if_splits)

definition due_sample :: kstate where
  "due_sample = upd_vt (OnStack 12288) (\<lambda>v. v\<lparr>vt_time := 1\<rparr>) sample"

lemma due_sample_timers: "vt_wf due_sample" "vt_pos due_sample" "callbacks_in (\<lambda>f. f = Wakeup) due_sample"
  by (auto simp: due_sample_def sample_def vt_wf_def vt_pos_def callbacks_in_def chVTIsArmedI_def delta_sum_def
      split: if_splits)

theorem vt_set_reset_exact_witness:
  "vt_wf sample \<and> \<not> chVTIsArmedI (AtAddr 48) sample \<and>
   ticks_left (chVTSetI (AtAddr 48) 3 Wakeup 0 sample) = (ticks_left sample)(AtAddr 48 \<mapsto> 3)"
proof -
  have "\<not> chVTIsArmedI (AtAddr 48) sample" by (simp add: sample_def chVTIsArmedI_def)
  then show ?thesis
    using vt_set_reset_exact [OF sample_timers(1), of "AtAddr 48" 3 Wakeup 0] sample_timers(1) by simp
qed

lemma wakeup_fold:
  assumes "callbacks_in (\<lambda>f. f = Wakeup) s" and "\<And>v. v \<in> set vs \<Longrightarrow> vt_func (vts s v) \<noteq> None"
  shows "fold (\<lambda>v t. vt_call user (the (vt_func (vts s v))) (vt_par (vts s v)) (vt_off v t)) vs t =
    fold (\<lambda>v t. wakeup (vt_par (vts s v)) (vt_off v t)) vs t"
proof (rule fold_cong)
  fix v assume "v \<in> set vs"
  then obtain f where "vt_func (vts s v) = Some f" using assms(2) by auto
  then have "vt_func (vts s v) = Some Wakeup" using assms(1) by (auto simp: callbacks_in_def)
  then show "(\<lambda>t. vt_call user (the (vt_func (vts s v))) (vt_par (vts s v)) (vt_off v t)) =
      (\<lambda>t. wakeup (vt_par (vts s v)) (vt_off v t))" by (simp add: vt_call_def)
qed simp_all

lemma wakeup_ready:
  "state_of s t \<noteq> THD_STATE_READY \<Longrightarrow>
   state_of (wakeup t s) t = THD_STATE_READY \<and> p_u (thd (wakeup t s) t) = RDY_TIMEOUT"
  by (cases "state_of s t") (simp_all add: wakeup_def chSchReadyI_def Let_def)

lemma due_armed:
  assumes "vt_wf s" "v \<in> set (due s)" shows "vt_func (vts s v) \<noteq> None"
proof -
  have "v \<in> set (vtlist s)" using assms(2) by (auto simp: due_def dest: set_takeWhileD)
  then show ?thesis using assms(1) by (auto simp: vt_wf_def chVTIsArmedI_def)
qed

text \<open>
  C9: the system tick.  With no timer due beforehand and every armed timer a sleep timeout,
  the ticker returns; the system time advances by one, every timer gets nearer by one tick, and
  exactly those with one tick left are fired.  To fire is made precise: the state after the tick is
  that of taking these timers from the list one after the other, in list order and each once, and
  calling \<open>wakeup\<close> after each removal with the parameter the timer was armed with; no other
  callback is called.
\<close>

theorem tick_exact:
  assumes "vt_wf s" and "vt_pos s" and "callbacks_in (\<lambda>f. f = Wakeup) s"
  shows "\<exists>s'. chVTDoTickI (vt_call user) s = Some s' \<and> vt_systime s' = vt_systime s + 1 \<and>
    ticks_left s' = tick_view (ticks_left s) \<and>
    set (due s) = {v. ticks_left s v = Some 1} \<and> distinct (due s) \<and>
    s' = fold (\<lambda>v t. wakeup (vt_par (vts s v)) (vt_off v t)) (due s) (vt_down s)"
proof -
  have "chVTDoTickI (vt_call user) s = Some (fold (\<lambda>v t. wakeup (vt_par (vts s v)) (vt_off v t)) (due s) (vt_down s))"
    using kernel_timers.tick_calls [OF assms] wakeup_fold [OF assms(3), of "due s"] due_armed [OF assms(1)] by simp
  then show ?thesis using kernel_timers.tick_effect [OF assms, of user] set_due [OF assms(1,2)] by auto
qed

theorem tick_exact_witness:
  "\<exists>s'. chVTDoTickI (vt_call (\<lambda>_ _ s. s)) due_sample = Some s' \<and> vt_systime s' = 101 \<and>
     ticks_left s' = Map.empty \<and> state_of s' 12288 = THD_STATE_READY \<and> p_u (thd s' 12288) = RDY_TIMEOUT"
proof -
  have "ticks_left due_sample = [OnStack 12288 \<mapsto> 1]"
    by (rule ext) (simp add: ticks_left_def due_sample_def sample_def Let_def)
  then have "tick_view (ticks_left due_sample) = Map.empty"
    by (intro ext) (simp add: tick_view_def)
  moreover have d: "due due_sample = [OnStack 12288]" "vt_par (vts due_sample (OnStack 12288)) = 12288"
    by (simp_all add: due_def due_sample_def sample_def vt_dec_def)
  moreover have "vt_systime due_sample = 100" by (simp add: due_sample_def)
  moreover have "state_of (vt_off (OnStack 12288) (vt_down due_sample)) 12288 = THD_STATE_WTSEM"
    by (simp add: due_sample_def vt_down_def vt_dec_def vt_off_def sample_defs)
  ultimately show ?thesis
    using tick_exact [OF due_sample_timers, of "\<lambda>_ _ s. s"]
      wakeup_ready [of "vt_off (OnStack 12288) (vt_down due_sample)" 12288] by auto
qed

text \<open>
  The function \<open>chTimeIsWithin\<close> is right across the wrap of the system time: for a window that is not
  empty it holds exactly when the time passed since the start, modulo \<open>2^32\<close>, is less than the
  length of the window modulo \<open>2^32\<close>.
\<close>

theorem time_is_within_modular:
  assumes "start \<noteq> end"
  shows "chTimeIsWithin start end s \<longleftrightarrow> chTimeNow s - start < end - start"
proof -
  have *: "a - b < c - b \<longleftrightarrow> (if b < c then b \<le> a \<and> a < c else b \<le> a \<or> a < c)" if "b \<noteq> c" for a b c :: u32
  proof -
    have "unat a < 4294967296" "unat b < 4294967296" "unat c < 4294967296"
      using unsigned_less [of a] unsigned_less [of b] unsigned_less [of c] by simp_all
    moreover have "unat b \<noteq> unat c" using that by (metis unsigned_word_eqI)
    ultimately show ?thesis
      by (simp add: word_less_nat_alt word_le_nat_alt unat_sub_if') linarith
  qed
  show ?thesis using * [OF assms] by (simp add: chTimeIsWithin_def Let_def)
qed

theorem time_is_within_modular_witness:
  "chTimeIsWithin (- 5) 10 (sample\<lparr>vt_systime := 3\<rparr>)"
  using time_is_within_modular [of "- 5" 10 "sample\<lparr>vt_systime := 3\<rparr>"] by (simp add: chTimeNow_def)

lemma minus_one_sdiv:
  assumes "0 < (k :: int)" "0 < d" shows "(k - 1) sdiv d + 1 = (k + d - 1) div d"
proof -
  have "(k - 1) sdiv d = (k - 1) div d" using assms by (simp add: signed_divide_int_def sgn_if)
  moreover have "(k + d - 1) div d = (k - 1) div d + 1"
    using div_add_self2 [of d "k - 1"] assms by (simp add: algebra_simps)
  ultimately show ?thesis by simp
qed

text \<open>
  The conversion macros at the configured frequency of 1000 Hz, for a positive argument
  whose product with the frequency fits an \<^verbatim>\<open>int\<close>: milliseconds are converted exactly and
  microseconds are rounded up to the next tick.  A zero argument gives one tick, not none.
\<close>

theorem time_conversions:
  assumes "0 < sint t" and "sint t * 1000 < 2147483648"
  shows "MS2ST t = t \<and> sint (US2ST t) = (sint t + 999) div 1000 \<and> MS2ST 0 = 1 \<and> US2ST 0 = 1"
proof -
  have m: "sint (t * 1000) = sint t * 1000" using assms sint_times32 [of t 1000] by simp
  then have m1: "sint (t * 1000 - 1) = sint t * 1000 - 1" using sint_dec [of "t * 1000"] assms by simp
  have "(sint t * 1000 + 1000 - 1) div 1000 = sint t" using assms by simp
  then have "MS2ST t = t"
    using minus_one_sdiv [of "sint t * 1000" 1000] assms by (simp add: MS2ST_def CH_FREQUENCY_def m1)
  moreover have us: "(sint t * 1000 + 1000000 - 1) div 1000000 = (sint t + 999) div 1000"
  proof -
    have "(sint t * 1000 + 1000000 - 1) div 1000000 = (sint t * 1000 + 999999) div 1000 div 1000"
      by (simp add: zdiv_zmult2_eq [symmetric])
    also have "(sint t * 1000 + 999999) div 1000 = sint t + 999" by simp
    finally show ?thesis .
  qed
  have "US2ST t = word_of_int ((sint t + 999) div 1000)"
    using minus_one_sdiv [of "sint t * 1000" 1000000] us assms by (simp add: US2ST_def CH_FREQUENCY_def m1)
  then have "sint (US2ST t) = signed_take_bit 31 ((sint t + 999) div 1000)"
    by (simp add: signed_of_int)
  moreover have "signed_take_bit 31 ((sint t + 999) div 1000) = (sint t + 999) div 1000"
    using assms by (intro signed_take_bit_int_eq_self) auto
  moreover have "MS2ST 0 = 1" "US2ST 0 = 1"
    by (simp_all add: MS2ST_def US2ST_def signed_divide_int_def)
  ultimately show ?thesis by simp
qed

theorem time_conversions_witness:
  "MS2ST 250 = 250 \<and> sint (US2ST 1500) = 2 \<and> MS2ST 0 = 1"
  using time_conversions [of 250] time_conversions [of 1500] by simp

section \<open>The scheduler\<close>

lemma desc_takeWhile_ge:
  "desc key xs \<Longrightarrow> takeWhile (\<lambda>c. k \<le> key c) xs = filter (\<lambda>c. k \<le> key c) xs"
  "desc key xs \<Longrightarrow> dropWhile (\<lambda>c. k \<le> key c) xs = filter (\<lambda>c. key c < k) xs"
proof (induction xs)
  case (Cons x xs)
  { case 1
    then have "filter (\<lambda>c. k \<le> key c) xs = []" if "\<not> k \<le> key x"
      using that by (auto simp: filter_empty_conv)
    then show ?case using 1 Cons(1) by auto }
  { case 2
    then show ?case using Cons(2)
      by (cases "k \<le> key x") (auto simp: not_le intro!: filter_True [symmetric]) }
qed simp_all

text \<open>
  C3: \<open>chSchRescheduleS\<close>, from any locked state, gives the processor to a ready thread exactly
  when one has a higher priority than the running thread; the thread that runs then has the
  highest priority of all that can run.  The call is safe, and when it returns the caller is
  the running thread again with the highest priority.
\<close>

theorem reschedule_highest_priority:
  assumes K: "kinvL s" and me: "me = currp s"
  shows "safe me (\<lambda>_ s'. returned me s s' \<and> prio_ok s') s (chSchRescheduleS s) \<and>
    (if \<exists>t\<in>set (r_queue s). prio s me < prio s t
     then \<exists>s'. chSchRescheduleS s = chSysSwitch s' \<and>
       (\<forall>t. runnable (state_of s t) \<longrightarrow> prio s t \<le> prio s (currp s'))
     else chSchRescheduleS s = Done () s)"
proof
  have K': "kinv s" using K by (simp add: kinvL_def)
  have cs: "state_of s me = THD_STATE_CURRENT" using cur_state [OF K'] me by simp
  show "safe me (\<lambda>_ s'. returned me s s' \<and> prio_ok s') s (chSchRescheduleS s)"
    by (rule safe_mono [OF safe_returned [OF chSchRescheduleS_safe [OF K me] kept_refl]])
      (use cs in \<open>auto simp: returned_def kinvU_def\<close>)
  have req: "(\<exists>t\<in>set (r_queue s). prio s me < prio s t) \<longleftrightarrow> chSchIsRescRequiredI s"
    using prio_ok_firstprio [OF K'] me by (auto simp: prio_ok_def chSchIsRescRequiredI_def not_le)
  show "if \<exists>t\<in>set (r_queue s). prio s me < prio s t
     then \<exists>s'. chSchRescheduleS s = chSysSwitch s' \<and>
       (\<forall>t. runnable (state_of s t) \<longrightarrow> prio s t \<le> prio s (currp s'))
     else chSchRescheduleS s = Done () s"
  proof (cases "chSchIsRescRequiredI s")
    case True
    then obtain h q where r: "r_queue s = h # q" and hp: "prio s me < prio s h"
      using me by (cases "r_queue s") (auto simp: chSchIsRescRequiredI_def firstprio_def)
    have "prio s t \<le> prio s h" if "runnable (state_of s t)" for t
    proof (cases "t = me")
      case False
      then have "state_of s t = THD_STATE_READY" using that K' me by (auto simp: kinv_def cur_ok_def)
      then have "t \<in> set (r_queue s)"
        using places_queued [of s t] K' by (auto simp: kinv_def kinv0_def place_ok_def)
      then show ?thesis using kinv_desc_ready [OF K'] r by auto
    qed (use hp in simp)
    then show ?thesis
      using True r req by (auto simp: chSchRescheduleS_def chSchDoRescheduleAhead_def Let_def pick_next_def)
  qed (use req in \<open>simp add: chSchRescheduleS_def\<close>)
qed

theorem reschedule_highest_priority_witness:
  "kinvL sample \<and> chSchRescheduleS sample = Done () sample"
proof -
  have "kinvL sample" using sample_kinvU by (simp add: kinvU_L)
  moreover have "\<not> (\<exists>t\<in>set (r_queue sample). prio sample 4096 < prio sample t)"
    by (simp add: sample_defs)
  ultimately show ?thesis using reschedule_highest_priority [of sample 4096] by simp
qed

text \<open>
  C4: round robin.  When the running thread has used up its time quantum and a thread of the
  same priority is ready, preemption runs the first such thread; the preempted one is queued
  behind all threads of its priority and ahead of all of lower priority, with a new quantum.
  While its quantum lasts, threads of the same priority do not preempt it.
\<close>

theorem preemption_round_robin:
  assumes K: "kinvU s" and me: "me = currp s" and r: "r_queue s = h # q" and eq: "prio s h = prio s me"
  shows "if p_preempt (thd s me) = 0
    then \<exists>s'. chSchPreemption s = chSysSwitch s' \<and> currp s' = h \<and>
      r_queue s' = filter (\<lambda>t. prio s t = prio s me) q @ me # filter (\<lambda>t. prio s t < prio s me) q \<and>
      p_preempt (thd s' me) = CH_TIME_QUANTUM \<and> state_of s' me = THD_STATE_READY
    else chSchPreemption s = Done () s"
proof -
  have K': "kinv s" and P: "prio_ok s" using K by (simp_all add: kinvU_def)
  have ne: "h \<noteq> me"
    using kinv_ready_state [OF K', of h] cur_state [OF K'] r me by auto
  have d: "desc (prio s) q" and le: "\<forall>t\<in>set q. prio s t \<le> prio s me"
    using kinv_desc_ready [OF K'] r P me by (auto simp: prio_ok_def)
  have f: "ins_behind (prio s) me q =
      filter (\<lambda>t. prio s t = prio s me) q @ me # filter (\<lambda>t. prio s t < prio s me) q"
    using le desc_takeWhile_ge [OF d, of "prio s me"]
    by (auto simp: ins_behind_def intro!: filter_cong)
  have pr: "prio (upd_thd me (\<lambda>t. t\<lparr>p_preempt := CH_TIME_QUANTUM\<rparr>) (pick_next s)) = prio s"
    using r by (auto simp: pick_next_def)
  show ?thesis
  proof (cases "p_preempt (thd s me) = 0")
    case True
    let ?b = "upd_thd me (\<lambda>t. t\<lparr>p_preempt := CH_TIME_QUANTUM\<rparr>) (pick_next s)"
    have "chSchPreemption s = chSysSwitch (chSchReadyI me ?b)"
      using True r eq me by (simp add: chSchPreemption_def firstprio_def chSchDoRescheduleBehind_def Let_def)
    moreover have "r_queue ?b = q" "currp ?b = h" "thd ?b me = (thd s me)\<lparr>p_preempt := CH_TIME_QUANTUM\<rparr>"
      using r ne by (auto simp: pick_next_def)
    moreover from this have "r_queue (chSchReadyI me ?b) =
        filter (\<lambda>t. prio s t = prio s me) q @ me # filter (\<lambda>t. prio s t < prio s me) q"
      using f by (simp only: ready_r_queue pr)
    ultimately show ?thesis using True by (auto intro!: exI [of _ "chSchReadyI me ?b"])
  qed (use r eq me in \<open>simp add: chSchPreemption_def firstprio_def Let_def\<close>)
qed

theorem preemption_round_robin_witness:
  "r_queue sample = [20480, 8192] \<and> chSchPreemption sample = Done () sample"
proof -
  have "prio sample 20480 = prio sample 4096" "p_preempt (thd sample 4096) \<noteq> 0"
    by (simp_all add: sample_defs)
  then show ?thesis using preemption_round_robin [OF sample_kinvU, of 4096 20480 "[8192]"] by simp
qed

text \<open>
  C5: \<open>chSchWakeupS\<close> against \<open>chSchReadyI\<close> followed by \<open>chSchRescheduleS\<close>, to which the source
  calls it equivalent, for a thread of higher priority than the running one.  Both run the woken
  thread at once and leave the same threads ready; but the former puts the running thread behind
  the ready threads of its own priority and the latter ahead of them, so the two agree exactly
  when there is no such thread.
\<close>

theorem wakeup_loses_turn:
  assumes K: "kinvU s" and me: "me = currp s" and st: "state_of s t = THD_STATE_SUSPENDED"
    and hi: "prio s me < prio s t"
  shows "\<exists>sa sb. chSchWakeupS t msg s = chSysSwitch sa \<and>
    chSchRescheduleS (chSchReadyI t (upd_thd t (\<lambda>x. x\<lparr>p_u := msg\<rparr>) s)) = chSysSwitch sb \<and>
    currp sa = t \<and> currp sb = t \<and>
    r_queue sa = filter (\<lambda>x. prio s x = prio s me) (r_queue s) @ me #
      filter (\<lambda>x. prio s x < prio s me) (r_queue s) \<and>
    r_queue sb = me # r_queue s \<and>
    (r_queue sa = r_queue sb \<longleftrightarrow> (\<forall>x\<in>set (r_queue s). prio s x \<noteq> prio s me))"
proof -
  have K': "kinv s" and P: "prio_ok s" using K by (simp_all add: kinvU_def)
  have d: "desc (prio s) (r_queue s)" using kinv_desc_ready [OF K'] .
  have le: "\<forall>x\<in>set (r_queue s). prio s x \<le> prio s me" using P me by (auto simp: prio_ok_def)
  have ne: "t \<noteq> me" using hi by auto
  let ?s1 = "upd_thd t (\<lambda>x. x\<lparr>p_u := msg\<rparr>) s"
  let ?sa = "make_current t (chSchReadyI me ?s1)" and ?s2 = "chSchReadyI t ?s1"
  have p1: "prio ?s1 = prio s" "r_queue ?s1 = r_queue s" "currp ?s1 = me" using me by auto
  have "chSchWakeupS t msg s = chSysSwitch ?sa"
  proof -
    have "\<not> prio s t \<le> prio s (currp s)" using hi me by simp
    then show ?thesis using p1 ne by (simp add: chSchWakeupS_def Let_def make_current_def me)
  qed
  moreover have ra: "r_queue ?sa = filter (\<lambda>x. prio s x = prio s me) (r_queue s) @ me #
      filter (\<lambda>x. prio s x < prio s me) (r_queue s)"
    using le desc_takeWhile_ge [OF d, of "prio s me"] unfolding make_current_fields ready_r_queue p1
    by (auto simp: ins_behind_def intro!: filter_cong)
  have r2: "r_queue ?s2 = t # r_queue s" unfolding ready_r_queue p1
    using le hi by (cases "r_queue s") (auto simp: ins_behind_def)
  let ?p = "pick_next ?s2"
  have p2: "prio ?p = prio s" "r_queue ?p = r_queue s" "currp ?p = t"
    using r2 by (auto simp: pick_next_def)
  let ?sb = "(upd_thd me (\<lambda>x. x\<lparr>p_state := THD_STATE_READY\<rparr>) ?p)\<lparr>r_queue := me # r_queue s\<rparr>"
  have "ins_ahead (prio (upd_thd me (\<lambda>x. x\<lparr>p_state := THD_STATE_READY\<rparr>) ?p)) me (r_queue s) = me # r_queue s"
  proof -
    have "prio (upd_thd me (\<lambda>x. x\<lparr>p_state := THD_STATE_READY\<rparr>) ?p) = prio s" using p2(1) by (auto simp: fun_eq_iff)
    then show ?thesis using le by (cases "r_queue s") (auto simp: ins_ahead_def)
  qed
  then have "chSchRescheduleS ?s2 = chSysSwitch ?sb"
    using r2 hi p2 me ne
    by (simp add: chSchRescheduleS_def chSchIsRescRequiredI_def firstprio_def chSchDoRescheduleAhead_def Let_def)
  moreover have "currp ?sb = t" "r_queue ?sb = me # r_queue s" using p2 by simp_all
  moreover have "r_queue ?sa = me # r_queue s \<longleftrightarrow> (\<forall>x\<in>set (r_queue s). prio s x \<noteq> prio s me)"
  proof
    assume "r_queue ?sa = me # r_queue s"
    moreover have "me \<notin> set (r_queue s)"
      using kinv_ready_state [OF K', of me] cur_state [OF K'] me by auto
    ultimately have "filter (\<lambda>x. prio s x = prio s me) (r_queue s) = []"
      unfolding ra by (cases "filter (\<lambda>x. prio s x = prio s me) (r_queue s)") (auto simp: filter_eq_Cons_iff)
    then show "\<forall>x\<in>set (r_queue s). prio s x \<noteq> prio s me" by (simp add: filter_empty_conv)
  next
    assume "\<forall>x\<in>set (r_queue s). prio s x \<noteq> prio s me"
    then have "filter (\<lambda>x. prio s x = prio s me) (r_queue s) = []"
        "filter (\<lambda>x. prio s x < prio s me) (r_queue s) = r_queue s"
      using le by (auto simp: filter_empty_conv order_less_le)
    then show "r_queue ?sa = me # r_queue s" unfolding ra by simp
  qed
  ultimately show ?thesis using ra
    by (intro exI [of _ ?sa] exI [of _ ?sb]) simp
qed

theorem wakeup_loses_turn_witness:
  "\<exists>sa sb. chSchWakeupS 28672 RDY_OK sample = chSysSwitch sa \<and>
    chSchRescheduleS (chSchReadyI 28672 (upd_thd 28672 (\<lambda>x. x\<lparr>p_u := RDY_OK\<rparr>) sample)) = chSysSwitch sb \<and>
    r_queue sa = [20480, 4096, 8192] \<and> r_queue sb = [4096, 20480, 8192]"
proof -
  have "state_of sample 28672 = THD_STATE_SUSPENDED" "prio sample 4096 < prio sample 28672"
      "prio sample 4096 = 80" "prio sample 20480 = 80" "prio sample 8192 = 1"
    by (simp_all add: sample_defs)
  then show ?thesis
    using wakeup_loses_turn [OF sample_kinvU, of 4096 28672 RDY_OK] by (auto simp del: upd_thd_def)
qed

end
