(* ===== verification/Semaphores.thy ===== *)
theory Semaphores
  imports SchedulerCorrect
begin

text \<open>
  Counting and binary semaphores (\<^verbatim>\<open>os/kernel/src/chsem.c\<close>, \<^verbatim>\<open>os/kernel/include/chsem.h\<close>,
  \<^verbatim>\<open>os/kernel/include/chbsem.h\<close>).  Counters are 32-bit two's complement, so an increment
  wraps where the C code's would overflow.
\<close>

section \<open>Counting semaphores\<close>

definition chSemInit :: "addr \<Rightarrow> cnt_t \<Rightarrow> kstate \<Rightarrow> kstate" where
  "chSemInit sp n s = upd_sem sp (\<lambda>x. x\<lparr>s_queue := [], s_cnt := n\<rparr>) s"

definition sem_fifo_remove :: "addr \<Rightarrow> kstate \<Rightarrow> addr \<times> kstate" where
  "sem_fifo_remove sp s =
     (let (tp, q) = fifo_take sp (s_queue (sem s sp))
      in (tp, upd_sem sp (\<lambda>x. x\<lparr>s_queue := q\<rparr>) s))"

definition sem_lifo_remove :: "addr \<Rightarrow> kstate \<Rightarrow> addr \<times> kstate" where
  "sem_lifo_remove sp s =
     (let (tp, q) = lifo_take sp (s_queue (sem s sp))
      in (tp, upd_sem sp (\<lambda>x. x\<lparr>s_queue := q\<rparr>) s))"

definition sem_insert :: "addr \<Rightarrow> addr \<Rightarrow> kstate \<Rightarrow> kstate" where
  "sem_insert tp sp s = upd_sem sp (\<lambda>x. x\<lparr>s_queue := s_queue x @ [tp]\<rparr>) s"

text \<open>\<^verbatim>\<open>chSchReadyI(tp)->p_u.rdymsg = msg\<close>\<close>

definition ready_with :: "addr \<Rightarrow> msg_t \<Rightarrow> kstate \<Rightarrow> kstate" where
  "ready_with tp msg s = upd_thd tp (\<lambda>t. t\<lparr>p_u := msg\<rparr>) (chSchReadyI tp s)"

text \<open>The loop of \<open>chSemResetI\<close>, \<^verbatim>\<open>while (++cnt <= 0)\<close>.\<close>

function sem_reset_loop :: "addr \<Rightarrow> cnt_t \<Rightarrow> kstate \<Rightarrow> kstate" where
  "sem_reset_loop sp cnt s =
     (if sint (cnt + 1) \<le> 0
      then let (tp, s1) = sem_lifo_remove sp s in sem_reset_loop sp (cnt + 1) (ready_with tp RDY_RESET s1)
      else s)"
  by pat_completeness auto

lemma neg_inc_less:
  assumes "sint (cnt + 1 :: cnt_t) \<le> 0" shows "unat (- cnt - 1) < unat (- cnt)"
proof -
  have "- cnt \<noteq> 0" using assms by auto
  then show ?thesis by (simp add: unat_minus_one unat_gt_0)
qed

termination sem_reset_loop
  by (relation "measure (\<lambda>(sp, cnt, s). unat (- cnt))") (auto intro: neg_inc_less)

definition chSemResetI :: "addr \<Rightarrow> cnt_t \<Rightarrow> kstate \<Rightarrow> kstate" where
  "chSemResetI sp n s =
     (let cnt = s_cnt (sem s sp)
      in sem_reset_loop sp cnt (upd_sem sp (\<lambda>x. x\<lparr>s_cnt := n\<rparr>) s))"

definition chSemReset :: "addr \<Rightarrow> cnt_t \<Rightarrow> kstate \<Rightarrow> unit run" where
  "chSemReset sp n s = chSchRescheduleS (chSemResetI sp n s)"

definition chSemWaitS :: "addr \<Rightarrow> kstate \<Rightarrow> msg_t run" where
  "chSemWaitS sp s =
     (let s1 = upd_sem sp (\<lambda>x. x\<lparr>s_cnt := s_cnt x - 1\<rparr>) s
      in if sint (s_cnt (sem s1 sp)) < 0
         then let s2 = upd_thd (currp s1) (\<lambda>t. t\<lparr>p_u := sp\<rparr>) s1;
                  s3 = sem_insert (currp s2) sp s2
              in rbind (chSchGoSleepS THD_STATE_WTSEM s3) (\<lambda>_ s4. Done (p_u (thd s4 (currp s4))) s4)
         else Done RDY_OK s1)"

definition chSemWait :: "addr \<Rightarrow> kstate \<Rightarrow> msg_t run" where
  "chSemWait sp s = chSemWaitS sp s"

definition chSemWaitTimeoutS :: "addr \<Rightarrow> systime_t \<Rightarrow> kstate \<Rightarrow> msg_t run" where
  "chSemWaitTimeoutS sp time s =
     (let s1 = upd_sem sp (\<lambda>x. x\<lparr>s_cnt := s_cnt x - 1\<rparr>) s
      in if sint (s_cnt (sem s1 sp)) < 0
         then if TIME_IMMEDIATE = time
              then Done RDY_TIMEOUT (upd_sem sp (\<lambda>x. x\<lparr>s_cnt := s_cnt x + 1\<rparr>) s1)
              else let s2 = upd_thd (currp s1) (\<lambda>t. t\<lparr>p_u := sp\<rparr>) s1;
                       s3 = sem_insert (currp s2) sp s2
                   in chSchGoSleepTimeoutS THD_STATE_WTSEM time s3
         else Done RDY_OK s1)"

definition chSemWaitTimeout :: "addr \<Rightarrow> systime_t \<Rightarrow> kstate \<Rightarrow> msg_t run" where
  "chSemWaitTimeout sp time s = chSemWaitTimeoutS sp time s"

definition chSemSignal :: "addr \<Rightarrow> kstate \<Rightarrow> unit run" where
  "chSemSignal sp s =
     (let s1 = upd_sem sp (\<lambda>x. x\<lparr>s_cnt := s_cnt x + 1\<rparr>) s
      in if sint (s_cnt (sem s1 sp)) \<le> 0
         then let (tp, s2) = sem_fifo_remove sp s1 in chSchWakeupS tp RDY_OK s2
         else Done () s1)"

definition chSemSignalI :: "addr \<Rightarrow> kstate \<Rightarrow> kstate" where
  "chSemSignalI sp s =
     (let s1 = upd_sem sp (\<lambda>x. x\<lparr>s_cnt := s_cnt x + 1\<rparr>) s
      in if sint (s_cnt (sem s1 sp)) \<le> 0
         then let (tp, s2) = sem_fifo_remove sp s1
              in chSchReadyI tp (upd_thd tp (\<lambda>t. t\<lparr>p_u := RDY_OK\<rparr>) s2)
         else s1)"

function chSemAddCounterI :: "addr \<Rightarrow> cnt_t \<Rightarrow> kstate \<Rightarrow> kstate" where
  "chSemAddCounterI sp n s =
     (if sint n > 0
      then let s1 = upd_sem sp (\<lambda>x. x\<lparr>s_cnt := s_cnt x + 1\<rparr>) s;
               s2 = (if sint (s_cnt (sem s1 sp)) \<le> 0
                     then let (tp, s2) = sem_fifo_remove sp s1 in ready_with tp RDY_OK s2
                     else s1)
           in chSemAddCounterI sp (n - 1) s2
      else s)"
  by pat_completeness auto

termination chSemAddCounterI
  by (relation "measure (\<lambda>(sp, n, s). nat (sint n))") (auto simp: sint_dec)

definition chSemSignalWait :: "addr \<Rightarrow> addr \<Rightarrow> kstate \<Rightarrow> msg_t run" where
  "chSemSignalWait sps spw s =
     (let s1 = upd_sem sps (\<lambda>x. x\<lparr>s_cnt := s_cnt x + 1\<rparr>) s;
          s2 = (if sint (s_cnt (sem s1 sps)) \<le> 0
                then let (tp, s2) = sem_fifo_remove sps s1 in ready_with tp RDY_OK s2
                else s1);
          s3 = upd_sem spw (\<lambda>x. x\<lparr>s_cnt := s_cnt x - 1\<rparr>) s2
      in if sint (s_cnt (sem s3 spw)) < 0
         then let ctp = currp s3;
                  s4 = sem_insert ctp spw s3;
                  s5 = upd_thd ctp (\<lambda>t. t\<lparr>p_u := spw\<rparr>) s4
              in rbind (chSchGoSleepS THD_STATE_WTSEM s5) (\<lambda>_ s6. Done (p_u (thd s6 ctp)) s6)
         else rbind (chSchRescheduleS s3) (\<lambda>_ s6. Done RDY_OK s6))"

definition chSemFastWaitI :: "addr \<Rightarrow> kstate \<Rightarrow> kstate" where
  "chSemFastWaitI sp s = upd_sem sp (\<lambda>x. x\<lparr>s_cnt := s_cnt x - 1\<rparr>) s"

definition chSemGetCounterI :: "addr \<Rightarrow> kstate \<Rightarrow> cnt_t" where
  "chSemGetCounterI sp s = s_cnt (sem s sp)"

section \<open>Binary semaphores\<close>

definition chBSemInit :: "addr \<Rightarrow> bool \<Rightarrow> kstate \<Rightarrow> kstate" where
  "chBSemInit bsp taken s = chSemInit bsp (if taken then 0 else 1) s"

definition chBSemWait :: "addr \<Rightarrow> kstate \<Rightarrow> msg_t run" where
  "chBSemWait bsp s = chSemWait bsp s"

definition chBSemWaitS :: "addr \<Rightarrow> kstate \<Rightarrow> msg_t run" where
  "chBSemWaitS bsp s = chSemWaitS bsp s"

definition chBSemWaitTimeout :: "addr \<Rightarrow> systime_t \<Rightarrow> kstate \<Rightarrow> msg_t run" where
  "chBSemWaitTimeout bsp time s = chSemWaitTimeout bsp time s"

definition chBSemWaitTimeoutS :: "addr \<Rightarrow> systime_t \<Rightarrow> kstate \<Rightarrow> msg_t run" where
  "chBSemWaitTimeoutS bsp time s = chSemWaitTimeoutS bsp time s"

definition chBSemReset :: "addr \<Rightarrow> bool \<Rightarrow> kstate \<Rightarrow> unit run" where
  "chBSemReset bsp taken s = chSemReset bsp (if taken then 0 else 1) s"

definition chBSemResetI :: "addr \<Rightarrow> bool \<Rightarrow> kstate \<Rightarrow> kstate" where
  "chBSemResetI bsp taken s = chSemResetI bsp (if taken then 0 else 1) s"

definition chBSemSignalI :: "addr \<Rightarrow> kstate \<Rightarrow> kstate" where
  "chBSemSignalI bsp s = (if sint (s_cnt (sem s bsp)) < 1 then chSemSignalI bsp s else s)"

definition chBSemSignal :: "addr \<Rightarrow> kstate \<Rightarrow> unit run" where
  "chBSemSignal bsp s = chSchRescheduleS (chBSemSignalI bsp s)"

definition chBSemGetStateI :: "addr \<Rightarrow> kstate \<Rightarrow> bool" where
  "chBSemGetStateI bsp s \<longleftrightarrow> \<not> sint (s_cnt (sem s bsp)) > 0"

section \<open>Counters and queues\<close>

declare sem_reset_loop.simps [simp del] chSemAddCounterI.simps [simp del]

text \<open>The aligned addresses of threads bound the length of a queue, hence the counter.\<close>

lemma card_aligned: "card {t :: addr. t mod 8 = 0} \<le> 2 ^ 29"
proof -
  have "inj_on (\<lambda>t. unat t div 8) {t :: addr. t mod 8 = 0}"
  proof (rule inj_onI)
    fix x y :: addr assume "x \<in> {t. t mod 8 = 0}" "y \<in> {t. t mod 8 = 0}" "unat x div 8 = unat y div 8"
    moreover from this have "unat x mod 8 = 0" "unat y mod 8 = 0"
      using unat_mod [of x 8] unat_mod [of y 8] by auto
    ultimately have "unat x = unat y" by (metis div_mult_mod_eq)
    then show "x = y" by (rule unsigned_word_eqI)
  qed
  moreover have "(\<lambda>t. unat t div 8) ` {t :: addr. t mod 8 = 0} \<subseteq> {..<2 ^ 29}"
  proof -
    have "unat t < 4294967296" for t :: addr using unsigned_less [of t] by simp
    then show ?thesis by (auto simp: div_less_iff_less_mult)
  qed
  ultimately have "card {t :: addr. t mod 8 = 0} \<le> card {..<(2::nat) ^ 29}"
    by (metis card_inj_on_le finite_lessThan)
  then show ?thesis by simp
qed

lemma queue_bound:
  assumes K: "kinv0 s" shows "length (s_queue (sem s a)) \<le> 2 ^ 29"
proof -
  have P: "places s" and L: "live s" using K by (simp_all add: kinv0_def)
  have "set (s_queue (sem s a)) \<subseteq> {t. t mod 8 = 0}"
  proof
    fix t assume "t \<in> set (s_queue (sem s a))"
    then have "state_of s t \<noteq> THD_STATE_FINAL"
      using places_at [OF P, of t "PSem a"] by (auto simp: place_ok_def)
    then show "t \<in> {t. t mod 8 = 0}" using L by (auto simp: live_def)
  qed
  moreover have "distinct (s_queue (sem s a))" using places_distinct [OF P, of "PSem a"] by simp
  ultimately show ?thesis
    using card_aligned card_mono [of "{t :: addr. t mod 8 = 0}" "set (s_queue (sem s a))"]
    by (auto simp: distinct_card)
qed

lemma sem_cnt_lower:
  assumes K: "kinv0 s" shows "- 536870912 \<le> sint (s_cnt (sem s a))"
proof -
  have "int (length (s_queue (sem s a))) = max 0 (- sint (s_cnt (sem s a)))"
    using K by (simp add: kinv0_def sems_ok_def)
  moreover have "int (length (s_queue (sem s a))) \<le> 536870912" using queue_bound [OF K, of a] by simp
  ultimately show ?thesis by (auto simp: max_def split: if_splits)
qed

lemma sems_neg: "sems_ok s \<Longrightarrow> sint (s_cnt (sem s a)) < 0 \<longleftrightarrow> s_queue (sem s a) \<noteq> []"
  by (rule sem_cnt_neg) (simp add: sems_ok_def)

lemma sem_waiter_state:
  "places s \<Longrightarrow> t \<in> set (s_queue (sem s a)) \<Longrightarrow> state_of s t = THD_STATE_WTSEM \<and> p_u (thd s t) = a"
  using places_at [of s t "PSem a"] by (auto simp: place_ok_def split: tstate.splits)

text \<open>Changing a counter between values that are not negative.\<close>

lemma iclass_cnt:
  assumes K: "kinv s" and c: "0 \<le> sint (s_cnt (sem s a))" "0 \<le> sint c"
  shows "iclass s (upd_sem a (\<lambda>x. x\<lparr>s_cnt := c\<rparr>) s)"
proof -
  let ?s = "upd_sem a (\<lambda>x. x\<lparr>s_cnt := c\<rparr>) s"
  have S: "sems_ok s" using K by (simp add: kinv_def kinv0_def)
  have "s_queue (sem s a) = []" using sems_neg [OF S, of a] c by auto
  then have "sems_ok ?s" using S c by (auto simp: sems_ok_def)
  moreover have "queue_of ?s r = queue_of s r" for r by (cases r) auto
  then have "same_core s ?s" by (simp add: same_core_def)
  ultimately show ?thesis using iclass_same_core [OF K] by simp
qed

text \<open>Taking a thread from the queue with the counter going up by one.\<close>

lemma sem_detach:
  assumes K: "kinv0 s" and t: "t \<in> set (s_queue (sem s a))"
    and s1: "s1 = upd_sem a (\<lambda>x. x\<lparr>s_cnt := s_cnt (sem s a) + 1, s_queue := remove1 t (s_queue (sem s a))\<rparr>) s"
  shows "detached t s s1" "sems_ok s1"
proof -
  have P: "places s" and S: "sems_ok s" using K by (simp_all add: kinv0_def)
  show "detached t s s1"
  proof (rule detachedI [OF P, where p = "PSem a"])
    show "queue_of s1 r = queue_of s r" if "r \<noteq> PSem a" for r using that by (cases r) (auto simp: s1)
  qed (use t in \<open>auto simp: s1\<close>)
  have "int (length (s_queue (sem s a)) - 1) = max 0 (- sint (s_cnt (sem s a) + 1))"
    by (rule sem_cnt_pop) (use S t in \<open>auto simp: sems_ok_def\<close>)
  then show "sems_ok s1" using S t by (auto simp: sems_ok_def s1 length_remove1)
qed

lemma sem_ready_iclass:
  assumes K: "kinv s" and t: "t \<in> set (s_queue (sem s a))" and m: "m \<in> {RDY_OK, RDY_RESET}"
  shows "iclass s (chSchReadyI t (upd_thd t (\<lambda>x. x\<lparr>p_u := m\<rparr>)
    (upd_sem a (\<lambda>x. x\<lparr>s_cnt := s_cnt (sem s a) + 1, s_queue := remove1 t (s_queue (sem s a))\<rparr>) s)))"
proof -
  have K0: "kinv0 s" using K by (simp add: kinv_def)
  have st: "state_of s t = THD_STATE_WTSEM" using sem_waiter_state [of s t a] K0 t by (simp add: kinv0_def)
  note d = sem_detach [OF K0 t refl]
  show ?thesis
    by (rule iclass_ready [OF K detached_msg [OF d(1)]]) (use d(2) st m in \<open>auto simp: sems_ok_def\<close>)
qed

section \<open>Signalling\<close>

lemma chSemSignalI_cases:
  assumes S: "sems_ok s" and c: "sint (s_cnt (sem s a)) < 2147483647"
  shows "s_queue (sem s a) = [] \<Longrightarrow>
      chSemSignalI a s = upd_sem a (\<lambda>x. x\<lparr>s_cnt := s_cnt (sem s a) + 1\<rparr>) s"
    and "s_queue (sem s a) = t # q \<Longrightarrow>
      chSemSignalI a s = chSchReadyI t (upd_thd t (\<lambda>x. x\<lparr>p_u := RDY_OK\<rparr>)
        (upd_sem a (\<lambda>x. x\<lparr>s_cnt := s_cnt (sem s a) + 1, s_queue := q\<rparr>) s))"
proof -
  have *: "sint (s_cnt (sem s a) + 1) \<le> 0 \<longleftrightarrow> s_queue (sem s a) \<noteq> []"
    using sems_neg [OF S, of a] c by (auto simp: sint_inc)
  show "chSemSignalI a s = upd_sem a (\<lambda>x. x\<lparr>s_cnt := s_cnt (sem s a) + 1\<rparr>) s" if "s_queue (sem s a) = []"
    using that * by (simp add: chSemSignalI_def)
  show "chSemSignalI a s = chSchReadyI t (upd_thd t (\<lambda>x. x\<lparr>p_u := RDY_OK\<rparr>)
      (upd_sem a (\<lambda>x. x\<lparr>s_cnt := s_cnt (sem s a) + 1, s_queue := q\<rparr>) s))" if "s_queue (sem s a) = t # q"
    using that * by (simp add: chSemSignalI_def sem_fifo_remove_def)
qed

lemma chSemSignalI_iclass:
  assumes K: "kinv s" and c: "sint (s_cnt (sem s a)) < 2147483647"
  shows "iclass s (chSemSignalI a s)"
proof -
  have S: "sems_ok s" using K by (simp add: kinv_def kinv0_def)
  show ?thesis
  proof (cases "s_queue (sem s a)")
    case Nil
    then have "0 \<le> sint (s_cnt (sem s a))"
      using sems_neg [OF S, of a] by auto
    then show ?thesis
      unfolding chSemSignalI_cases(1) [OF S c Nil] using c by (intro iclass_cnt [OF K]) (simp_all add: sint_inc)
  next
    case (Cons t q)
    then show ?thesis
      unfolding chSemSignalI_cases(2) [OF S c Cons]
      using sem_ready_iclass [OF K, of t a RDY_OK] by simp
  qed
qed

lemma ready_with_eq: "ready_with t m s = chSchReadyI t (upd_thd t (\<lambda>x. x\<lparr>p_u := m\<rparr>) s)"
  unfolding ready_with_def by (rule ready_msg_commute)

section \<open>Resetting\<close>

lemma upd_sem_idem: "s_cnt (sem s sp) = n \<Longrightarrow> upd_sem sp (\<lambda>x. x\<lparr>s_cnt := n\<rparr>) s = s"
  by (intro kstate.equality) (auto intro!: ext Semaphore.equality)

definition set_cnt :: "addr \<Rightarrow> cnt_t \<Rightarrow> kstate \<Rightarrow> kstate" where
  "set_cnt sp c s = upd_sem sp (\<lambda>x. x\<lparr>s_cnt := c\<rparr>) s"

lemma set_cnt_ready: "set_cnt sp c (ready_with t m s) = ready_with t m (set_cnt sp c s)"
proof -
  have "prio (upd_thd t (\<lambda>x. x\<lparr>p_u := m\<rparr>) (set_cnt sp c s)) = prio (upd_thd t (\<lambda>x. x\<lparr>p_u := m\<rparr>) s)"
    by (auto simp: set_cnt_def)
  then show ?thesis unfolding ready_with_eq chSchReadyI_at
    by (intro kstate.equality) (auto simp: ready_at_def set_cnt_def)
qed

text \<open>
  While the loop runs the counter field holds its final value already; the local counter is
  what agrees with the queue.
\<close>

lemma sem_reset_loop_iclass:
  assumes "kinv (set_cnt sp cnt s)" and "sint cnt < 2147483647"
  shows "\<exists>c. 0 \<le> sint c \<and> iclass (set_cnt sp cnt s) (set_cnt sp c (sem_reset_loop sp cnt s)) \<and>
    s_cnt (sem (sem_reset_loop sp cnt s) sp) = s_cnt (sem s sp)"
  using assms
proof (induction sp cnt s rule: sem_reset_loop.induct)
  case (1 sp cnt s)
  have inc: "sint (cnt + 1) = sint cnt + 1" using 1(3) by (rule sint_inc)
  show ?case
  proof (cases "sint (cnt + 1) \<le> 0")
    case False
    then have "sem_reset_loop sp cnt s = s" by (simp add: sem_reset_loop.simps [of sp cnt s])
    then show ?thesis using False 1(2) inc iclass_refl by (intro exI [of _ cnt]) simp
  next
    case True
    let ?q = "s_queue (sem s sp)"
    have S: "sems_ok (set_cnt sp cnt s)" and K0: "kinv0 (set_cnt sp cnt s)"
      using 1(2) by (simp_all add: kinv_def kinv0_def)
    have ne: "?q \<noteq> []" using sems_neg [OF S, of sp] True inc by (simp add: set_cnt_def)
    define t where "t = last ?q"
    define s1 where "s1 = upd_sem sp (\<lambda>x. x\<lparr>s_queue := butlast ?q\<rparr>) s"
    define s2 where "s2 = ready_with t RDY_RESET s1"
    have d: "distinct ?q" using places_distinct [of "set_cnt sp cnt s" "PSem sp"] K0
      by (simp add: kinv0_def set_cnt_def)
    have bl: "butlast ?q = remove1 t ?q"
    proof -
      obtain ys where y: "?q = ys @ [t]" using ne t_def by (metis append_butlast_last_id)
      then have "t \<notin> set ys" using d by auto
      then show ?thesis using y by (simp add: remove1_append)
    qed
    have lr: "sem_lifo_remove sp s = (t, s1)"
      using ne by (simp add: sem_lifo_remove_def lifo_take_def t_def s1_def)
    have loop: "sem_reset_loop sp cnt s = sem_reset_loop sp (cnt + 1) s2"
      using True lr by (subst sem_reset_loop.simps) (simp add: s2_def)
    have eq: "set_cnt sp (cnt + 1) s1 = upd_sem sp (\<lambda>x. x\<lparr>s_cnt := cnt + 1,
        s_queue := remove1 t (s_queue (sem (set_cnt sp cnt s) sp))\<rparr>) (set_cnt sp cnt s)"
      by (intro kstate.equality) (auto simp: set_cnt_def s1_def bl)
    have ic: "iclass (set_cnt sp cnt s) (set_cnt sp (cnt + 1) s2)"
      using sem_ready_iclass [OF 1(2), of t sp RDY_RESET] ne
      unfolding s2_def set_cnt_ready unfolding ready_with_eq eq by (simp add: set_cnt_def t_def)
    have cnt2: "s_cnt (sem s2 sp) = s_cnt (sem s sp)"
      by (simp add: s2_def ready_with_eq s1_def)
    have "kinv (set_cnt sp (cnt + 1) s2)" using ic by (simp add: iclass_def)
    moreover have "sint (cnt + 1) < 2147483647" using True by simp
    ultimately obtain c where "0 \<le> sint c"
        and "iclass (set_cnt sp (cnt + 1) s2) (set_cnt sp c (sem_reset_loop sp (cnt + 1) s2))"
        and "s_cnt (sem (sem_reset_loop sp (cnt + 1) s2) sp) = s_cnt (sem s2 sp)"
      using 1(1) [OF True lr [symmetric] refl, folded s2_def] by auto
    then show ?thesis unfolding loop using iclass_trans [OF ic] cnt2 by auto
  qed
qed

lemma chSemResetI_iclass:
  assumes K: "kinv s" and c: "sint (s_cnt (sem s sp)) < 2147483647" and n: "0 \<le> sint n"
  shows "iclass s (chSemResetI sp n s)"
proof -
  let ?c = "s_cnt (sem s sp)" and ?s = "upd_sem sp (\<lambda>x. x\<lparr>s_cnt := n\<rparr>) s"
  let ?F = "sem_reset_loop sp ?c ?s"
  have s: "set_cnt sp ?c ?s = s" by (simp add: set_cnt_def)
  obtain c' where c': "0 \<le> sint c'" "iclass s (set_cnt sp c' ?F)" "s_cnt (sem ?F sp) = n"
    using sem_reset_loop_iclass [of sp ?c ?s] K c unfolding s by auto
  have "iclass (set_cnt sp c' ?F) (upd_sem sp (\<lambda>x. x\<lparr>s_cnt := n\<rparr>) (set_cnt sp c' ?F))"
    by (rule iclass_cnt) (use c' n in \<open>auto simp: iclass_def set_cnt_def\<close>)
  moreover have "upd_sem sp (\<lambda>x. x\<lparr>s_cnt := n\<rparr>) (set_cnt sp c' ?F) = ?F"
    using upd_sem_idem [OF c'(3)] by (simp add: set_cnt_def)
  ultimately show ?thesis using c'(2) iclass_trans by (simp add: chSemResetI_def Let_def)
qed

text \<open>The loop empties the queue from its end and wakes every thread with \<open>RDY_RESET\<close>.\<close>

lemma upd_sem_ready_with:
  "upd_sem sp f (ready_with t m s) = ready_with t m (upd_sem sp f s)"
proof -
  have "prio (upd_thd t (\<lambda>x. x\<lparr>p_u := m\<rparr>) (upd_sem sp f s)) = prio (upd_thd t (\<lambda>x. x\<lparr>p_u := m\<rparr>) s)"
    by auto
  then show ?thesis unfolding ready_with_eq chSchReadyI_at
    by (intro kstate.equality) (auto simp: ready_at_def)
qed

lemma sem_reset_loop_fold:
  assumes "int (length (s_queue (sem s sp))) = max 0 (- sint cnt)" and "sint cnt < 2147483647"
  shows "sem_reset_loop sp cnt s =
    fold (\<lambda>t. ready_with t RDY_RESET) (rev (s_queue (sem s sp))) (upd_sem sp (\<lambda>x. x\<lparr>s_queue := []\<rparr>) s)"
  using assms
proof (induction sp cnt s rule: sem_reset_loop.induct)
  case (1 sp cnt s)
  have inc: "sint (cnt + 1) = sint cnt + 1" using 1(3) by (rule sint_inc)
  have neg: "sint cnt < 0 \<longleftrightarrow> s_queue (sem s sp) \<noteq> []" by (rule sem_cnt_neg [OF 1(2)])
  show ?case
  proof (cases "sint (cnt + 1) \<le> 0")
    case False
    then have "s_queue (sem s sp) = []" using inc neg by auto
    then show ?thesis using False by (subst sem_reset_loop.simps) (simp add: fun_upd_idem)
  next
    case True
    then obtain ys t where q: "s_queue (sem s sp) = ys @ [t]"
      using neg inc by (cases "s_queue (sem s sp)" rule: rev_cases) auto
    let ?s1 = "upd_sem sp (\<lambda>x. x\<lparr>s_queue := ys\<rparr>) s"
    have lr: "sem_lifo_remove sp s = (t, ?s1)"
      using q by (simp add: sem_lifo_remove_def lifo_take_def)
    have q2: "s_queue (sem (ready_with t RDY_RESET ?s1) sp) = ys" by (simp add: ready_with_eq)
    have "int (length ys) = max 0 (- sint (cnt + 1))" using sem_cnt_pop [OF 1(2)] q by simp
    then have "sem_reset_loop sp (cnt + 1) (ready_with t RDY_RESET ?s1) =
        fold (\<lambda>t. ready_with t RDY_RESET) (rev ys) (upd_sem sp (\<lambda>x. x\<lparr>s_queue := []\<rparr>) (ready_with t RDY_RESET ?s1))"
      using 1(1) [OF True lr [symmetric] refl] True q2 by simp
    moreover have "sem_reset_loop sp cnt s = sem_reset_loop sp (cnt + 1) (ready_with t RDY_RESET ?s1)"
      unfolding sem_reset_loop.simps [of sp cnt s] lr using True by (simp only: if_True prod.case Let_def)
    moreover have "upd_sem sp (\<lambda>x. x\<lparr>s_queue := []\<rparr>) ?s1 = upd_sem sp (\<lambda>x. x\<lparr>s_queue := []\<rparr>) s" by simp
    ultimately show ?thesis unfolding upd_sem_ready_with q by (simp only: rev_append rev.simps fold_append fold.simps append.simps o_apply id_apply)
  qed
qed

section \<open>Waiting\<close>

lemma sem_park:
  assumes K: "kinvL s" and me: "me = currp s" and c: "sint (s_cnt (sem s sp)) \<le> 0"
    and s3: "thd s3 = (thd s)(me := (thd s me)\<lparr>p_u := sp\<rparr>)"
      "sem s3 = (sem s)(sp := (sem s sp)\<lparr>s_cnt := s_cnt (sem s sp) - 1, s_queue := s_queue (sem s sp) @ [me]\<rparr>)"
      "mtx s3 = mtx s" "cond s3 = cond s" "ioq s3 = ioq s" "r_queue s3 = r_queue s"
      "currp s3 = currp s" "idle_thread s3 = idle_thread s" "vts s3 = vts s" "vtlist s3 = vtlist s"
  shows "parked THD_STATE_WTSEM me (PSem sp) s s3"
proof -
  have K': "kinv s" and K0: "kinv0 s" and P: "places s" and S: "sems_ok s"
    using K by (simp_all add: kinvL_def kinv_def kinv0_def)
  have cs: "state_of s me = THD_STATE_CURRENT" using cur_state [OF K'] me by simp
  then have un: "me \<notin> set (queue_of s r)" for r
    by (intro places_unqueued [OF P]) (simp add: place_ok_def)
  have q: "queue_of s3 r = queue_of s r" if "r \<noteq> PSem sp" for r
    using that s3 by (cases r) auto
  have "attached me (PSem sp) s s3"
    unfolding attached_def using q un [of "PSem sp"] places_distinct [OF P, of "PSem sp"] s3 by auto
  moreover have "sems_ok s3"
  proof -
    have dec: "sint (s_cnt (sem s sp) - 1) = sint (s_cnt (sem s sp)) - 1"
      using sem_cnt_lower [OF K0, of sp] by (intro sint_dec) simp
    have "int (length (s_queue (sem s sp))) = max 0 (- sint (s_cnt (sem s sp)))"
      using S by (simp add: sems_ok_def)
    then have "int (length (s_queue (sem s sp) @ [me])) = max 0 (- sint (s_cnt (sem s sp) - 1))"
      unfolding dec using c by simp
    then show ?thesis using S s3 by (simp add: sems_ok_def)
  qed
  ultimately show ?thesis
    using s3 by (auto simp: parked_def place_ok_def)
qed

lemma sem_wait_state:
  assumes "me = currp s"
  shows "thd (sem_insert me sp (upd_thd me (\<lambda>t. t\<lparr>p_u := sp\<rparr>) (upd_sem sp (\<lambda>x. x\<lparr>s_cnt := s_cnt x - 1\<rparr>) s)))
      = (thd s)(me := (thd s me)\<lparr>p_u := sp\<rparr>)"
  by (simp add: sem_insert_def)

lemma sem_taken_iclass:
  assumes K: "kinv s" and c: "\<not> sint (s_cnt (sem s sp) - 1) < 0"
  shows "iclass s (upd_sem sp (\<lambda>x. x\<lparr>s_cnt := s_cnt x - 1\<rparr>) s)"
proof -
  have "- 536870912 \<le> sint (s_cnt (sem s sp))" using sem_cnt_lower K by (simp add: kinv_def)
  then have "sint (s_cnt (sem s sp) - 1) = sint (s_cnt (sem s sp)) - 1" by (intro sint_dec) simp
  then show ?thesis using iclass_cnt [OF K, of sp "s_cnt (sem s sp) - 1"] c by simp
qed

lemma prio_ok_upd_sem [simp]: "prio_ok (upd_sem a f s) = prio_ok s"
  by (simp add: prio_ok_def)

lemma sem_cnt_dec_neg:
  assumes K: "kinv0 s"
  shows "sint (s_cnt (sem s sp) - 1) < 0 \<longleftrightarrow> sint (s_cnt (sem s sp)) \<le> 0"
  using sem_cnt_lower [OF K, of sp] by (auto simp: sint_dec)

lemma sem_take_safe:
  assumes K: "kinvU s" and me: "me = currp s" and c: "\<not> sint (s_cnt (sem s sp) - 1) < 0" and Q: "Q RDY_OK"
  shows "safe me (\<lambda>m s'. returned me s s' \<and> Q m) s (Done RDY_OK (upd_sem sp (\<lambda>x. x\<lparr>s_cnt := s_cnt x - 1\<rparr>) s))"
proof -
  have K': "kinv s" using K by (simp add: kinvU_def)
  show ?thesis
    by (rule safe_iclass_Done [OF K sem_taken_iclass [OF K' c] _ me]) (use K Q in \<open>simp_all add: kinvU_def del: upd_sem_def\<close>)
qed

lemma chSemWaitS_safe:
  assumes K: "kinvU s" and me: "me = currp s" and ni: "me \<noteq> idle_thread s"
  shows "safe me (\<lambda>m s'. returned me s s' \<and> (m = RDY_OK \<or> m = RDY_RESET)) s (chSemWaitS sp s)"
proof (cases "sint (s_cnt (sem s sp) - 1) < 0")
  case False
  then show ?thesis using sem_take_safe [OF K me False, of "\<lambda>m. m = RDY_OK \<or> m = RDY_RESET"]
    by (simp add: chSemWaitS_def Let_def)
next
  case True
  have KL: "kinvL s" and K0: "kinv0 s" using K by (simp_all add: kinvU_L kinvL_def kinv_def)
  define s3 where "s3 = sem_insert me sp (upd_thd me (\<lambda>t. t\<lparr>p_u := sp\<rparr>) (upd_sem sp (\<lambda>x. x\<lparr>s_cnt := s_cnt x - 1\<rparr>) s))"
  have p: "parked THD_STATE_WTSEM me (PSem sp) s s3"
    by (rule sem_park [OF KL me]) (use True sem_cnt_dec_neg [OF K0, of sp] in \<open>auto simp: s3_def sem_insert_def\<close>)
  have u: "\<not> chVTIsArmedI (OnStack me) s3" using KL me by (simp add: kinvL_def chVTIsArmedI_def s3_def sem_insert_def)
  have run: "chSemWaitS sp s = rbind (chSchGoSleepS THD_STATE_WTSEM s3) (\<lambda>_ s4. Done (p_u (thd s4 (currp s4))) s4)"
    using True me by (simp add: chSemWaitS_def Let_def s3_def)
  show ?thesis unfolding run
  proof (rule safe_bind [OF goSleep_returned [OF KL me ni p]])
    fix a :: unit and s' assume s': "returned me s s' \<and> rely me (sleeping THD_STATE_WTSEM me s3) s'"
    have "p_u (thd s' me) \<in> {RDY_OK, RDY_RESET}"
      using rely_wait_msg [of me THD_STATE_WTSEM s3 s'] s' u by (auto simp: returned_def kinvU_def)
    then show "safe me (\<lambda>m s'. returned me s s' \<and> (m = RDY_OK \<or> m = RDY_RESET)) s' (Done (p_u (thd s' (currp s'))) s')"
      using s' by (intro safe_Done) (auto simp: returned_def)
  qed (auto simp: s3_def sem_insert_def)
qed

lemma chSemWaitTimeoutS_safe:
  assumes K: "kinvU s" and me: "me = currp s" and ni: "me \<noteq> idle_thread s"
  shows "safe me (\<lambda>m s'. returned me s s' \<and> (m = RDY_OK \<or> m = RDY_RESET \<or> (m = RDY_TIMEOUT \<and> time \<noteq> TIME_INFINITE))) s
    (chSemWaitTimeoutS sp time s)" (is "safe me ?Q s _")
proof (cases "sint (s_cnt (sem s sp) - 1) < 0")
  case False
  then show ?thesis
    using sem_take_safe [OF K me False, of "\<lambda>m. m = RDY_OK \<or> m = RDY_RESET \<or> (m = RDY_TIMEOUT \<and> time \<noteq> TIME_INFINITE)"]
    by (simp add: chSemWaitTimeoutS_def Let_def)
next
  case True
  have KL: "kinvL s" and K0: "kinv0 s" using K by (simp_all add: kinvU_L kinvL_def kinv_def)
  define s3 where "s3 = sem_insert me sp (upd_thd me (\<lambda>t. t\<lparr>p_u := sp\<rparr>) (upd_sem sp (\<lambda>x. x\<lparr>s_cnt := s_cnt x - 1\<rparr>) s))"
  have p: "parked THD_STATE_WTSEM me (PSem sp) s s3"
    by (rule sem_park [OF KL me]) (use True sem_cnt_dec_neg [OF K0, of sp] in \<open>auto simp: s3_def sem_insert_def\<close>)
  have u: "\<not> chVTIsArmedI (OnStack me) s3" using KL me by (simp add: kinvL_def chVTIsArmedI_def s3_def sem_insert_def)
  show ?thesis
  proof (cases "time = TIME_IMMEDIATE")
    case imm: True
    have "chSemWaitTimeoutS sp time s = Done RDY_TIMEOUT s"
      using True imm upd_sem_idem [OF refl, where s = s and sp = sp] by (simp add: chSemWaitTimeoutS_def Let_def)
    then show ?thesis using K me imm by (auto intro!: safe_Done simp: returned_def)
  next
    case False
    have run: "chSemWaitTimeoutS sp time s = chSchGoSleepTimeoutS THD_STATE_WTSEM time s3"
      using True False me by (simp add: chSemWaitTimeoutS_def Let_def s3_def)
    show ?thesis unfolding run
    proof (rule safe_mono [OF goSleepTimeout_returned [OF KL me ni p _ False]])
      fix m s' assume s': "returned me s s' \<and> rely me (sleeping THD_STATE_WTSEM me (arm time me s3)) s' \<and> m = p_u (thd s' me)"
      then have "m \<in> {RDY_OK, RDY_RESET} \<or> chVTIsArmedI (OnStack me) (arm time me s3) \<and> m = RDY_TIMEOUT"
        using rely_wait_msg [of me THD_STATE_WTSEM "arm time me s3" s'] by (auto simp: returned_def kinvU_def)
      then show "?Q m s'" using s' u by (auto simp: arm_def split: if_splits)
    qed (auto simp: s3_def sem_insert_def timed_def)
  qed
qed

section \<open>Signalling from threads\<close>

lemma chSemSignal_safe:
  assumes K: "kinvU s" and me: "me = currp s" and c: "sint (s_cnt (sem s sp)) < 2147483647"
  shows "safe me (\<lambda>_ s'. returned me s s') s (chSemSignal sp s)"
proof -
  have K': "kinv s" and K0: "kinv0 s" and S: "sems_ok s" using K by (simp_all add: kinvU_def kinv_def kinv0_def)
  have *: "sint (s_cnt (sem s sp) + 1) \<le> 0 \<longleftrightarrow> s_queue (sem s sp) \<noteq> []"
    using sems_neg [OF S, of sp] c by (auto simp: sint_inc)
  show ?thesis
  proof (cases "s_queue (sem s sp)")
    case Nil
    then have run: "chSemSignal sp s = Done () (chSemSignalI sp s)"
      using * chSemSignalI_cases(1) [OF S c Nil] by (simp add: chSemSignal_def)
    note i = chSemSignalI_iclass [OF K' c]
    have "prio_ok (chSemSignalI sp s)" using K chSemSignalI_cases(1) [OF S c Nil] by (simp add: kinvU_def del: upd_sem_def)
    then show ?thesis unfolding run
      using safe_iclass_Done [OF K i _ me, of "\<lambda>_ _. True" "()"] by simp
  next
    case (Cons t q)
    define s1 where "s1 = upd_sem sp (\<lambda>x. x\<lparr>s_cnt := s_cnt (sem s sp) + 1, s_queue := q\<rparr>) s"
    have t: "t \<in> set (s_queue (sem s sp))" using Cons by simp
    have st: "state_of s t = THD_STATE_WTSEM" using sem_waiter_state [of s t sp] K0 t by (simp add: kinv0_def)
    have d: "detached t s s1" "sems_ok s1" using sem_detach [OF K0 t, of s1] Cons by (simp_all add: s1_def)
    have run: "chSemSignal sp s = chSchWakeupS t RDY_OK s1"
      using * Cons by (simp add: chSemSignal_def sem_fifo_remove_def s1_def)
    have cs: "state_of s1 me = THD_STATE_CURRENT" using cur_state [OF K'] me by (simp add: s1_def)
    show ?thesis unfolding run
      by (rule safe_returned [OF chSchWakeupS_detached [OF K me d]]) (use st cs in \<open>auto simp: s1_def kept_def\<close>)
  qed
qed

interpretation sem_signal: iclass_op "chSemSignalI a" "\<lambda>s. sint (s_cnt (sem s a)) < 2147483647" for a
  by unfold_locales (rule chSemSignalI_iclass)

interpretation sem_reset: iclass_op "chSemResetI a n"
  "\<lambda>s. sint (s_cnt (sem s a)) < 2147483647 \<and> 0 \<le> sint n" for a n
  by unfold_locales (auto intro: chSemResetI_iclass)

interpretation bsem_signal: iclass_op "chBSemSignalI a" "\<lambda>s. True" for a
  by unfold_locales (auto simp: chBSemSignalI_def intro: chSemSignalI_iclass iclass_refl)

section \<open>Repeated and combined operations\<close>

lemma chSemSignalI_cnt [simp]: "s_cnt (sem (chSemSignalI a s) a) = s_cnt (sem s a) + 1"
  by (simp add: chSemSignalI_def sem_fifo_remove_def Let_def split: prod.split)

lemma sem_add_step:
  "(let s1 = upd_sem sp (\<lambda>x. x\<lparr>s_cnt := s_cnt x + 1\<rparr>) s
    in if sint (s_cnt (sem s1 sp)) \<le> 0
       then let (tp, s2) = sem_fifo_remove sp s1 in ready_with tp RDY_OK s2
       else s1) = chSemSignalI sp s"
  by (simp add: chSemSignalI_def ready_with_eq Let_def split: prod.split)

text \<open>Adding to the counter is signalling that many times.\<close>

lemma chSemAddCounterI_signals:
  "chSemAddCounterI sp n s = (chSemSignalI sp ^^ nat (sint n)) s"
proof (induction sp n s rule: chSemAddCounterI.induct)
  case (1 sp n s)
  show ?case
  proof (cases "sint n > 0")
    case True
    have "sint (n - 1) = sint n - 1" using True by (intro sint_dec) simp
    then have n: "nat (sint n) = Suc (nat (sint (n - 1)))" using True by simp
    have "chSemAddCounterI sp n s = chSemAddCounterI sp (n - 1) (chSemSignalI sp s)"
      unfolding sem_add_step [symmetric] using True by (subst chSemAddCounterI.simps) (simp only: Let_def if_True)
    also have "\<dots> = (chSemSignalI sp ^^ nat (sint (n - 1))) (chSemSignalI sp s)"
      using 1 [OF True refl refl] unfolding sem_add_step [symmetric] by (simp only: Let_def)
    also have "\<dots> = (chSemSignalI sp ^^ nat (sint n)) s" unfolding n by (simp add: funpow_swap1)
    finally show ?thesis .
  qed (simp add: chSemAddCounterI.simps [of sp n s])
qed

lemma signals_iclass:
  "kinv s \<Longrightarrow> sint (s_cnt (sem s sp)) + int n \<le> 2147483647 \<Longrightarrow> iclass s ((chSemSignalI sp ^^ n) s)"
proof (induction n arbitrary: s)
  case (Suc n)
  have i: "iclass s (chSemSignalI sp s)" by (rule chSemSignalI_iclass) (use Suc in auto)
  have "sint (s_cnt (sem s sp) + 1) = sint (s_cnt (sem s sp)) + 1" by (rule sint_inc) (use Suc in auto)
  then have "iclass (chSemSignalI sp s) ((chSemSignalI sp ^^ n) (chSemSignalI sp s))"
    using Suc i by (intro Suc.IH) (auto simp: iclass_def)
  then show ?case using iclass_trans [OF i] by (simp add: funpow_swap1)
qed (simp add: iclass_refl)

interpretation sem_add: iclass_op "chSemAddCounterI a n"
  "\<lambda>s. sint (s_cnt (sem s a)) + max 0 (sint n) \<le> 2147483647" for a n
  by unfold_locales (auto simp: chSemAddCounterI_signals intro!: signals_iclass)

lemma chSemReset_safe:
  assumes "kinvU s" and "me = currp s" and "sint (s_cnt (sem s sp)) < 2147483647" and "0 \<le> sint n"
  shows "safe me (\<lambda>_ s'. returned me s s') s (chSemReset sp n s)"
  unfolding chSemReset_def
  by (rule safe_returned [OF sem_reset.then_reschedule])
    (use assms cur_state [of s] in \<open>auto simp: kinvU_L kinvL_def\<close>)

lemma chBSemSignal_safe:
  assumes "kinvU s" and "me = currp s"
  shows "safe me (\<lambda>_ s'. returned me s s') s (chBSemSignal sp s)"
  unfolding chBSemSignal_def
  by (rule safe_returned [OF bsem_signal.then_reschedule])
    (use assms cur_state [of s] in \<open>auto simp: kinvU_L kinvL_def\<close>)

lemma chSemSignalWait_safe:
  assumes K: "kinvU s" and me: "me = currp s" and ni: "me \<noteq> idle_thread s"
    and c: "sint (s_cnt (sem s sps)) < 2147483647"
  shows "safe me (\<lambda>m s'. returned me s s' \<and> (m = RDY_OK \<or> m = RDY_RESET)) s (chSemSignalWait sps spw s)"
    (is "safe me ?Q s _")
proof -
  define s2 where "s2 = chSemSignalI sps s"
  have K': "kinv s" using K by (simp add: kinvU_def)
  have i: "iclass s s2" unfolding s2_def by (rule chSemSignalI_iclass [OF K' c])
  have KL: "kinvL s2" using iclass_L [OF i] K by (simp add: kinvU_L)
  have me2: "me = currp s2" "idle_thread s2 = idle_thread s" "kept me s s2"
    using i me iclass_kept [OF i K' me] by (simp_all add: iclass_def kept_def)
  have K2: "kinv s2" "kinv0 s2" using KL by (simp_all add: kinvL_def kinv_def)
  let ?s3 = "upd_sem spw (\<lambda>x. x\<lparr>s_cnt := s_cnt x - 1\<rparr>) s2"
  have s2': "(let s1 = upd_sem sps (\<lambda>x. x\<lparr>s_cnt := s_cnt x + 1\<rparr>) s
      in if sint (s_cnt (sem s1 sps)) \<le> 0
         then let (tp, s2) = sem_fifo_remove sps s1 in ready_with tp RDY_OK s2 else s1) = s2"
    unfolding s2_def by (rule sem_add_step)
  have "safe me ?Q s2 (chSemSignalWait sps spw s)"
  proof (cases "sint (s_cnt (sem s2 spw) - 1) < 0")
    case True
    define s5 where "s5 = upd_thd me (\<lambda>t. t\<lparr>p_u := spw\<rparr>) (sem_insert me spw ?s3)"
    have p: "parked THD_STATE_WTSEM me (PSem spw) s2 s5"
      by (rule sem_park [OF KL me2(1)]) (use True sem_cnt_dec_neg [OF K2(2), of spw] in \<open>auto simp: s5_def sem_insert_def\<close>)
    have u: "\<not> chVTIsArmedI (OnStack me) s5" using KL me2 by (simp add: kinvL_def chVTIsArmedI_def s5_def sem_insert_def)
    have run: "chSemSignalWait sps spw s = rbind (chSchGoSleepS THD_STATE_WTSEM s5) (\<lambda>_ s6. Done (p_u (thd s6 me)) s6)"
      unfolding chSemSignalWait_def s5_def s2' [symmetric] using True [folded s2'] me2(1) [folded s2']
      by (simp only: Let_def) simp
    show ?thesis unfolding run
    proof (rule safe_bind [OF goSleep_returned [OF KL me2(1) _ p]])
      fix a :: unit and s' assume s': "returned me s2 s' \<and> rely me (sleeping THD_STATE_WTSEM me s5) s'"
      have "p_u (thd s' me) \<in> {RDY_OK, RDY_RESET}"
        using rely_wait_msg [of me THD_STATE_WTSEM s5 s'] s' u by (auto simp: returned_def kinvU_def)
      then show "safe me ?Q s' (Done (p_u (thd s' me)) s')"
        using s' returned_trans [OF me2(3)] by (intro safe_Done) auto
    qed (use ni me2 in \<open>auto simp: s5_def sem_insert_def\<close>)
  next
    case False
    note j = sem_taken_iclass [OF K2(1) False]
    have run: "chSemSignalWait sps spw s = rbind (chSchRescheduleS ?s3) (\<lambda>_ s6. Done RDY_OK s6)"
      unfolding chSemSignalWait_def s2' [symmetric] using False [folded s2'] by (simp only: Let_def) simp
    have k3: "kept me s ?s3" using me2(3) by (simp add: kept_def)
    have "safe me (returns me ?s3) s2 (chSchRescheduleS ?s3)"
      by (rule safe_rebase [OF chSchRescheduleS_safe iclass_guar [OF j]]) (use iclass_L [OF j KL] me2 in auto)
    then show ?thesis unfolding run
    proof (rule safe_bind)
      fix a :: unit and s' assume s': "kinvU s' \<and> currp s' = me \<and> rely me ?s3 s'"
      have "state_of ?s3 me = THD_STATE_CURRENT" using cur_state [OF K2(1)] me2 by simp
      then have "kept me ?s3 s'" using s' by (intro rely_kept) auto
      then show "safe me ?Q s' (Done RDY_OK s')"
        using s' kept_trans [OF k3] by (intro safe_Done) (auto simp: returned_def)
    qed
  qed
  then show ?thesis by (rule safe_rebase) (rule iclass_guar [OF i])
qed

text \<open>A binary semaphore stays binary.\<close>

lemma chBSemSignalI_binary:
  assumes "sint (s_cnt (sem s a)) \<le> 1"
  shows "sint (s_cnt (sem (chBSemSignalI a s) a)) \<le> 1"
proof (cases "sint (s_cnt (sem s a)) < 1")
  case True
  then have "sint (s_cnt (sem s a) + 1) = sint (s_cnt (sem s a)) + 1" by (intro sint_inc) simp
  then show ?thesis using True by (simp add: chBSemSignalI_def)
qed (use assms in \<open>simp add: chBSemSignalI_def\<close>)

section \<open>Properties\<close>

text \<open>
  C6: waiting on a semaphore with a timeout, from any state in which the kernel is unlocked
  and by any thread but the idle one.  The call keeps the kernel invariant wherever it gives
  up the processor and does to other threads only what they expect; it returns with the
  invariant restored, the caller running, its mutexes, priority and message queue intact, and
  with one of the three documented messages, a timeout only if the time is not infinite.  With
  \<open>TIME_IMMEDIATE\<close> it never blocks, and with a positive counter it takes one unit at once.
\<close>

theorem sem_wait_timeout_contract:
  assumes "kinvU s" and "me = currp s" and "me \<noteq> idle_thread s"
  shows "safe me (\<lambda>m s'. returned me s s' \<and>
      (m = RDY_OK \<or> m = RDY_RESET \<or> (m = RDY_TIMEOUT \<and> time \<noteq> TIME_INFINITE))) s
      (chSemWaitTimeoutS sp time s) \<and>
    (time = TIME_IMMEDIATE \<longrightarrow> is_Done (chSemWaitTimeoutS sp time s)) \<and>
    (0 < sint (s_cnt (sem s sp)) \<longrightarrow>
       chSemWaitTimeoutS sp time s = Done RDY_OK (upd_sem sp (\<lambda>x. x\<lparr>s_cnt := s_cnt x - 1\<rparr>) s))"
proof -
  have "sint (s_cnt (sem s sp) - 1) < 0 \<longleftrightarrow> sint (s_cnt (sem s sp)) \<le> 0"
    using assms(1) by (intro sem_cnt_dec_neg) (simp add: kinvU_def kinv_def)
  then show ?thesis
    using chSemWaitTimeoutS_safe [OF assms, of time sp] by (simp add: chSemWaitTimeoutS_def Let_def)
qed

theorem sem_wait_timeout_contract_witness:
  "safe 4096 (\<lambda>m s'. returned 4096 sample s' \<and>
      (m = RDY_OK \<or> m = RDY_RESET \<or> (m = RDY_TIMEOUT \<and> 10 \<noteq> TIME_INFINITE))) sample
      (chSemWaitTimeoutS 256 10 sample)"
  using sem_wait_timeout_contract [OF sample_kinvU, of 4096 10 256] by simp

text \<open>
  C7: a signal on a semaphore with waiting threads wakes the one that has waited longest, and
  only that one: it leaves the queue with the message \<open>RDY_OK\<close>, joins the ready list, and the
  counter goes up by one; every other thread and every other semaphore is as before, and the
  kernel invariant holds.
\<close>

theorem sem_signal_fifo:
  assumes K: "kinv s" and q: "s_queue (sem s sp) = t # q"
  shows "iclass s (chSemSignalI sp s) \<and>
    state_of (chSemSignalI sp s) t = THD_STATE_READY \<and> p_u (thd (chSemSignalI sp s) t) = RDY_OK \<and>
    set (r_queue (chSemSignalI sp s)) = insert t (set (r_queue s)) \<and>
    sem (chSemSignalI sp s) = (sem s)(sp := \<lparr>s_queue = q, s_cnt = s_cnt (sem s sp) + 1\<rparr>) \<and>
    (\<forall>x. x \<noteq> t \<longrightarrow> thd (chSemSignalI sp s) x = thd s x)"
proof -
  have S: "sems_ok s" using K by (simp add: kinv_def kinv0_def)
  have c: "sint (s_cnt (sem s sp)) < 2147483647" using sems_neg [OF S, of sp] q by simp
  have e: "(sem s sp)\<lparr>s_cnt := s_cnt (sem s sp) + 1, s_queue := q\<rparr> = \<lparr>s_queue = q, s_cnt = s_cnt (sem s sp) + 1\<rparr>"
    by simp
  show ?thesis
    using chSemSignalI_iclass [OF K c] unfolding chSemSignalI_cases(2) [OF S c q] by (simp add: e)
qed

theorem sem_signal_fifo_witness:
  "kinv sample \<and> s_queue (sem sample 256) = [12288] \<and>
   state_of (chSemSignalI 256 sample) 12288 = THD_STATE_READY"
  using sem_signal_fifo [OF sample_kinv, of 256 12288 "[]"] sample_kinv by simp

lemma fold_ready_with:
  assumes "distinct ts"
  shows "sem (fold (\<lambda>t. ready_with t m) ts s) = sem s"
    "x \<in> set ts \<Longrightarrow> state_of (fold (\<lambda>t. ready_with t m) ts s) x = THD_STATE_READY \<and>
       p_u (thd (fold (\<lambda>t. ready_with t m) ts s) x) = m"
    "x \<notin> set ts \<Longrightarrow> thd (fold (\<lambda>t. ready_with t m) ts s) x = thd s x"
  using assms
proof (induction ts arbitrary: s)
  case (Cons t ts)
  { case 1 then show ?case using Cons by (simp add: ready_with_eq) }
  { case 2
    have "t \<notin> set ts" "distinct ts" using 2 by auto
    then show ?case using 2 Cons.IH(2) [of "ready_with t m s"] Cons.IH(3) [of "ready_with t m s"]
      by (cases "x = t") (auto simp: ready_with_def) }
  { case 3 then show ?case using Cons.IH(3) [of "ready_with t m s"] by (auto simp: ready_with_def) }
qed simp_all

lemma chSemResetI_fold:
  assumes K: "kinv s" and c: "sint (s_cnt (sem s sp)) < 2147483647"
  shows "chSemResetI sp n s = fold (\<lambda>t. ready_with t RDY_RESET) (rev (s_queue (sem s sp)))
      (upd_sem sp (\<lambda>x. \<lparr>s_queue = [], s_cnt = n\<rparr>) s)"
proof -
  have S: "sems_ok s" using K by (simp add: kinv_def kinv0_def)
  have e: "upd_sem sp (\<lambda>x. x\<lparr>s_queue := []\<rparr>) (upd_sem sp (\<lambda>x. x\<lparr>s_cnt := n\<rparr>) s) =
      upd_sem sp (\<lambda>x. \<lparr>s_queue = [], s_cnt = n\<rparr>) s"
    by (intro kstate.equality) (auto intro: Semaphore.equality)
  show ?thesis unfolding chSemResetI_def Let_def
    by (subst sem_reset_loop_fold) (use S c e in \<open>auto simp: sems_ok_def\<close>)
qed

lemma chSemResetI_effect:
  assumes K: "kinv s" and c: "sint (s_cnt (sem s sp)) < 2147483647"
  shows "sem (chSemResetI sp n s) = (sem s)(sp := \<lparr>s_queue = [], s_cnt = n\<rparr>)"
    and "if t \<in> set (s_queue (sem s sp))
      then state_of (chSemResetI sp n s) t = THD_STATE_READY \<and> p_u (thd (chSemResetI sp n s) t) = RDY_RESET
      else thd (chSemResetI sp n s) t = thd s t"
proof -
  have "distinct (rev (s_queue (sem s sp)))" using K places_distinct [of s "PSem sp"] by (simp add: kinv_def kinv0_def)
  note F = fold_ready_with [OF this, where s = "upd_sem sp (\<lambda>x. \<lparr>s_queue = [], s_cnt = n\<rparr>) s"]
  show "sem (chSemResetI sp n s) = (sem s)(sp := \<lparr>s_queue = [], s_cnt = n\<rparr>)"
    unfolding chSemResetI_fold [OF K c] F(1) by simp
  show "if t \<in> set (s_queue (sem s sp))
      then state_of (chSemResetI sp n s) t = THD_STATE_READY \<and> p_u (thd (chSemResetI sp n s) t) = RDY_RESET
      else thd (chSemResetI sp n s) t = thd s t"
    using F(2,3) [of t] unfolding chSemResetI_fold [OF K c] by simp
qed

text \<open>
  Resetting a semaphore releases every waiting thread with the message \<open>RDY_RESET\<close>, in
  reverse order of arrival, leaves the queue empty and the counter at the given value, and
  keeps the kernel invariant.
\<close>

theorem sem_reset_releases_all:
  assumes K: "kinv s" and c: "sint (s_cnt (sem s sp)) < 2147483647" and n: "0 \<le> sint n"
  shows "iclass s (chSemResetI sp n s) \<and>
    chSemResetI sp n s = fold (\<lambda>t. ready_with t RDY_RESET) (rev (s_queue (sem s sp)))
      (upd_sem sp (\<lambda>x. \<lparr>s_queue = [], s_cnt = n\<rparr>) s) \<and>
    sem (chSemResetI sp n s) sp = \<lparr>s_queue = [], s_cnt = n\<rparr> \<and>
    (\<forall>t. if t \<in> set (s_queue (sem s sp))
         then state_of (chSemResetI sp n s) t = THD_STATE_READY \<and> p_u (thd (chSemResetI sp n s) t) = RDY_RESET
         else thd (chSemResetI sp n s) t = thd s t)"
  by (intro conjI allI chSemResetI_iclass [OF K c n] chSemResetI_fold [OF K c] chSemResetI_effect(2) [OF K c])
    (simp add: chSemResetI_effect(1) [OF K c])

theorem sem_reset_releases_all_witness:
  "kinv sample \<and> sem (chSemResetI 256 1 sample) 256 = \<lparr>s_queue = [], s_cnt = 1\<rparr>"
  using sem_reset_releases_all [OF sample_kinv, of 256 1] sample_kinv by auto

end
