(* ===== verification/Mutexes.thy ===== *)
theory Mutexes
  imports Semaphores
begin

text \<open>
  Mutexes with priority inheritance (\<^verbatim>\<open>os/kernel/src/chmtx.c\<close>, \<^verbatim>\<open>os/kernel/include/chmtx.h\<close>).
  The list of mutexes a thread owns, linked through \<open>m_next\<close> in the source, is the list
  \<open>p_mtxlist\<close>; unlocking takes its head, which for a thread that owns none is as unspecified
  here as the null dereference is there.
\<close>

section \<open>Operations\<close>

definition chMtxInit :: "addr \<Rightarrow> kstate \<Rightarrow> kstate" where
  "chMtxInit mp s = upd_mtx mp (\<lambda>x. x\<lparr>m_queue := [], m_owner := NULL\<rparr>) s"

definition chMtxQueueNotEmptyS :: "addr \<Rightarrow> kstate \<Rightarrow> bool" where
  "chMtxQueueNotEmptyS mp s \<longleftrightarrow> m_queue (mtx s mp) \<noteq> []"

text \<open>\<open>prio_insert\<close> into the queue of a mutex or of a condition variable.\<close>

definition mtx_prio_insert :: "addr \<Rightarrow> addr \<Rightarrow> kstate \<Rightarrow> kstate" where
  "mtx_prio_insert tp mp s = upd_mtx mp (\<lambda>x. x\<lparr>m_queue := ins_behind (prio s) tp (m_queue x)\<rparr>) s"

definition cond_prio_insert :: "addr \<Rightarrow> addr \<Rightarrow> kstate \<Rightarrow> kstate" where
  "cond_prio_insert tp cp s = upd_cond cp (\<lambda>x. x\<lparr>c_queue := ins_behind (prio s) tp (c_queue x)\<rparr>) s"

lemma unlink_thd [simp]:
  "p_prio (thd (unlink tp s) x) = p_prio (thd s x)" "p_state (thd (unlink tp s) x) = p_state (thd s x)"
  "p_u (thd (unlink tp s) x) = p_u (thd s x)" "p_mtxlist (thd (unlink tp s) x) = p_mtxlist (thd s x)"
  "p_realprio (thd (unlink tp s) x) = p_realprio (thd s x)" "p_waiting (thd (unlink tp s) x) = p_waiting (thd s x)"
  "m_owner (mtx (unlink tp s) m) = m_owner (mtx s m)"
  by (simp_all add: unlink_def)

text \<open>
  The loop of \<open>chMtxLockS\<close> that lends the priority of the running thread along the chain of
  owners.  It ends, even when the threads wait for each other in a circle: each round raises
  the priority of a thread that was below that of the running one.
\<close>

function mtx_boost :: "addr \<Rightarrow> addr \<Rightarrow> kstate \<Rightarrow> kstate" where
  "mtx_boost ctp tp s =
     (if prio s tp < prio s ctp
      then let s1 = upd_thd tp (\<lambda>t. t\<lparr>p_prio := prio s ctp\<rparr>) s
           in case state_of s1 tp of
                THD_STATE_WTMTX \<Rightarrow>
                  (let mp = p_u (thd s1 tp); s2 = mtx_prio_insert tp mp (unlink tp s1)
                   in mtx_boost ctp (m_owner (mtx s2 mp)) s2)
              | THD_STATE_WTCOND \<Rightarrow> cond_prio_insert tp (p_u (thd s1 tp)) (unlink tp s1)
              | THD_STATE_READY \<Rightarrow> chSchReadyI tp (unlink tp s1)
              | _ \<Rightarrow> s1
      else s)"
  by pat_completeness auto

termination mtx_boost
proof (relation "measure (\<lambda>(ctp, tp, s). card {t. prio s t < prio s ctp})")
  fix ctp tp s s1 mp s2
  assume lt: "prio s tp < prio s ctp" and s1: "s1 = upd_thd tp (\<lambda>t. t\<lparr>p_prio := prio s ctp\<rparr>) s"
    and s2: "s2 = mtx_prio_insert tp mp (unlink tp s1)"
  have p: "prio s2 x = (if x = tp then prio s ctp else prio s x)" for x
    by (simp add: s2 mtx_prio_insert_def s1)
  have "{t. prio s2 t < prio s2 ctp} \<subseteq> {t. prio s t < prio s ctp} - {tp}" by (auto simp: p)
  then have "card {t. prio s2 t < prio s2 ctp} \<le> card ({t. prio s t < prio s ctp} - {tp})"
    by (intro card_mono) auto
  also have "\<dots> < card {t. prio s t < prio s ctp}" using lt by (intro card_Diff1_less) auto
  finally show "((ctp, m_owner (mtx s2 mp), s2), ctp, tp, s) \<in>
      measure (\<lambda>(ctp, tp, s). card {t. prio s t < prio s ctp})" by simp
qed simp

declare mtx_boost.simps [simp del]

definition chMtxLockS :: "addr \<Rightarrow> kstate \<Rightarrow> unit run" where
  "chMtxLockS mp s =
     (let ctp = currp s
      in if m_owner (mtx s mp) \<noteq> NULL
         then let s1 = mtx_boost ctp (m_owner (mtx s mp)) s;
                  s2 = mtx_prio_insert ctp mp s1;
                  s3 = upd_thd ctp (\<lambda>t. t\<lparr>p_u := mp\<rparr>) s2
              in chSchGoSleepS THD_STATE_WTMTX s3
         else Done () (upd_thd ctp (\<lambda>t. t\<lparr>p_mtxlist := mp # p_mtxlist t\<rparr>)
                (upd_mtx mp (\<lambda>x. x\<lparr>m_owner := ctp\<rparr>) s)))"

definition chMtxLock :: "addr \<Rightarrow> kstate \<Rightarrow> unit run" where
  "chMtxLock mp s = chMtxLockS mp s"

definition chMtxTryLockS :: "addr \<Rightarrow> kstate \<Rightarrow> bool \<times> kstate" where
  "chMtxTryLockS mp s =
     (if m_owner (mtx s mp) \<noteq> NULL then (False, s)
      else (True, upd_thd (currp s) (\<lambda>t. t\<lparr>p_mtxlist := mp # p_mtxlist t\<rparr>)
              (upd_mtx mp (\<lambda>x. x\<lparr>m_owner := currp s\<rparr>) s)))"

definition chMtxTryLock :: "addr \<Rightarrow> kstate \<Rightarrow> bool \<times> kstate" where
  "chMtxTryLock mp s = chMtxTryLockS mp s"

text \<open>The scan of the owned mutexes for the highest priority that waits on them.\<close>

fun mtx_newprio :: "kstate \<Rightarrow> addr list \<Rightarrow> tprio_t \<Rightarrow> tprio_t" where
  "mtx_newprio s [] newprio = newprio"
| "mtx_newprio s (mp # mps) newprio =
     mtx_newprio s mps
       (if chMtxQueueNotEmptyS mp s \<and> prio s (hd (m_queue (mtx s mp))) > newprio
        then prio s (hd (m_queue (mtx s mp))) else newprio)"

text \<open>The first waiting thread becomes the owner.\<close>

definition mtx_handoff :: "addr \<Rightarrow> kstate \<Rightarrow> addr \<times> kstate" where
  "mtx_handoff ump s =
     (let (tp, q) = fifo_take ump (m_queue (mtx s ump));
          s1 = upd_mtx ump (\<lambda>x. x\<lparr>m_queue := q, m_owner := tp\<rparr>) s
      in (tp, upd_thd tp (\<lambda>t. t\<lparr>p_mtxlist := ump # p_mtxlist t\<rparr>) s1))"

definition chMtxUnlock :: "kstate \<Rightarrow> addr run" where
  "chMtxUnlock s =
     (let ctp = currp s;
          ump = hd (p_mtxlist (thd s ctp));
          s1 = upd_thd ctp (\<lambda>t. t\<lparr>p_mtxlist := tl (p_mtxlist t)\<rparr>) s
      in if chMtxQueueNotEmptyS ump s1
         then let newprio = mtx_newprio s1 (p_mtxlist (thd s1 ctp)) (p_realprio (thd s1 ctp));
                  s2 = upd_thd ctp (\<lambda>t. t\<lparr>p_prio := newprio\<rparr>) s1;
                  (tp, s3) = mtx_handoff ump s2
              in rbind (chSchWakeupS tp RDY_OK s3) (\<lambda>_ s4. Done ump s4)
         else Done ump (upd_mtx ump (\<lambda>x. x\<lparr>m_owner := NULL\<rparr>) s1))"

definition chMtxUnlockS :: "kstate \<Rightarrow> addr \<times> kstate" where
  "chMtxUnlockS s =
     (let ctp = currp s;
          ump = hd (p_mtxlist (thd s ctp));
          s1 = upd_thd ctp (\<lambda>t. t\<lparr>p_mtxlist := tl (p_mtxlist t)\<rparr>) s
      in if chMtxQueueNotEmptyS ump s1
         then let newprio = mtx_newprio s1 (p_mtxlist (thd s1 ctp)) (p_realprio (thd s1 ctp));
                  s2 = upd_thd ctp (\<lambda>t. t\<lparr>p_prio := newprio\<rparr>) s1;
                  (tp, s3) = mtx_handoff ump s2
              in (ump, chSchReadyI tp s3)
         else (ump, upd_mtx ump (\<lambda>x. x\<lparr>m_owner := NULL\<rparr>) s1))"

text \<open>The loop of \<open>chMtxUnlockAll\<close>.\<close>

definition waiter_count :: "kstate \<Rightarrow> nat" where
  "waiter_count s = (\<Sum>m\<in>UNIV. length (m_queue (mtx s m)))"

definition unlock_round :: "addr \<Rightarrow> addr \<Rightarrow> addr list \<Rightarrow> kstate \<Rightarrow> kstate" where
  "unlock_round ctp ump mps s =
     (let s1 = upd_thd ctp (\<lambda>t. t\<lparr>p_mtxlist := mps\<rparr>) s
      in if chMtxQueueNotEmptyS ump s1
         then let (tp, s2) = mtx_handoff ump s1 in chSchReadyI tp s2
         else upd_mtx ump (\<lambda>x. x\<lparr>m_owner := NULL\<rparr>) s1)"

function unlock_all_loop :: "addr \<Rightarrow> kstate \<Rightarrow> kstate" where
  "unlock_all_loop ctp s =
     (case p_mtxlist (thd s ctp) of
        [] \<Rightarrow> s
      | ump # mps \<Rightarrow> unlock_all_loop ctp (unlock_round ctp ump mps s))"
  by pat_completeness auto

lemma waiter_count_handoff:
  assumes "m_queue (mtx s ump) = tp # q"
  shows "waiter_count (chSchReadyI tp (snd (mtx_handoff ump s))) < waiter_count s"
proof -
  have "waiter_count (chSchReadyI tp (snd (mtx_handoff ump s))) =
      (\<Sum>m\<in>UNIV. if m = ump then length q else length (m_queue (mtx s m)))"
    using assms by (auto simp: waiter_count_def mtx_handoff_def intro!: sum.cong)
  also have "\<dots> < waiter_count s"
    unfolding waiter_count_def using assms by (intro sum_strict_mono_ex1) (auto intro!: bexI [of _ ump])
  finally show ?thesis .
qed

termination unlock_all_loop
proof (relation "measures [\<lambda>(ctp, s). waiter_count s, \<lambda>(ctp, s). length (p_mtxlist (thd s ctp))]")
  fix ctp ump :: addr and s :: kstate and mps :: "addr list"
  assume l: "p_mtxlist (thd s ctp) = ump # mps"
  define s1 where s1: "s1 = upd_thd ctp (\<lambda>t. t\<lparr>p_mtxlist := mps\<rparr>) s"
  have w: "waiter_count s1 = waiter_count s" "m_queue (mtx s1 ump) = m_queue (mtx s ump)"
    by (simp_all add: s1 waiter_count_def)
  show "((ctp, unlock_round ctp ump mps s), ctp, s) \<in>
    measures [\<lambda>(ctp, s). waiter_count s, \<lambda>(ctp, s). length (p_mtxlist (thd s ctp))]"
  proof (cases "m_queue (mtx s1 ump)")
    case Nil
    have "waiter_count (upd_mtx ump (\<lambda>x. x\<lparr>m_owner := NULL\<rparr>) s1) = waiter_count s1"
      by (auto simp: waiter_count_def intro!: sum.cong)
    then show ?thesis using Nil w l by (simp add: unlock_round_def chMtxQueueNotEmptyS_def s1)
  next
    case (Cons tp q)
    have "fst (mtx_handoff ump s1) = tp" using Cons by (simp add: mtx_handoff_def)
    then show ?thesis
      using Cons waiter_count_handoff [OF Cons] w
      by (simp add: unlock_round_def s1 [symmetric] chMtxQueueNotEmptyS_def case_prod_beta del: upd_thd_def)
  qed
qed simp

declare unlock_all_loop.simps [simp del]

definition chMtxUnlockAll :: "kstate \<Rightarrow> unit run" where
  "chMtxUnlockAll s =
     (let ctp = currp s
      in if p_mtxlist (thd s ctp) \<noteq> []
         then let s1 = unlock_all_loop ctp s;
                  s2 = upd_thd ctp (\<lambda>t. t\<lparr>p_prio := p_realprio t\<rparr>) s1
              in chSchRescheduleS s2
         else Done () s)"

section \<open>Priority inheritance\<close>

text \<open>
  \<open>raised tp P s s'\<close>: thread \<open>tp\<close> now has priority \<open>P\<close> and its place in the queue it waits
  in is the one for that priority; nothing else has changed.
\<close>

definition raised :: "addr \<Rightarrow> tprio_t \<Rightarrow> kstate \<Rightarrow> kstate \<Rightarrow> bool" where
  "raised tp P s s' \<longleftrightarrow>
     (\<forall>x. thd s' x = (thd s x)\<lparr>p_prio := if x = tp then P else prio s x\<rparr>) \<and>
     (\<forall>r. distinct (queue_of s' r) \<and> set (queue_of s' r) = set (queue_of s r)) \<and> ordered s' \<and>
     (\<forall>m. m_owner (mtx s' m) = m_owner (mtx s m)) \<and> (\<forall>a. s_cnt (sem s' a) = s_cnt (sem s a)) \<and>
     (\<forall>a. length (s_queue (sem s' a)) = length (s_queue (sem s a))) \<and>
     vts s' = vts s \<and> vtlist s' = vtlist s \<and> currp s' = currp s \<and> idle_thread s' = idle_thread s"

lemma raised_requeue:
  assumes P: "places s" and O: "ordered s" and tp: "tp \<in> set (queue_of s p)" and p: "prio_queue p"
    and fr: "\<And>x. thd s' x = (thd s x)\<lparr>p_prio := if x = tp then pr else prio s x\<rparr>"
    and q: "queue_of s' p = ins_behind (prio s') tp (remove1 tp (queue_of s p))"
    and oth: "\<And>r. r \<noteq> p \<Longrightarrow> queue_of s' r = queue_of s r"
    and rest: "\<And>m. m_owner (mtx s' m) = m_owner (mtx s m)" "\<And>a. s_cnt (sem s' a) = s_cnt (sem s a)"
      "vts s' = vts s" "vtlist s' = vtlist s" "currp s' = currp s" "idle_thread s' = idle_thread s"
  shows "raised tp pr s s'"
proof -
  have d: "distinct (queue_of s r)" for r by (rule places_distinct [OF P])
  have "distinct (queue_of s' r) \<and> set (queue_of s' r) = set (queue_of s r)" for r
    using q oth [of r] d [of r] tp by (cases "r = p") (auto simp: distinct_remove1)
  moreover have "desc (prio s') (queue_of s' r)" if "prio_queue r" for r
  proof (cases "r = p")
    case True
    have "desc (prio s) (remove1 tp (queue_of s p))" using O p by (simp add: ordered_def desc_remove1)
    moreover have "desc (prio s') (remove1 tp (queue_of s p)) = desc (prio s) (remove1 tp (queue_of s p))"
      by (rule desc_cong) (use d [of p] fr in auto)
    ultimately show ?thesis using True q by (simp add: desc_ins_behind)
  next
    case False
    then have "tp \<notin> set (queue_of s r)" using places_unique [OF P tp] by auto
    then have "desc (prio s') (queue_of s r) = desc (prio s) (queue_of s r)"
      by (intro desc_cong) (use fr in auto)
    then show ?thesis using oth [OF False] O that by (simp add: ordered_def)
  qed
  moreover have "length (s_queue (sem s' a)) = length (s_queue (sem s a))" for a
    using oth [of "PSem a"] p by (cases "PSem a = p") auto
  ultimately show ?thesis using fr rest by (simp add: raised_def ordered_def)
qed

lemma raised_in_place:
  assumes P: "places s" and O: "ordered s" and tp: "\<And>p. prio_queue p \<Longrightarrow> tp \<notin> set (queue_of s p)"
  shows "raised tp pr s (upd_thd tp (\<lambda>t. t\<lparr>p_prio := pr\<rparr>) s)"
proof -
  let ?s = "upd_thd tp (\<lambda>t. t\<lparr>p_prio := pr\<rparr>) s"
  have q: "queue_of ?s r = queue_of s r" for r by (cases r) auto
  have "desc (prio ?s) (queue_of s r) = desc (prio s) (queue_of s r)" if "prio_queue r" for r
    by (rule desc_cong) (use tp [OF that] in auto)
  then have "ordered ?s" using O q by (simp add: ordered_def)
  then show ?thesis using places_distinct [OF P] q by (auto simp: raised_def)
qed

lemma unlink_queues:
  assumes "places s" and "tp \<in> set (queue_of s p)" and "\<And>x. p \<noteq> PExit x" "\<And>x. p \<noteq> PMsg x"
  shows "queue_of (unlink tp s) r = (if r = p then remove1 tp (queue_of s p) else queue_of s r)"
    and "thd (unlink tp s) = thd s"
proof -
  have n: "tp \<notin> set (queue_of s r)" if "r \<noteq> p" for r using places_unique [OF assms(1,2), of r] that by auto
  show "queue_of (unlink tp s) r = (if r = p then remove1 tp (queue_of s p) else queue_of s r)"
    using n [of r] assms(3,4) by (cases r) (auto simp: unlink_def remove1_idem)
  have "tp \<notin> set (p_msgqueue (thd s x))" for x using n [of "PMsg x"] assms(4) [of x] by auto
  then show "thd (unlink tp s) = thd s" by (simp add: unlink_def remove1_idem)
qed

lemma prio_upd_places:
  assumes "places s" shows "places (upd_thd tp (\<lambda>t. t\<lparr>p_prio := pr\<rparr>) s)"
    "queue_of (upd_thd tp (\<lambda>t. t\<lparr>p_prio := pr\<rparr>) s) = queue_of s"
proof -
  show q: "queue_of (upd_thd tp (\<lambda>t. t\<lparr>p_prio := pr\<rparr>) s) = queue_of s"
  proof
    show "queue_of (upd_thd tp (\<lambda>t. t\<lparr>p_prio := pr\<rparr>) s) r = queue_of s r" for r by (cases r) auto
  qed
  have "place_ok (thd (upd_thd tp (\<lambda>t. t\<lparr>p_prio := pr\<rparr>) s) x) = place_ok (thd s x)" for x
    by (intro ext place_ok_cong) auto
  then show "places (upd_thd tp (\<lambda>t. t\<lparr>p_prio := pr\<rparr>) s)"
    using assms q unfolding places_def by metis
qed

text \<open>The reordering that each case of the switch performs.\<close>

lemma raised_cases:
  assumes P: "places s" and O: "ordered s"
    and s1: "s1 = upd_thd tp (\<lambda>t. t\<lparr>p_prio := pr\<rparr>) s"
  shows "state_of s tp = THD_STATE_WTMTX \<Longrightarrow> raised tp pr s (mtx_prio_insert tp (p_u (thd s tp)) (unlink tp s1))"
    and "state_of s tp = THD_STATE_WTCOND \<Longrightarrow> raised tp pr s (cond_prio_insert tp (p_u (thd s tp)) (unlink tp s1))"
    and "state_of s tp = THD_STATE_READY \<Longrightarrow> raised tp pr s (chSchReadyI tp (unlink tp s1))"
    and "state_of s tp \<notin> {THD_STATE_WTMTX, THD_STATE_WTCOND, THD_STATE_READY} \<Longrightarrow> raised tp pr s s1"
proof -
  have P1: "places s1" and q1: "queue_of s1 = queue_of s" using prio_upd_places [OF P] s1 by auto
  have inq: "tp \<in> set (queue_of s p)" if "\<And>r. place_ok (thd s tp) r \<longleftrightarrow> r = p" and "p \<noteq> PNone" for p
    using places_queued [OF P, of tp] that by metis
  have fr: "thd s1 x = (thd s x)\<lparr>p_prio := if x = tp then pr else prio s x\<rparr>" for x by (simp add: s1)
  {
    assume st: "state_of s tp = THD_STATE_WTMTX"
    then have t: "tp \<in> set (queue_of s (PMtx (p_u (thd s tp))))" by (intro inq) (auto simp: place_ok_def)
    note u = unlink_queues [OF P1, of tp "PMtx (p_u (thd s tp))", unfolded q1, OF t, simplified]
    show "raised tp pr s (mtx_prio_insert tp (p_u (thd s tp)) (unlink tp s1))"
    proof (rule raised_requeue [OF P O t])
      show "queue_of (mtx_prio_insert tp (p_u (thd s tp)) (unlink tp s1)) (PMtx (p_u (thd s tp))) =
        ins_behind (prio (mtx_prio_insert tp (p_u (thd s tp)) (unlink tp s1))) tp
          (remove1 tp (queue_of s (PMtx (p_u (thd s tp)))))"
        using u(1) [of "PMtx (p_u (thd s tp))"] by (simp add: mtx_prio_insert_def)
      show "queue_of (mtx_prio_insert tp (p_u (thd s tp)) (unlink tp s1)) r = queue_of s r"
        if "r \<noteq> PMtx (p_u (thd s tp))" for r
        using u(1) [of r] that by (cases r) (auto simp: mtx_prio_insert_def)
    qed (use fr u(2) in \<open>auto simp: mtx_prio_insert_def unlink_def s1\<close>)
  next
    assume st: "state_of s tp = THD_STATE_WTCOND"
    then have t: "tp \<in> set (queue_of s (PCond (p_u (thd s tp))))" by (intro inq) (auto simp: place_ok_def)
    note u = unlink_queues [OF P1, of tp "PCond (p_u (thd s tp))", unfolded q1, OF t, simplified]
    show "raised tp pr s (cond_prio_insert tp (p_u (thd s tp)) (unlink tp s1))"
    proof (rule raised_requeue [OF P O t])
      show "queue_of (cond_prio_insert tp (p_u (thd s tp)) (unlink tp s1)) (PCond (p_u (thd s tp))) =
        ins_behind (prio (cond_prio_insert tp (p_u (thd s tp)) (unlink tp s1))) tp
          (remove1 tp (queue_of s (PCond (p_u (thd s tp)))))"
        using u(1) [of "PCond (p_u (thd s tp))"] by (simp add: cond_prio_insert_def)
      show "queue_of (cond_prio_insert tp (p_u (thd s tp)) (unlink tp s1)) r = queue_of s r"
        if "r \<noteq> PCond (p_u (thd s tp))" for r
        using u(1) [of r] that by (cases r) (auto simp: cond_prio_insert_def)
    qed (use fr u(2) in \<open>auto simp: cond_prio_insert_def unlink_def s1\<close>)
  next
    assume st: "state_of s tp = THD_STATE_READY"
    then have t: "tp \<in> set (queue_of s PReady)" by (intro inq) (auto simp: place_ok_def)
    note u = unlink_queues [OF P1, of tp PReady, unfolded q1, OF t, simplified]
    have th: "thd (chSchReadyI tp (unlink tp s1)) x = thd s1 x" for x
      using u(2) st by (auto simp: s1 intro!: Thread.equality)
    show "raised tp pr s (chSchReadyI tp (unlink tp s1))"
    proof (rule raised_requeue [OF P O t])
      show "queue_of (chSchReadyI tp (unlink tp s1)) PReady =
        ins_behind (prio (chSchReadyI tp (unlink tp s1))) tp (remove1 tp (queue_of s PReady))"
        using u(1) [of PReady] u(2) th by (auto intro!: ins_cong)
      show "queue_of (chSchReadyI tp (unlink tp s1)) r = queue_of s r" if "r \<noteq> PReady" for r
        using u(1) [of r] that by simp
      show "thd (chSchReadyI tp (unlink tp s1)) x = (thd s x)\<lparr>p_prio := if x = tp then pr else prio s x\<rparr>" for x
        using th fr by metis
    qed (auto simp: unlink_def s1)
  next
    assume st: "state_of s tp \<notin> {THD_STATE_WTMTX, THD_STATE_WTCOND, THD_STATE_READY}"
    show "raised tp pr s s1" unfolding s1
    proof (rule raised_in_place [OF P O])
      show "tp \<notin> set (queue_of s p)" if "prio_queue p" for p
        using that st places_at [OF P, of tp p]
        by (cases p) (auto simp: place_ok_def split: tstate.splits)
    qed
  }
qed

lemma raised_keeps:
  assumes R: "raised tp pr s s'" and P: "places s" and L: "live s" and O: "owners_ok s" and pr: "0 < pr"
  shows "places s'" "live s'" "owners_ok s'"
proof -
  have fr: "p_state (thd s' x) = p_state (thd s x)" "p_u (thd s' x) = p_u (thd s x)"
      "p_mtxlist (thd s' x) = p_mtxlist (thd s x)" "p_realprio (thd s' x) = p_realprio (thd s x)"
      "p_waiting (thd s' x) = p_waiting (thd s x)" "prio s' x = (if x = tp then pr else prio s x)"
      "m_owner (mtx s' m) = m_owner (mtx s m)" for x m
    using R by (auto simp: raised_def)
  have q: "distinct (queue_of s' r)" "set (queue_of s' r) = set (queue_of s r)" for r
    using R by (auto simp: raised_def)
  have "place_ok (thd s' x) = place_ok (thd s x)" for x by (intro ext place_ok_cong) (simp_all add: fr)
  moreover have "linked K (queue_of s) \<Longrightarrow> linked K (queue_of s')" for K
    using q by (auto simp: linked_def)
  ultimately show "places s'" using P unfolding places_def by metis
  show "live s'" using L pr by (simp add: live_def fr)
  have "(m_queue (mtx s' m) = []) = (m_queue (mtx s m) = [])" for m
    using q(2) [of "PMtx m"] by (metis set_empty queue_of.simps(4))
  then show "owners_ok s'" using O by (simp add: owners_ok_def fr)
qed

text \<open>
  While \<open>me\<close> is about to wait for \<open>mp\<close> it counts as a waiter already.  \<open>lending me mp X s\<close>:
  priorities are inherited as they should be, but for the threads in \<open>X\<close>, which have not got
  the priority of \<open>me\<close> yet.
\<close>

definition waiters :: "addr \<Rightarrow> addr \<Rightarrow> kstate \<Rightarrow> addr \<Rightarrow> addr set" where
  "waiters me mp s m = set (m_queue (mtx s m)) \<union> (if m = mp then {me} else {})"

definition lending :: "addr \<Rightarrow> addr \<Rightarrow> addr set \<Rightarrow> kstate \<Rightarrow> bool" where
  "lending me mp X s \<longleftrightarrow> (\<forall>x. state_of s x \<noteq> THD_STATE_FINAL \<longrightarrow>
     p_realprio (thd s x) \<le> prio s x \<and>
     (\<forall>m\<in>set (p_mtxlist (thd s x)). \<forall>w\<in>waiters me mp s m.
        prio s w \<le> prio s x \<or> x \<in> X \<and> prio s w \<le> prio s me) \<and>
     (prio s x = p_realprio (thd s x) \<or>
      (\<exists>m\<in>set (p_mtxlist (thd s x)). \<exists>w\<in>waiters me mp s m. prio s w = prio s x) \<or>
      x \<in> X \<and> prio s x < prio s me))"

text \<open>Someone who waits for \<open>tp\<close> has the priority to lend.\<close>

definition debtor :: "addr \<Rightarrow> addr \<Rightarrow> addr \<Rightarrow> kstate \<Rightarrow> bool" where
  "debtor me mp tp s \<longleftrightarrow> state_of s tp \<noteq> THD_STATE_FINAL \<and>
     (\<exists>m\<in>set (p_mtxlist (thd s tp)). \<exists>w\<in>waiters me mp s m. prio s w = prio s me)"

lemma lending_stop: "lending me mp {tp} s \<Longrightarrow> prio s me \<le> prio s tp \<Longrightarrow> lending me mp {} s"
  unfolding lending_def by (intro allI impI) (smt (verit) empty_iff leD order_trans singletonD)

lemma waits_for:
  "places s \<Longrightarrow> t \<in> set (m_queue (mtx s m)) \<Longrightarrow> state_of s t = THD_STATE_WTMTX \<and> p_u (thd s t) = m"
  using places_at [of s t "PMtx m"] by (auto simp: place_ok_def split: tstate.splits)

lemma waits_in:
  assumes "places s" and "state_of s t = THD_STATE_WTMTX"
  shows "t \<in> set (m_queue (mtx s (p_u (thd s t))))"
proof -
  obtain p where "place_ok (thd s t) p" "t \<in> set (queue_of s p)"
    using places_queued [OF assms(1), of t] assms(2) by (auto simp: place_ok_def)
  then show ?thesis using assms(2) by (auto simp: place_ok_def)
qed

lemma lending_raise:
  assumes l: "lending me mp {tp} s" and lt: "prio s tp < prio s me" and R: "raised tp (prio s me) s s'"
    and P: "places s" and O: "owners_ok s" and d: "debtor me mp tp s"
  shows "lending me mp (if state_of s tp = THD_STATE_WTMTX then {m_owner (mtx s (p_u (thd s tp)))} else {}) s'"
    (is "lending me mp ?X s'")
proof -
  have fr: "p_state (thd s' x) = p_state (thd s x)" "p_mtxlist (thd s' x) = p_mtxlist (thd s x)"
      "p_realprio (thd s' x) = p_realprio (thd s x)"
      "prio s' x = (if x = tp then prio s me else prio s x)" for x
    using R by (auto simp: raised_def)
  have "set (queue_of s' (PMtx m)) = set (queue_of s (PMtx m))" for m
    using R unfolding raised_def by blast
  then have W: "waiters me mp s' m = waiters me mp s m" for m
    by (simp add: waiters_def)
  have me: "me \<noteq> tp" using lt by auto
  have own: "x \<in> ?X \<and> x \<noteq> tp" if "m \<in> set (p_mtxlist (thd s x))" "tp \<in> waiters me mp s m" "state_of s x \<noteq> THD_STATE_FINAL" "x \<noteq> tp" for x m
  proof -
    have "tp \<in> set (m_queue (mtx s m))" using that(2) me by (auto simp: waiters_def split: if_splits)
    then have "state_of s tp = THD_STATE_WTMTX" "p_u (thd s tp) = m" using waits_for [OF P] by auto
    moreover have "m_owner (mtx s m) = x" using O that(1) by (simp add: owners_ok_def)
    ultimately show ?thesis using that by simp
  qed
  show ?thesis unfolding lending_def W fr
  proof (intro allI impI conjI)
    fix x assume al: "state_of s x \<noteq> THD_STATE_FINAL"
    note h = l [unfolded lending_def, rule_format, OF al]
    show "p_realprio (thd s x) \<le> (if x = tp then prio s me else prio s x)" using h lt by auto
    show "\<forall>m\<in>set (p_mtxlist (thd s x)). \<forall>w\<in>waiters me mp s m.
        (if w = tp then prio s me else prio s w) \<le> (if x = tp then prio s me else prio s x) \<or>
        x \<in> ?X \<and> (if w = tp then prio s me else prio s w) \<le> (if me = tp then prio s me else prio s me)"
    proof (intro ballI)
      fix m w assume m: "m \<in> set (p_mtxlist (thd s x))" and w: "w \<in> waiters me mp s m"
      show "(if w = tp then prio s me else prio s w) \<le> (if x = tp then prio s me else prio s x) \<or>
          x \<in> ?X \<and> (if w = tp then prio s me else prio s w) \<le> (if me = tp then prio s me else prio s me)"
        using own [OF m _ al] h [THEN conjunct2, THEN conjunct1, rule_format, OF m w] w lt
        by (cases "w = tp"; cases "x = tp") auto
    qed
    show "(if x = tp then prio s me else prio s x) = p_realprio (thd s x) \<or>
        (\<exists>m\<in>set (p_mtxlist (thd s x)). \<exists>w\<in>waiters me mp s m.
           (if w = tp then prio s me else prio s w) = (if x = tp then prio s me else prio s x)) \<or>
        x \<in> ?X \<and> (if x = tp then prio s me else prio s x) < (if me = tp then prio s me else prio s me)"
    proof (cases "x = tp")
      case True
      obtain m w where "m \<in> set (p_mtxlist (thd s tp))" "w \<in> waiters me mp s m" "prio s w = prio s me"
        using d by (auto simp: debtor_def)
      then show ?thesis using True lt by auto
    next
      case False
      then consider "prio s x = p_realprio (thd s x)"
        | m w where "m \<in> set (p_mtxlist (thd s x))" "w \<in> waiters me mp s m" "prio s w = prio s x"
        using h by auto
      then show ?thesis
      proof cases
        case 2
        then show ?thesis using False own [OF 2(1) _ al False] lt by (cases "w = tp") auto
      qed (use False in simp)
    qed
  qed
qed

definition boosted :: "addr \<Rightarrow> kstate \<Rightarrow> kstate \<Rightarrow> bool" where
  "boosted me s s' \<longleftrightarrow>
     (\<forall>x. thd s' x = (thd s x)\<lparr>p_prio := prio s' x\<rparr>) \<and> prio s' me = prio s me \<and>
     (\<forall>r. set (queue_of s' r) = set (queue_of s r)) \<and>
     (\<forall>m. m_owner (mtx s' m) = m_owner (mtx s m)) \<and> (\<forall>a. s_cnt (sem s' a) = s_cnt (sem s a)) \<and>
     (\<forall>a. length (s_queue (sem s' a)) = length (s_queue (sem s a))) \<and>
     vts s' = vts s \<and> vtlist s' = vtlist s \<and> currp s' = currp s \<and> idle_thread s' = idle_thread s"

lemma boosted_refl: "boosted me s s"
  by (simp add: boosted_def)

lemma boosted_trans:
  assumes "boosted me s s1" and "boosted me s1 s2" shows "boosted me s s2"
proof -
  have "thd s2 x = (thd s x)\<lparr>p_prio := prio s2 x\<rparr>" for x
  proof -
    have "thd s2 x = (thd s1 x)\<lparr>p_prio := prio s2 x\<rparr>" "thd s1 x = (thd s x)\<lparr>p_prio := prio s1 x\<rparr>"
      using assms unfolding boosted_def by blast+
    then show ?thesis by (metis Thread.update_convs(1) Thread.surjective)
  qed
  then show ?thesis using assms by (simp add: boosted_def)
qed

lemma raised_boosted: "raised tp pr s s' \<Longrightarrow> tp \<noteq> me \<Longrightarrow> boosted me s s'"
  by (auto simp: raised_def boosted_def)

text \<open>
  The loop lends the priority of the running thread to every thread it transitively waits
  for, and to no other.
\<close>

definition lent :: "addr \<Rightarrow> addr \<Rightarrow> kstate \<Rightarrow> kstate \<Rightarrow> bool" where
  "lent me mp s s' \<longleftrightarrow> places s' \<and> ordered s' \<and> live s' \<and> owners_ok s' \<and> lending me mp {} s' \<and> boosted me s s'"

lemma mtx_boost_lent:
  assumes "places s" "ordered s" "live s" "owners_ok s" "state_of s me = THD_STATE_CURRENT"
    and "lending me mp {tp} s" and "debtor me mp tp s"
  shows "lent me mp s (mtx_boost me tp s)"
  using assms
proof (induction me tp s rule: mtx_boost.induct)
  case (1 me tp s)
  show ?case
  proof (cases "prio s tp < prio s me")
    case False
    then show ?thesis
      using "1.prems" lending_stop [OF "1.prems"(6)]
      by (simp add: lent_def boosted_refl mtx_boost.simps [of me tp s])
  next
    case lt: True
    define s1 where "s1 = upd_thd tp (\<lambda>t. t\<lparr>p_prio := prio s me\<rparr>) s"
    have st1: "state_of s1 tp = state_of s tp" "p_u (thd s1 tp) = p_u (thd s tp)" by (simp_all add: s1_def)
    note eq = mtx_boost.simps [of me tp s, unfolded if_P [OF lt] Let_def, folded s1_def, unfolded st1]
    have P0: "0 < prio s me" using lt by (rule le_less_trans [OF word_zero_le])
    note keep = raised_keeps [OF _ "1.prems"(1,3,4) P0]
    have ne: "tp \<noteq> me" using lt by auto
    show ?thesis
    proof (cases "state_of s tp = THD_STATE_WTMTX")
      case wt: True
      define mp' where "mp' = p_u (thd s tp)"
      define s2 where "s2 = mtx_prio_insert tp mp' (unlink tp s1)"
      have R: "raised tp (prio s me) s s2"
        using raised_cases(1) [OF "1.prems"(1,2) s1_def wt] by (simp add: s2_def mp'_def)
      have own: "m_owner (mtx s2 mp') = m_owner (mtx s mp')" using R by (simp add: raised_def)
      have l: "lending me mp {m_owner (mtx s2 mp')} s2"
        using lending_raise [OF "1.prems"(6) lt R "1.prems"(1,4,7)] wt own by (simp add: mp'_def)
      have q: "tp \<in> set (m_queue (mtx s mp'))" using waits_in [OF "1.prems"(1) wt] by (simp add: mp'_def)
      have q2: "tp \<in> set (m_queue (mtx s2 mp'))"
        using q R unfolding raised_def by (metis queue_of.simps(4))
      have o: "mp' \<in> set (p_mtxlist (thd s2 (m_owner (mtx s2 mp'))))"
        using keep(3) [OF R] q2 unfolding owners_ok_def by (metis empty_iff list.set(1))
      then have "state_of s2 (m_owner (mtx s2 mp')) \<noteq> THD_STATE_FINAL"
        using keep(2) [OF R] by (auto simp: live_def)
      moreover have "prio s2 tp = prio s2 me" using R ne by (simp add: raised_def)
      ultimately have d: "debtor me mp (m_owner (mtx s2 mp')) s2"
        using o q2 by (auto simp: debtor_def waiters_def)
      have "lent me mp s2 (mtx_boost me (m_owner (mtx s2 mp')) s2)"
      proof (rule "1.IH" [OF lt s1_def _ _ s2_def])
        show "state_of s1 tp = THD_STATE_WTMTX" "mp' = p_u (thd s1 tp)" using wt by (simp_all add: st1 mp'_def)
        show "ordered s2" "state_of s2 me = THD_STATE_CURRENT"
          using R "1.prems"(5) by (simp_all add: raised_def)
      qed (use keep [OF R] l d in auto)
      moreover have "mtx_boost me tp s = mtx_boost me (m_owner (mtx s2 mp')) s2"
        using eq wt by (simp add: s2_def mp'_def)
      ultimately show ?thesis
        using boosted_trans [OF raised_boosted [OF R ne]] by (simp add: lent_def)
    next
      case False
      have R: "raised tp (prio s me) s (mtx_boost me tp s)"
        using False raised_cases(2-4) [OF "1.prems"(1,2) s1_def] unfolding eq
        by (cases "state_of s tp") simp_all
      then show ?thesis
        using lending_raise [OF "1.prems"(6) lt R "1.prems"(1,4,7)] False keep [OF R] raised_boosted [OF R ne]
        by (simp add: lent_def raised_def)
    qed
  qed
qed

text \<open>The running thread joins the queue of the mutex.\<close>

definition mtx_wait :: "addr \<Rightarrow> kstate \<Rightarrow> kstate" where
  "mtx_wait mp s =
     upd_thd (currp s) (\<lambda>t. t\<lparr>p_u := mp\<rparr>) (mtx_prio_insert (currp s) mp s)"

lemma mtx_wait_queue:
  "queue_of (mtx_wait mp s) r =
     (if r = PMtx mp then ins_behind (prio s) (currp s) (m_queue (mtx s mp)) else queue_of s r)"
  by (cases r) (auto simp: mtx_wait_def mtx_prio_insert_def)

lemma mtx_wait_fields [simp]:
  "thd (mtx_wait mp s) = (thd s)(currp s := (thd s (currp s))\<lparr>p_u := mp\<rparr>)"
  "m_owner (mtx (mtx_wait mp s) m) = m_owner (mtx s m)" "sem (mtx_wait mp s) = sem s"
  "vts (mtx_wait mp s) = vts s" "vtlist (mtx_wait mp s) = vtlist s" "r_queue (mtx_wait mp s) = r_queue s"
  "currp (mtx_wait mp s) = currp s" "idle_thread (mtx_wait mp s) = idle_thread s"
  by (simp_all add: mtx_wait_def mtx_prio_insert_def)

lemma lent_start:
  assumes K: "kinv s" and own: "m_owner (mtx s mp) \<noteq> NULL"
  shows "lent (currp s) mp s (mtx_boost (currp s) (m_owner (mtx s mp)) s)"
proof (rule mtx_boost_lent)
  let ?o = "m_owner (mtx s mp)"
  have k: "places s" "ordered s" "live s" "owners_ok s" "inheritance s"
    using K by (simp_all add: kinv_def kinv0_def)
  then show "places s" "ordered s" "live s" "owners_ok s" by auto
  show "state_of s (currp s) = THD_STATE_CURRENT" by (rule cur_state [OF K])
  have m: "mp \<in> set (p_mtxlist (thd s ?o))" using own k(4) by (simp add: owners_ok_def)
  then have "state_of s ?o \<noteq> THD_STATE_FINAL" using k(3) by (auto simp: live_def)
  then show "debtor (currp s) mp ?o s" using m by (auto simp: debtor_def waiters_def)
  have "x = ?o" if "mp \<in> set (p_mtxlist (thd s x))" for x using that k(4) by (simp add: owners_ok_def)
  then show "lending (currp s) mp {?o} s"
    using k(5) unfolding lending_def inheritance_def inherits_def waiters_def
    by (intro allI impI) (smt (verit) Un_iff empty_iff order_refl singletonD singletonI)
qed

lemma mtx_wait_kinv0:
  assumes K: "kinvL s" and own: "m_owner (mtx s mp) \<noteq> NULL" and l: "lent (currp s) mp s s1"
  shows "kinv0 (sleeping THD_STATE_WTMTX (currp s) (mtx_wait mp s1))" (is "kinv0 ?s")
proof -
  let ?me = "currp s"
  have K': "kinv s" and un: "\<not> chVTIsArmedI (OnStack ?me) s" using K by (simp_all add: kinvL_def)
  have k: "sems_ok s" "timers_ok s" using K' by (simp_all add: kinv_def kinv0_def)
  have l1: "places s1" "ordered s1" "live s1" "owners_ok s1" "lending ?me mp {} s1" and b: "boosted ?me s s1"
    using l by (simp_all add: lent_def)
  have c: "currp s1 = ?me" "vts s1 = vts s" "vtlist s1 = vtlist s" "m_owner (mtx s1 m) = m_owner (mtx s m)"
      "s_cnt (sem s1 a) = s_cnt (sem s a)" "length (s_queue (sem s1 a)) = length (s_queue (sem s a))" for m a
    using b by (simp_all add: boosted_def)
  have st: "state_of s1 x = state_of s x" for x using b unfolding boosted_def by (metis Thread.select_convs(3) Thread.surjective Thread.update_convs(1))
  have nq: "?me \<notin> set (queue_of s1 r)" for r
    using places_unqueued [OF l1(1), of ?me r] cur_state [OF K'] st by (simp add: place_ok_def)
  have q: "queue_of ?s r = (if r = PMtx mp then ins_behind (prio s1) ?me (m_queue (mtx s1 mp)) else queue_of s1 r)" for r
    by (simp add: mtx_wait_queue c)
  have th: "p_state (thd ?s x) = (if x = ?me then THD_STATE_WTMTX else state_of s1 x)"
      "p_u (thd ?s x) = (if x = ?me then mp else p_u (thd s1 x))" "prio ?s x = prio s1 x"
      "p_mtxlist (thd ?s x) = p_mtxlist (thd s1 x)" "p_realprio (thd ?s x) = p_realprio (thd s1 x)"
      "p_waiting (thd ?s x) = p_waiting (thd s1 x)" "m_owner (mtx ?s m) = m_owner (mtx s1 m)"
      "sem ?s = sem s1" for x m
    by (simp_all add: c)
  have "places ?s"
    by (rule places_move [OF l1(1), where t = ?me and p' = "PMtx mp"])
      (use q nq places_distinct [OF l1(1)] nq [of "PMtx mp"] places_distinct [OF l1(1), of "PMtx mp"]
        in \<open>auto simp: place_ok_def c\<close>)
  moreover have "prio ?s = prio s1" using th(3) by blast
  then have "ordered ?s"
    using l1(2) q desc_ins_behind [of "prio s1"] unfolding ordered_def by (metis queue_of.simps(4))
  moreover have fin: "(state_of ?s x = THD_STATE_FINAL) = (state_of s1 x = THD_STATE_FINAL)" for x
    using th(1) [of x] st cur_state [OF K'] by auto
  have "live ?s" using l1(3) unfolding live_def th(3-6) fin .
  moreover have "sems_ok ?s" using k(1) by (simp add: sems_ok_def th c)
  moreover have mq: "m_queue (mtx ?s m) = (if m = mp then ins_behind (prio s1) ?me (m_queue (mtx s1 mp)) else m_queue (mtx s1 m))" for m
    using q [of "PMtx m"] by simp
  have "owners_ok ?s" using l1(4) own unfolding owners_ok_def th mq c by auto
  moreover have "inheritance ?s"
  proof -
    have W: "set (m_queue (mtx ?s m)) = waiters ?me mp s1 m" for m unfolding mq by (auto simp: waiters_def)
    have "state_of s1 ?me \<noteq> THD_STATE_FINAL" using st cur_state [OF K'] by simp
    then show ?thesis using l1(5) unfolding inheritance_def inherits_def lending_def W th by auto
  qed
  moreover have "timers_ok ?s"
    by (rule timers_ok_frame [OF k(2)])
      (use un st c in \<open>auto split: if_splits\<close>)
  ultimately show ?thesis by (simp add: kinv0_def)
qed

text \<open>What a thread has when it gets the mutex.\<close>

definition acquired :: "addr \<Rightarrow> addr \<Rightarrow> kstate \<Rightarrow> kstate \<Rightarrow> bool" where
  "acquired me mp s s' \<longleftrightarrow> kinvU s' \<and> currp s' = me \<and>
     p_mtxlist (thd s' me) = mp # p_mtxlist (thd s me) \<and> m_owner (mtx s' mp) = me \<and>
     p_realprio (thd s' me) = p_realprio (thd s me) \<and>
     (\<exists>ys. p_msgqueue (thd s' me) = p_msgqueue (thd s me) @ ys) \<and>
     p_epending (thd s me) AND p_epending (thd s' me) = p_epending (thd s me) \<and> idle_thread s' = idle_thread s"

definition take_mutex :: "addr \<Rightarrow> kstate \<Rightarrow> kstate" where
  "take_mutex mp s = upd_thd (currp s) (\<lambda>t. t\<lparr>p_mtxlist := mp # p_mtxlist t\<rparr>)
     (upd_mtx mp (\<lambda>x. x\<lparr>m_owner := currp s\<rparr>) s)"

lemma take_mutex_queue [simp]: "queue_of (take_mutex mp s) r = queue_of s r"
  by (cases r) (auto simp: take_mutex_def)

lemma take_mutex_acquired:
  assumes K: "kinvU s" and free: "m_owner (mtx s mp) = NULL"
  shows "acquired (currp s) mp s (take_mutex mp s)" and "guar (currp s) s (take_mutex mp s)"
proof -
  let ?me = "currp s" and ?s = "take_mutex mp s"
  have K': "kinv s" and k: "places s" "ordered s" "live s" "sems_ok s" "owners_ok s" "inheritance s"
      "timers_ok s" "cur_ok s" "idle_ok s" "vt_pos s" "prio_ok s" "\<not> chVTIsArmedI (OnStack ?me) s"
    using K by (simp_all add: kinvU_def kinv_def kinv0_def)
  have al: "state_of s ?me \<noteq> THD_STATE_FINAL" "?me \<noteq> NULL"
    using cur_state [OF K'] k(3) by (auto simp: live_def)
  have th: "p_state (thd ?s x) = state_of s x" "p_u (thd ?s x) = p_u (thd s x)" "prio ?s x = prio s x"
      "p_mtxlist (thd ?s x) = (if x = ?me then mp # p_mtxlist (thd s ?me) else p_mtxlist (thd s x))"
      "p_realprio (thd ?s x) = p_realprio (thd s x)" "p_waiting (thd ?s x) = p_waiting (thd s x)"
      "p_msgqueue (thd ?s x) = p_msgqueue (thd s x)" "p_epending (thd ?s x) = p_epending (thd s x)"
      "m_owner (mtx ?s m) = (if m = mp then ?me else m_owner (mtx s m))" "m_queue (mtx ?s m) = m_queue (mtx s m)"
      "sem ?s = sem s" "vts ?s = vts s" "vtlist ?s = vtlist s" "currp ?s = ?me" "idle_thread ?s = idle_thread s"
      "r_queue ?s = r_queue s" for x m
    by (auto simp: take_mutex_def)
  have mq: "m_queue (mtx s mp) = []" "mp \<notin> set (p_mtxlist (thd s x))" for x
    using k(5) free by (auto simp: owners_ok_def)
  have "place_ok (thd ?s x) = place_ok (thd s x)" for x by (intro ext place_ok_cong) (simp_all add: th)
  moreover have "queue_of ?s = queue_of s" by auto
  ultimately have "places ?s" using k(1) by (simp add: places_def)
  moreover have "ordered ?s" using k(2) by (simp add: ordered_def th)
  moreover have "live ?s" using k(3) al by (auto simp: live_def th)
  moreover have "owners_ok ?s" using k(5) al mq unfolding owners_ok_def th by auto
  moreover have "inheritance ?s" using k(6) mq unfolding inheritance_def inherits_def th by auto
  moreover have "timers_ok ?s" by (rule timers_ok_frame [OF k(7)]) (simp_all add: th)
  ultimately have "kinvU ?s"
    using k(4,8-12) by (simp add: kinvU_def kinv_def kinv0_def sems_ok_def cur_ok_def idle_ok_def vt_pos_hd
        prio_ok_def chVTIsArmedI_def th)
  then show "acquired ?me mp s ?s" by (simp add: acquired_def th)
  show "guar ?me s ?s" unfolding guar_def
    by (intro allI impI rely_frame) (simp_all add: th chVTIsArmedI_def)
qed

lemma boosted_fields:
  assumes "boosted me s s1"
  shows "p_state (thd s1 x) = p_state (thd s x)" "p_u (thd s1 x) = p_u (thd s x)"
    "p_mtxlist (thd s1 x) = p_mtxlist (thd s x)" "p_realprio (thd s1 x) = p_realprio (thd s x)"
    "p_msgqueue (thd s1 x) = p_msgqueue (thd s x)" "p_epending (thd s1 x) = p_epending (thd s x)"
proof -
  have "thd s1 x = (thd s x)\<lparr>p_prio := prio s1 x\<rparr>" using assms unfolding boosted_def by blast
  then have e: "\<And>f. f (thd s1 x) = f ((thd s x)\<lparr>p_prio := prio s1 x\<rparr>)" by simp
  show "p_state (thd s1 x) = p_state (thd s x)" "p_u (thd s1 x) = p_u (thd s x)"
    "p_mtxlist (thd s1 x) = p_mtxlist (thd s x)" "p_realprio (thd s1 x) = p_realprio (thd s x)"
    "p_msgqueue (thd s1 x) = p_msgqueue (thd s x)" "p_epending (thd s1 x) = p_epending (thd s x)"
    by (subst e, simp)+
qed

text \<open>The state in which the thread that waits for the mutex gives up the processor.\<close>

lemma chMtxLockS_blocks:
  assumes K: "kinvL s" and me: "me = currp s" and ni: "me \<noteq> idle_thread s"
    and own: "m_owner (mtx s mp) \<noteq> NULL"
  obtains s1 where "chMtxLockS mp s = Switch s1 (Done ())" and "kinvS s1" and "guar me s s1"
    and "p_state (thd s1 me) = THD_STATE_WTMTX" and "p_u (thd s1 me) = mp"
    and "p_mtxlist (thd s1 me) = p_mtxlist (thd s me)" and "p_realprio (thd s1 me) = p_realprio (thd s me)"
    and "p_msgqueue (thd s1 me) = p_msgqueue (thd s me)" and "p_epending (thd s1 me) = p_epending (thd s me)"
    and "prio s1 me = prio s me"
    and "idle_thread s1 = idle_thread s" and "\<not> chVTIsArmedI (OnStack me) s1"
proof -
  have K': "kinv s" and un: "\<not> chVTIsArmedI (OnStack me) s" using K me by (simp_all add: kinvL_def)
  define s1 where "s1 = mtx_boost me (m_owner (mtx s mp)) s"
  have l: "lent me mp s s1" using lent_start [OF K' own] me by (simp add: s1_def)
  then have b: "boosted me s s1" by (simp add: lent_def)
  note fr = boosted_fields [OF b]
  have g: "currp s1 = me" "vts s1 = vts s" "vtlist s1 = vtlist s" "idle_thread s1 = idle_thread s"
      "set (r_queue s1) = set (r_queue s)" "prio s1 me = prio s me"
    using b me by (auto simp: boosted_def dest: spec [of _ PReady])
  let ?s = "mtx_wait mp s1" and ?n = "pick_next (sleeping THD_STATE_WTMTX me (mtx_wait mp s1))"
  have "chMtxLockS mp s = chSchGoSleepS THD_STATE_WTMTX ?s"
    using own by (simp add: chMtxLockS_def s1_def [symmetric] me [symmetric] mtx_wait_def g Let_def del: upd_thd_def)
  then have eq: "chMtxLockS mp s = Switch ?n (Done ())" by (simp add: chSchGoSleepS_eq g)
  have K2: "kinv0 (sleeping THD_STATE_WTMTX me ?s)" using mtx_wait_kinv0 [OF K own] l me by simp
  have pos: "vt_pos ?s" using K' g by (simp add: vt_pos_hd kinv_def)
  have f: "p_state (thd ?s x) = p_state (thd s x) \<and> p_u (thd ?s x) = p_u (thd s x) \<and>
      p_mtxlist (thd ?s x) = p_mtxlist (thd s x) \<and> p_realprio (thd ?s x) = p_realprio (thd s x) \<and>
      p_epending (thd s x) AND p_epending (thd ?s x) = p_epending (thd s x)"
    "\<exists>ys. p_msgqueue (thd ?s x) = p_msgqueue (thd s x) @ ys" if "x \<noteq> me" for x
    using that fr g by simp_all
  have i: "\<not> runnable THD_STATE_WTMTX" "idle_thread ?s = idle_thread s"
      "chVTIsArmedI (OnStack x) ?s \<Longrightarrow> chVTIsArmedI (OnStack x) s" for x
    using g by (simp_all add: chVTIsArmedI_def)
  note n = sleep_next [OF K' me ni K2 i(1) pos f(1) i(2) f(2) i(3)]
  have n': "kinvS ?n" "guar me s ?n" by (rule n; assumption)+
  have "thd ?n me = thd (sleeping THD_STATE_WTMTX me ?s) me" "vts ?n = vts ?s" "idle_thread ?n = idle_thread s"
    by (rule n; assumption)+
  then have nt: "thd ?n me = (thd s1 me)\<lparr>p_u := mp, p_state := THD_STATE_WTMTX, p_preempt := CH_TIME_QUANTUM\<rparr>"
    "idle_thread ?n = idle_thread s" "\<not> chVTIsArmedI (OnStack me) ?n"
    using g un by (simp_all add: chVTIsArmedI_def)
  show thesis by (rule that [OF eq n']) (use nt fr g in simp_all)
qed

lemma chMtxLockS_safe:
  assumes K: "kinvU s" and me: "me = currp s" and ni: "me \<noteq> idle_thread s"
  shows "safe me (\<lambda>_ s'. acquired me mp s s') s (chMtxLockS mp s)"
proof (cases "m_owner (mtx s mp) = NULL")
  case True
  then show ?thesis
    using take_mutex_acquired [OF K True] me
    by (auto simp: chMtxLockS_def Let_def take_mutex_def intro!: safe_Done)
next
  case False
  have "kinvL s" using K by (simp add: kinvU_L)
  then obtain n where n: "chMtxLockS mp s = Switch n (Done ())" "kinvS n" "guar me s n"
      "p_state (thd n me) = THD_STATE_WTMTX" "p_u (thd n me) = mp"
      "p_mtxlist (thd n me) = p_mtxlist (thd s me)" "p_realprio (thd n me) = p_realprio (thd s me)"
      "p_msgqueue (thd n me) = p_msgqueue (thd s me)" "p_epending (thd n me) = p_epending (thd s me)"
      "idle_thread n = idle_thread s"
      "\<not> chVTIsArmedI (OnStack me) n"
    using chMtxLockS_blocks [OF _ me ni False] by metis
  show ?thesis unfolding n(1)
  proof (rule safe_Switch [OF n(3,2)])
    fix s' assume s': "kinvS s'" "currp s' = me" "rely me n s'"
    have U: "kinvU s'" using kinvS_rely_U [OF s'(1), of n] s' n by simp
    then have "state_of s' me = THD_STATE_CURRENT" "owners_ok s'"
      using s'(2) by (auto simp: kinvU_def kinv_def cur_ok_def kinv0_def)
    then have "p_mtxlist (thd s' me) = mp # p_mtxlist (thd s me)" "p_realprio (thd s' me) = p_realprio (thd s me)"
        "\<exists>ys. p_msgqueue (thd s' me) = p_msgqueue (thd s me) @ ys" "idle_thread s' = idle_thread s"
        "p_epending (thd s me) AND p_epending (thd s' me) = p_epending (thd s me)"
      using s'(3) n by (auto simp: rely_def mtx_rely_def run_rely_def msg_rely_def evt_rely_def)
    moreover from this(1) have "m_owner (mtx s' mp) = me"
      using \<open>owners_ok s'\<close> unfolding owners_ok_def by (metis list.set_intros(1))
    ultimately have "acquired me mp s s'" using U s'(2) by (simp add: acquired_def)
    then show "safe me (\<lambda>_ s'. acquired me mp s s') s' (Done () s')" by (intro safe_Done) auto
  qed
qed

section \<open>Handing a mutex over\<close>

text \<open>The scan finds the highest priority that waits for one of the mutexes.\<close>

lemma mtx_newprio_ge: "np \<le> mtx_newprio s ms np"
proof (induction ms arbitrary: np)
  case (Cons a ms)
  let ?n = "if chMtxQueueNotEmptyS a s \<and> prio s (hd (m_queue (mtx s a))) > np
    then prio s (hd (m_queue (mtx s a))) else np"
  have "np \<le> ?n" by auto
  then show ?case using order_trans [OF _ Cons [of ?n]] by simp
qed simp

lemma mtx_newprio_waiters:
  assumes "\<And>m. desc (prio s) (m_queue (mtx s m))"
  shows "m \<in> set ms \<Longrightarrow> w \<in> set (m_queue (mtx s m)) \<Longrightarrow> prio s w \<le> mtx_newprio s ms np"
proof (induction ms arbitrary: np)
  case (Cons a ms)
  let ?n = "if chMtxQueueNotEmptyS a s \<and> prio s (hd (m_queue (mtx s a))) > np
    then prio s (hd (m_queue (mtx s a))) else np"
  have "prio s w \<le> ?n" if "w \<in> set (m_queue (mtx s a))"
    using assms [of a] that
    by (cases "m_queue (mtx s a)") (auto simp: chMtxQueueNotEmptyS_def not_less intro: order_trans)
  then show ?case using Cons order_trans [OF _ mtx_newprio_ge [of ?n s ms]] by auto
qed simp

lemma mtx_newprio_exact:
  "mtx_newprio s ms np = np \<or>
     (\<exists>m\<in>set ms. \<exists>w\<in>set (m_queue (mtx s m)). prio s w = mtx_newprio s ms np)"
proof (induction ms arbitrary: np)
  case (Cons a ms)
  let ?n = "if chMtxQueueNotEmptyS a s \<and> prio s (hd (m_queue (mtx s a))) > np
    then prio s (hd (m_queue (mtx s a))) else np"
  have "?n = np \<or> (\<exists>w\<in>set (m_queue (mtx s a)). prio s w = ?n)"
    using hd_in_set [of "m_queue (mtx s a)"] by (auto simp: chMtxQueueNotEmptyS_def)
  moreover have e: "mtx_newprio s (a # ms) np = mtx_newprio s ms ?n" by simp
  ultimately show ?case unfolding e using Cons [of ?n] by (metis list.set_intros)
qed simp

lemma mtx_newprio_cong:
  assumes "\<And>m. m \<in> set ms \<Longrightarrow> m_queue (mtx s' m) = m_queue (mtx s m) \<and>
    (\<forall>w\<in>set (m_queue (mtx s m)). prio s' w = prio s w)"
  shows "mtx_newprio s' ms np = mtx_newprio s ms np"
  using assms
proof (induction ms arbitrary: np)
  case (Cons a ms)
  have "mtx_newprio s' ms n = mtx_newprio s ms n" for n
    by (rule Cons.IH) (rule Cons.prems, simp)
  then show ?case
    using Cons.prems [of a] by (cases "m_queue (mtx s a)") (simp_all add: chMtxQueueNotEmptyS_def)
qed simp

definition handed :: "addr \<Rightarrow> addr \<Rightarrow> addr list \<Rightarrow> addr list \<Rightarrow> tprio_t \<Rightarrow> kstate \<Rightarrow> kstate" where
  "handed ump tp q ms np s =
     s\<lparr>thd := (thd s)
         (currp s := (thd s (currp s))\<lparr>p_mtxlist := ms, p_prio := np\<rparr>,
          tp := (thd s tp)\<lparr>p_mtxlist := ump # p_mtxlist (thd s tp)\<rparr>),
       mtx := (mtx s)(ump := (mtx s ump)\<lparr>m_queue := q, m_owner := tp\<rparr>)\<rparr>"

lemma handed_queue [simp]:
  "queue_of (handed ump tp q ms np s) r = (if r = PMtx ump then q else queue_of s r)"
  by (cases r) (auto simp: handed_def)

lemma handed_fields:
  assumes "tp \<noteq> currp s"
  shows "p_state (thd (handed ump tp q ms np s) x) = state_of s x"
    "p_u (thd (handed ump tp q ms np s) x) = p_u (thd s x)"
    "prio (handed ump tp q ms np s) x = (if x = currp s then np else prio s x)"
    "p_mtxlist (thd (handed ump tp q ms np s) x) =
       (if x = tp then ump # p_mtxlist (thd s tp) else if x = currp s then ms else p_mtxlist (thd s x))"
    "p_realprio (thd (handed ump tp q ms np s) x) = p_realprio (thd s x)"
    "p_waiting (thd (handed ump tp q ms np s) x) = p_waiting (thd s x)"
    "p_msgqueue (thd (handed ump tp q ms np s) x) = p_msgqueue (thd s x)"
    "p_epending (thd (handed ump tp q ms np s) x) = p_epending (thd s x)"
    "m_owner (mtx (handed ump tp q ms np s) m) = (if m = ump then tp else m_owner (mtx s m))"
    "m_queue (mtx (handed ump tp q ms np s) m) = (if m = ump then q else m_queue (mtx s m))"
    "sem (handed ump tp q ms np s) = sem s" "vts (handed ump tp q ms np s) = vts s"
    "vtlist (handed ump tp q ms np s) = vtlist s" "r_queue (handed ump tp q ms np s) = r_queue s"
    "currp (handed ump tp q ms np s) = currp s" "idle_thread (handed ump tp q ms np s) = idle_thread s"
  using assms by (auto simp: handed_def)

text \<open>What is known of the thread that unlocks and of the one that is to get the mutex.\<close>

lemma handing_over:
  assumes K: "kinv s" and l: "p_mtxlist (thd s (currp s)) = ump # ms" and q: "m_queue (mtx s ump) = tp # q"
  shows "state_of s tp = THD_STATE_WTMTX" "p_u (thd s tp) = ump" "tp \<noteq> currp s" "tp \<noteq> NULL" "currp s \<noteq> NULL"
    "m_owner (mtx s ump) = currp s" "ump \<notin> set ms" "distinct ms"
    "x \<noteq> currp s \<Longrightarrow> ump \<notin> set (p_mtxlist (thd s x))"
    "currp s \<notin> set (queue_of s r)" "desc (prio s) (m_queue (mtx s m))"
proof -
  have k: "places s" "ordered s" "live s" "owners_ok s" using K by (simp_all add: kinv_def kinv0_def)
  have cur: "state_of s (currp s) = THD_STATE_CURRENT" by (rule cur_state [OF K])
  show w: "state_of s tp = THD_STATE_WTMTX" "p_u (thd s tp) = ump" using waits_for [OF k(1), of tp ump] q by auto
  then show "tp \<noteq> currp s" "tp \<noteq> NULL" using cur k(3) by (auto simp: live_def)
  have own: "m \<in> set (p_mtxlist (thd s t)) \<longleftrightarrow> m_owner (mtx s m) = t \<and> t \<noteq> NULL" "distinct (p_mtxlist (thd s t))" for m t
    using k(4) by (simp_all add: owners_ok_def)
  then show o: "m_owner (mtx s ump) = currp s" "currp s \<noteq> NULL" using l by (metis list.set_intros(1))+
  show "ump \<notin> set ms" "distinct ms" using own(2) [of "currp s"] l by auto
  show "x \<noteq> currp s \<Longrightarrow> ump \<notin> set (p_mtxlist (thd s x))" using own(1) o by auto
  show "currp s \<notin> set (queue_of s r)" using places_unqueued [OF k(1)] cur by (simp add: place_ok_def)
  show "desc (prio s) (m_queue (mtx s m))"
    using k(2) unfolding ordered_def by (metis prio_queue.simps(2) queue_of.simps(4))
qed

lemma handed_inherits:
  assumes K: "kinv s" and l: "p_mtxlist (thd s (currp s)) = ump # ms" and q: "m_queue (mtx s ump) = tp # q"
    and np: "np = mtx_newprio s ms (p_realprio (thd s (currp s)))"
    and i: "inherits s x"
  shows "inherits (handed ump tp q ms np s) x"
proof -
  let ?me = "currp s"
  note h = handing_over [OF K l q]
  note th = handed_fields [OF h(3)]
  note b = mtx_newprio_ge [of "p_realprio (thd s ?me)" s ms, folded np]
    mtx_newprio_waiters [OF h(11), of _ ms _ "p_realprio (thd s ?me)", folded np]
    mtx_newprio_exact [of s ms "p_realprio (thd s ?me)", folded np]
  have me: "w \<noteq> ?me" if "w \<in> set (m_queue (mtx s m))" for w m using h(10) [of "PMtx m"] that by auto
  consider "x = ?me" | "x = tp" | "x \<noteq> ?me" "x \<noteq> tp" by blast
  then show ?thesis
  proof cases
    case 1
    have n: "m \<noteq> ump" if "m \<in> set ms" for m using h(7) that by auto
    show ?thesis using b h(3) 1 n me unfolding inherits_def th by (simp cong: ball_cong bex_cong)
  next
    case 2
    have mq: "?me \<notin> set q" using me [of ?me ump] q by auto
    have le: "prio s w \<le> prio s tp" if "w \<in> set q" for w using h(11) [of ump] q that by simp
    have "\<exists>m\<in>set (ump # p_mtxlist (thd s tp)). \<exists>w\<in>set (if m = ump then q else m_queue (mtx s m)).
        (if w = ?me then np else prio s w) = prio s tp"
      if "m \<in> set (p_mtxlist (thd s tp))" "w \<in> set (m_queue (mtx s m))" "prio s w = prio s tp" for m w
      by (rule bexI [of _ m], rule bexI [of _ w]) (use that h(9) [OF h(3)] me [OF that(2)] in auto)
    then have "prio s tp = p_realprio (thd s tp) \<or>
        (\<exists>m\<in>set (ump # p_mtxlist (thd s tp)). \<exists>w\<in>set (if m = ump then q else m_queue (mtx s m)).
           (if w = ?me then np else prio s w) = prio s tp)"
      using i 2 unfolding inherits_def by blast
    moreover have "p_realprio (thd s tp) \<le> prio s tp \<and>
        (\<forall>m\<in>set (ump # p_mtxlist (thd s tp)). \<forall>w\<in>set (if m = ump then q else m_queue (mtx s m)).
           (if w = ?me then np else prio s w) \<le> prio s tp)"
      using i 2 h(9) [OF h(3)] le me mq unfolding inherits_def by auto
    ultimately show ?thesis using h(3) unfolding 2 inherits_def th by simp
  next
    case 3
    then have n: "m \<noteq> ump" if "m \<in> set (p_mtxlist (thd s x))" for m using h(9) that by auto
    show ?thesis using i 3 n me unfolding inherits_def th by (simp cong: ball_cong bex_cong)
  qed
qed

lemma handed_limbo:
  assumes K: "kinv s" and l: "p_mtxlist (thd s (currp s)) = ump # ms" and q: "m_queue (mtx s ump) = tp # q"
    and np: "np = mtx_newprio s ms (p_realprio (thd s (currp s)))"
  shows "limbo tp (handed ump tp q ms np s)" (is "limbo tp ?s")
proof -
  let ?me = "currp s"
  have k: "places s" "ordered s" "live s" "sems_ok s" "owners_ok s" "inheritance s" "timers_ok s"
    using K by (simp_all add: kinv_def kinv0_def)
  note h = handing_over [OF K l q]
  note th = handed_fields [OF h(3)]
  have al: "state_of s ?me \<noteq> THD_STATE_FINAL" "state_of s tp \<noteq> THD_STATE_FINAL" using cur_state [OF K] h(1) by auto
  have np0: "0 < np"
    using mtx_newprio_ge [of "p_realprio (thd s ?me)" s ms] np k(3) al(1) by (auto simp: live_def intro: less_le_trans)
  have qs: "set (queue_of ?s r) \<subseteq> set (queue_of s r)" for r using q by auto
  have "unplaced tp ?s"
  proof (rule unplaced_take [OF k(1)])
    fix r
    have "distinct (queue_of s r)" "distinct (tp # q)"
      using places_distinct [OF k(1), of r] places_distinct [OF k(1), of "PMtx ump"] q by auto
    moreover have "tp \<notin> set (queue_of s r)" if "r \<noteq> PMtx ump"
      using places_unique [OF k(1), of tp r "PMtx ump"] q that by auto
    ultimately show "distinct (queue_of ?s r) \<and> set (queue_of ?s r) = set (queue_of s r) - {tp}"
      using q by (cases "r = PMtx ump") (auto simp: th)
  qed (simp add: th)
  moreover have "ordered ?s" unfolding ordered_def
  proof (intro allI impI)
    fix p assume "prio_queue p"
    then have "desc (prio s) (queue_of s p)" using k(2) by (simp add: ordered_def)
    then have "desc (prio s) (queue_of ?s p)" using q by (auto dest: desc_tl [of _ "queue_of s p"])
    moreover have "prio ?s x = prio s x" if "x \<in> set (queue_of ?s p)" for x
      using h(10) [of p] qs [of p] that th(3) by auto
    ultimately show "desc (prio ?s) (queue_of ?s p)" using desc_cong [of "queue_of ?s p" "prio ?s" "prio s"] by blast
  qed
  moreover have "live ?s" using k(3) al np0 unfolding live_def th by auto
  moreover have "sems_ok ?s" using k(4) by (simp add: sems_ok_def th)
  moreover have "owners_ok ?s"
    using k(5) h(3-9) h(9) [OF h(3)] l unfolding owners_ok_def th by auto (metis set_ConsD list.set_intros(2))+
  moreover have "inheritance ?s"
    using k(6) handed_inherits [OF K l q np] by (simp add: inheritance_def th)
  moreover have "timers_ok ?s" by (rule timers_ok_frame [OF k(7)]) (simp_all add: th)
  ultimately show ?thesis by (simp add: limbo_def)
qed

text \<open>All that unlocking promises, but for who runs next.\<close>

definition released :: "kstate \<Rightarrow> kstate \<Rightarrow> bool" where
  "released s s' \<longleftrightarrow> kinv s' \<and> currp s' = currp s \<and> guar (currp s) s s' \<and>
     p_mtxlist (thd s' (currp s)) = tl (p_mtxlist (thd s (currp s))) \<and>
     p_realprio (thd s' (currp s)) = p_realprio (thd s (currp s)) \<and>
     p_msgqueue (thd s' (currp s)) = p_msgqueue (thd s (currp s)) \<and>
     p_epending (thd s' (currp s)) = p_epending (thd s (currp s)) \<and>
     vts s' = vts s \<and> vtlist s' = vtlist s \<and> idle_thread s' = idle_thread s"

lemma mtx_handoff_eq:
  assumes "m_queue (mtx s ump) = tp # q" and "tp \<noteq> currp s" and "p_mtxlist (thd s (currp s)) = ump # ms"
  shows "mtx_handoff ump (upd_thd (currp s) (\<lambda>t. t\<lparr>p_prio := np\<rparr>)
      (upd_thd (currp s) (\<lambda>t. t\<lparr>p_mtxlist := tl (p_mtxlist t)\<rparr>) s)) = (tp, handed ump tp q ms np s)"
  using assms
  by (auto simp: mtx_handoff_def handed_def Let_def intro!: kstate.equality Mutex.equality)

lemma newprio_popped:
  "mtx_newprio (upd_thd t (\<lambda>x. x\<lparr>p_mtxlist := y x\<rparr>) s) ms np = mtx_newprio s ms np"
  by (rule mtx_newprio_cong) auto

lemma unlock_cases:
  assumes K: "kinv s" and l: "p_mtxlist (thd s (currp s)) = ump # ms"
  shows "m_queue (mtx s ump) = tp # q \<Longrightarrow>
      np = mtx_newprio s ms (p_realprio (thd s (currp s))) \<Longrightarrow>
      chMtxUnlockS s = (ump, chSchReadyI tp (handed ump tp q ms np s)) \<and>
      chMtxUnlock s = rbind (chSchWakeupS tp RDY_OK (handed ump tp q ms np s)) (\<lambda>_. Done ump)"
    and "m_queue (mtx s ump) = [] \<Longrightarrow>
      chMtxUnlockS s = (ump, upd_mtx ump (\<lambda>x. x\<lparr>m_owner := NULL\<rparr>)
        (upd_thd (currp s) (\<lambda>t. t\<lparr>p_mtxlist := ms\<rparr>) s)) \<and>
      chMtxUnlock s = Done ump (snd (chMtxUnlockS s))"
proof -
  assume q: "m_queue (mtx s ump) = tp # q" and np: "np = mtx_newprio s ms (p_realprio (thd s (currp s)))"
  note e = mtx_handoff_eq [OF q handing_over(3) [OF K l q] l, of np]
  let ?s1 = "upd_thd (currp s) (\<lambda>t. t\<lparr>p_mtxlist := tl (p_mtxlist t)\<rparr>) s"
  have f: "p_mtxlist (thd ?s1 (currp s)) = ms" "p_realprio (thd ?s1 (currp s)) = p_realprio (thd s (currp s))"
      "chMtxQueueNotEmptyS ump ?s1" "hd (p_mtxlist (thd s (currp s))) = ump"
    using l q by (simp_all add: chMtxQueueNotEmptyS_def)
  show "chMtxUnlockS s = (ump, chSchReadyI tp (handed ump tp q ms np s)) \<and>
      chMtxUnlock s = rbind (chSchWakeupS tp RDY_OK (handed ump tp q ms np s)) (\<lambda>_. Done ump)"
    unfolding chMtxUnlockS_def chMtxUnlock_def Let_def f newprio_popped np [symmetric] e
    by (simp add: f del: upd_thd_def)
next
  assume "m_queue (mtx s ump) = []"
  then show "chMtxUnlockS s = (ump, upd_mtx ump (\<lambda>x. x\<lparr>m_owner := NULL\<rparr>)
        (upd_thd (currp s) (\<lambda>t. t\<lparr>p_mtxlist := ms\<rparr>) s)) \<and>
      chMtxUnlock s = Done ump (snd (chMtxUnlockS s))"
    using l by (simp add: chMtxUnlockS_def chMtxUnlock_def Let_def chMtxQueueNotEmptyS_def)
qed

lemma handed_rely:
  assumes K: "kinv s" and l: "p_mtxlist (thd s (currp s)) = ump # ms" and q: "m_queue (mtx s ump) = tp # q"
    and x: "x \<noteq> currp s"
    and oth: "x \<noteq> tp \<Longrightarrow> thd s' x = thd (handed ump tp q ms np s) x"
    and tp: "p_mtxlist (thd s' tp) = p_mtxlist (thd (handed ump tp q ms np s) tp)" "runnable (state_of s' tp)"
      "p_realprio (thd s' tp) = p_realprio (thd s tp)" "p_msgqueue (thd s' tp) = p_msgqueue (thd s tp)"
      "p_epending (thd s' tp) = p_epending (thd s tp)"
    and g: "vts s' = vts s" "idle_thread s' = idle_thread s"
  shows "rely x s s'"
proof -
  note h = handing_over [OF K l q]
  note th = handed_fields [OF h(3)]
  show ?thesis
  proof (cases "x = tp")
    case True
    then show ?thesis
      using tp g h(1,2) by (auto simp: rely_def run_rely_def mtx_rely_def msg_rely_def wait_rely_def evt_rely_def chVTIsArmedI_def th)
  next
    case False
    show ?thesis
      by (rule rely_frame) (use oth [OF False] x False g in \<open>simp_all add: th chVTIsArmedI_def\<close>)
  qed
qed

lemma chMtxUnlockS_released:
  assumes K: "kinv s" and ne: "p_mtxlist (thd s (currp s)) \<noteq> []"
  shows "released s (snd (chMtxUnlockS s))"
proof -
  obtain ump ms where l: "p_mtxlist (thd s (currp s)) = ump # ms" using ne by (cases "p_mtxlist (thd s (currp s))") auto
  have k: "places s" "ordered s" "live s" "sems_ok s" "owners_ok s" "inheritance s" "timers_ok s"
      "cur_ok s" "idle_ok s" "vt_pos s"
    using K by (simp_all add: kinv_def kinv0_def)
  show ?thesis
  proof (cases "m_queue (mtx s ump)")
    case (Cons tp q)
    define np where "np = mtx_newprio s ms (p_realprio (thd s (currp s)))"
    note h = handing_over [OF K l Cons]
    note th = handed_fields [OF h(3)]
    let ?s = "chSchReadyI tp (handed ump tp q ms np s)"
    have e: "snd (chMtxUnlockS s) = ?s" using unlock_cases(1) [OF K l Cons np_def] by simp
    have "kinv0 ?s" by (rule kinv0_ready [OF handed_limbo [OF K l Cons np_def]]) (simp add: th h)
    then have "kinv ?s"
      using k(8-10) h(1,3) by (auto simp: kinv_def cur_ok_def idle_ok_def vt_pos_hd th)
    moreover have "guar (currp s) s ?s" unfolding guar_def
      by (intro allI impI handed_rely [OF K l Cons, where np = np]) (auto simp: th)
    ultimately show ?thesis unfolding e released_def using l h(3) by (simp add: th)
  next
    case Nil
    let ?s = "upd_mtx ump (\<lambda>x. x\<lparr>m_owner := NULL\<rparr>) (upd_thd (currp s) (\<lambda>t. t\<lparr>p_mtxlist := ms\<rparr>) s)"
    have e: "snd (chMtxUnlockS s) = ?s" using unlock_cases(2) [OF K l Nil] by simp
    have q: "queue_of ?s r = queue_of s r" for r by (cases r) auto
    have "place_ok (thd ?s x) = place_ok (thd s x)" for x by (intro ext place_ok_cong) auto
    then have "places ?s" using k(1) q by (simp add: places_def linked_def)
    moreover have "ordered ?s"
    proof -
      have "prio ?s = prio s" by auto
      then show ?thesis using k(2) q by (simp add: ordered_def)
    qed
    moreover have "live ?s" using k(3) cur_state [OF K] by (auto simp: live_def)
    moreover have "sems_ok ?s" using k(4) by (simp add: sems_ok_def)
    moreover have "owners_ok ?s"
      using k(5) l Nil unfolding owners_ok_def by auto (metis distinct.simps(2) list.set_intros set_ConsD)+
    moreover have "inherits ?s x" if "inherits s x" for x
    proof -
      have f: "m_queue (mtx ?s m) = m_queue (mtx s m)" "prio ?s y = prio s y"
        "p_realprio (thd ?s y) = p_realprio (thd s y)"
        "p_mtxlist (thd ?s y) = (if y = currp s then ms else p_mtxlist (thd s y))" for m y by auto
      show ?thesis using that l Nil unfolding inherits_def f by (cases "x = currp s") simp_all
    qed
    then have "inheritance ?s" using k(6) by (auto simp: inheritance_def)
    moreover have "timers_ok ?s" by (rule timers_ok_frame [OF k(7)]) auto
    ultimately have "kinv ?s"
      using k(8-10) by (auto simp: kinv_def kinv0_def cur_ok_def idle_ok_def vt_pos_hd)
    moreover have "guar (currp s) s ?s" unfolding guar_def
      by (intro allI impI rely_frame) (auto simp: chVTIsArmedI_def)
    ultimately show ?thesis unfolding e released_def using l by simp
  qed
qed

definition unlocked :: "addr \<Rightarrow> addr list \<Rightarrow> kstate \<Rightarrow> kstate \<Rightarrow> bool" where
  "unlocked me ms s s' \<longleftrightarrow> kinvU s' \<and> currp s' = me \<and> p_mtxlist (thd s' me) = ms \<and>
     p_realprio (thd s' me) = p_realprio (thd s me) \<and>
     (\<exists>ys. p_msgqueue (thd s' me) = p_msgqueue (thd s me) @ ys) \<and>
     p_epending (thd s me) AND p_epending (thd s' me) = p_epending (thd s me) \<and> idle_thread s' = idle_thread s"

lemma unlocked_returns:
  assumes r: "kinvU s' \<and> currp s' = me \<and> rely me s1 s'" and st: "state_of s1 me = THD_STATE_CURRENT"
    and f: "p_mtxlist (thd s1 me) = ms" "p_realprio (thd s1 me) = p_realprio (thd s me)"
      "p_msgqueue (thd s1 me) = p_msgqueue (thd s me)" "p_epending (thd s1 me) = p_epending (thd s me)"
      "idle_thread s1 = idle_thread s"
  shows "unlocked me ms s s'"
  using assms by (auto simp: unlocked_def rely_def run_rely_def mtx_rely_def msg_rely_def evt_rely_def)

lemma handed_priorities:
  assumes K: "kinvU s" and l: "p_mtxlist (thd s (currp s)) = ump # ms" and q: "m_queue (mtx s ump) = tp # q"
    and np: "np = mtx_newprio s ms (p_realprio (thd s (currp s)))"
  shows "prio s tp \<le> np \<Longrightarrow> np = prio s (currp s)" and "np < prio s tp \<Longrightarrow> prio s tp = prio s (currp s)"
proof -
  let ?me = "currp s"
  have K': "kinv s" using K by (simp add: kinvU_def)
  note h = handing_over [OF K' l q]
  note b = mtx_newprio_ge [of "p_realprio (thd s ?me)" s ms, folded np]
    mtx_newprio_waiters [OF h(11), of _ ms _ "p_realprio (thd s ?me)", folded np]
    mtx_newprio_exact [of s ms "p_realprio (thd s ?me)", folded np]
  have i: "inherits s ?me" using K' cur_state [OF K'] by (simp add: kinv_def kinv0_def inheritance_def)
  have le: "np \<le> prio s ?me" using b(3) i l unfolding inherits_def by (metis list.set_intros(2))
  have tp: "prio s tp \<le> prio s ?me" using i l q unfolding inherits_def by (metis list.set_intros(1))
  have "prio s w \<le> prio s tp" if "w \<in> set (tp # q)" for w using h(11) [of ump] q that by auto
  then have "prio s ?me \<le> np \<or> prio s ?me \<le> prio s tp"
    using i l q b(1,2) unfolding inherits_def by (metis set_ConsD)
  then show "prio s tp \<le> np \<Longrightarrow> np = prio s ?me" "np < prio s tp \<Longrightarrow> prio s tp = prio s ?me"
    using le tp by auto
qed

lemma chMtxUnlock_safe:
  assumes K: "kinvU s" and me: "me = currp s" and l: "p_mtxlist (thd s me) = ump # ms"
  shows "safe me (\<lambda>r s'. r = ump \<and> unlocked me ms s s') s (chMtxUnlock s)"
proof -
  have K': "kinv s" and pr: "prio_ok s" and un: "\<not> chVTIsArmedI (OnStack me) s" using K me by (simp_all add: kinvU_def)
  note l' = l [unfolded me]
  show ?thesis
  proof (cases "m_queue (mtx s ump)")
    case Nil
    note e = unlock_cases(2) [OF K' l' Nil]
    have ne: "p_mtxlist (thd s (currp s)) \<noteq> []" using l' by simp
    note R = chMtxUnlockS_released [OF K' ne, unfolded released_def]
    have "prio_ok (snd (chMtxUnlockS s))" using pr e by (auto simp: prio_ok_def)
    then have "unlocked me ms s (snd (chMtxUnlockS s))"
      using R un me l by (simp add: unlocked_def kinvU_def chVTIsArmedI_def)
    then show ?thesis using e R me by (auto intro: safe_Done)
  next
    case (Cons tp q)
    define np where "np = mtx_newprio s ms (p_realprio (thd s (currp s)))"
    note h = handing_over [OF K' l' Cons]
    note th = handed_fields [OF h(3)]
    let ?s = "handed ump tp q ms np s"
    note hp = handed_priorities [OF K l' Cons np_def]
    have rq: "prio ?s x = prio s x" if "x \<in> set (r_queue s)" for x
      using th(3) h(10) [of PReady] that by auto
    have "safe me (returns me ?s) s (chSchWakeupS tp RDY_OK ?s)"
    proof (rule chSchWakeupS_safe)
      show "limbo tp ?s" by (rule handed_limbo [OF K' l' Cons np_def])
      show "cur_ok ?s" "idle_ok ?s" "vt_pos ?s"
        using K' by (auto simp: kinv_def cur_ok_def idle_ok_def vt_pos_hd th)
      show "me = currp ?s" "\<not> chVTIsArmedI (OnStack me) ?s" using un me by (simp_all add: th chVTIsArmedI_def)
      show "state_of ?s tp \<notin> {THD_STATE_FINAL, THD_STATE_CURRENT}" using h(1) by (simp add: th)
      show "prio_ok ?s" if "prio ?s tp \<le> prio ?s me"
        using that hp(1) pr h(3) me rq by (auto simp: prio_ok_def th(3,14,15))
      show "\<forall>x\<in>set (r_queue ?s). prio ?s x \<le> prio ?s tp" if "prio ?s me < prio ?s tp"
        using that hp(2) pr h(3) me rq by (auto simp: prio_ok_def th(3,14,15))
      show "rely x s ?s" if "x \<noteq> me" "x \<noteq> tp" for x
        by (rule rely_frame) (use that me in \<open>simp_all add: th chVTIsArmedI_def\<close>)
      show "rely tp s s'" if "runnable st" "thd s' tp = (thd ?s tp)\<lparr>p_u := RDY_OK, p_state := st\<rparr>"
        "vts s' = vts ?s" "idle_thread s' = idle_thread ?s" for st s'
        by (rule handed_rely [OF K' l' Cons, where np = np]) (use that h(3) in \<open>simp_all add: th\<close>)
    qed
    then show ?thesis
      unfolding unlock_cases(1) [OF K' l' Cons np_def, THEN conjunct2]
    proof (rule safe_bind)
      fix s' assume r: "kinvU s' \<and> currp s' = me \<and> rely me ?s s'"
      have "unlocked me ms s s'"
        by (rule unlocked_returns [OF r]) (use cur_state [OF K'] h(3) me in \<open>simp_all add: th\<close>)
      then show "safe me (\<lambda>r s'. r = ump \<and> unlocked me ms s s') s' (Done ump s')" by (intro safe_Done) auto
    qed
  qed
qed

text \<open>
  \<open>chMtxUnlockAll\<close> sets the priority once, after the loop.  The loop keeps the invariant up
  to the priority of the running thread, which \<open>exact\<close> puts right.
\<close>

definition exact :: "addr \<Rightarrow> kstate \<Rightarrow> kstate" where
  "exact me s = upd_thd me (\<lambda>t. t\<lparr>p_prio := mtx_newprio s (p_mtxlist t) (p_realprio t)\<rparr>) s"

lemma exact_fields [simp]:
  "p_mtxlist (thd (exact me s) x) = p_mtxlist (thd s x)" "p_realprio (thd (exact me s) x) = p_realprio (thd s x)"
  "p_state (thd (exact me s) x) = p_state (thd s x)" "p_u (thd (exact me s) x) = p_u (thd s x)"
  "p_msgqueue (thd (exact me s) x) = p_msgqueue (thd s x)" "p_epending (thd (exact me s) x) = p_epending (thd s x)"
  "x \<noteq> me \<Longrightarrow> thd (exact me s) x = thd s x"
  "mtx (exact me s) = mtx s" "currp (exact me s) = currp s" "vts (exact me s) = vts s"
  "vtlist (exact me s) = vtlist s" "idle_thread (exact me s) = idle_thread s" "r_queue (exact me s) = r_queue s"
  by (simp_all add: exact_def)

lemma guar_exact: "guar me s (exact me s)" "guar me (exact me s) s"
  unfolding guar_def by (intro allI impI rely_frame; simp add: chVTIsArmedI_def)+

lemma ready_prio_commute:
  assumes "t \<noteq> me" and "me \<notin> set (r_queue s)"
  shows "upd_thd me (\<lambda>x. x\<lparr>p_prio := f x\<rparr>) (chSchReadyI t s) = chSchReadyI t (upd_thd me (\<lambda>x. x\<lparr>p_prio := f x\<rparr>) s)"
proof -
  have "ins_behind (prio (upd_thd me (\<lambda>x. x\<lparr>p_prio := f x\<rparr>) s)) t (r_queue s) = ins_behind (prio s) t (r_queue s)"
    by (rule ins_cong) (use assms in auto)
  then show ?thesis unfolding chSchReadyI_at using assms
    by (auto simp: ready_at_def intro!: kstate.equality)
qed

lemma unlock_round_exact:
  assumes K: "kinv (exact (currp s) s)" and l: "p_mtxlist (thd s (currp s)) = ump # mps"
  shows "exact (currp s) (unlock_round (currp s) ump mps s) = snd (chMtxUnlockS (exact (currp s) s))"
proof -
  let ?me = "currp s" and ?e = "exact (currp s) s" and ?s = "unlock_round (currp s) ump mps s"
  have l': "p_mtxlist (thd ?e (currp ?e)) = ump # mps" using l by simp
  show ?thesis
  proof (cases "m_queue (mtx s ump)")
    case Nil
    have "mtx_newprio ?s mps (p_realprio (thd s ?me)) = mtx_newprio s mps (p_realprio (thd s ?me))"
      by (rule mtx_newprio_cong) (use Nil in \<open>auto simp: unlock_round_def chMtxQueueNotEmptyS_def\<close>)
    then show ?thesis
      using unlock_cases(2) [OF K l'] Nil l
      by (auto simp: exact_def unlock_round_def chMtxQueueNotEmptyS_def intro!: kstate.equality)
  next
    case (Cons tp q)
    have q: "m_queue (mtx ?e ump) = tp # q" using Cons by simp
    note h = handing_over [OF K l' q]
    define np where "np = mtx_newprio ?e mps (p_realprio (thd ?e (currp ?e)))"
    have me: "?me \<notin> set (m_queue (mtx s m))" "?me \<notin> set (r_queue s)" for m
      using h(10) [of "PMtx m"] h(10) [of PReady] by auto
    define s2 where "s2 = snd (mtx_handoff ump (upd_thd ?me (\<lambda>t. t\<lparr>p_mtxlist := mps\<rparr>) s))"
    have r: "?s = chSchReadyI tp s2"
      using Cons by (simp add: unlock_round_def chMtxQueueNotEmptyS_def s2_def mtx_handoff_def Let_def)
    have m: "p_mtxlist (thd s2 ?me) = mps" "p_realprio (thd s2 ?me) = p_realprio (thd s ?me)" "r_queue s2 = r_queue s"
      using h(3) Cons by (simp_all add: s2_def mtx_handoff_def Let_def)
    have "mtx_newprio ?s mps (p_realprio (thd s ?me)) = np" unfolding np_def r exact_fields
    proof (rule mtx_newprio_cong)
      fix m assume "m \<in> set mps"
      then have "m \<noteq> ump" using h(7) by auto
      then show "m_queue (mtx (chSchReadyI tp s2) m) = m_queue (mtx ?e m) \<and>
          (\<forall>w\<in>set (m_queue (mtx ?e m)). prio (chSchReadyI tp s2) w = prio ?e w)"
        using Cons h(3) me(1) [of m] by (auto simp: s2_def mtx_handoff_def Let_def exact_def)
    qed
    then have "exact ?me ?s = upd_thd ?me (\<lambda>t. t\<lparr>p_prio := np\<rparr>) (chSchReadyI tp s2)"
      using m h(3) by (simp add: exact_def r)
    also have "\<dots> = chSchReadyI tp (upd_thd ?me (\<lambda>t. t\<lparr>p_prio := np\<rparr>) s2)"
      by (rule ready_prio_commute) (use h(3) me m in auto)
    also have "upd_thd ?me (\<lambda>t. t\<lparr>p_prio := np\<rparr>) s2 = handed ump tp q mps np ?e"
      using Cons h(3) by (auto simp: s2_def mtx_handoff_def handed_def exact_def Let_def intro!: kstate.equality Thread.equality Mutex.equality)
    finally show ?thesis using unlock_cases(1) [OF K l' q np_def] by simp
  qed
qed

lemma unlock_all_loop_released:
  assumes "kinv (exact (currp s) s)" and "me = currp s"
  shows "kinv (exact me (unlock_all_loop me s)) \<and> currp (unlock_all_loop me s) = me \<and>
     guar me s (unlock_all_loop me s) \<and> p_mtxlist (thd (unlock_all_loop me s) me) = [] \<and>
     p_realprio (thd (unlock_all_loop me s) me) = p_realprio (thd s me) \<and>
     p_msgqueue (thd (unlock_all_loop me s) me) = p_msgqueue (thd s me) \<and>
     p_epending (thd (unlock_all_loop me s) me) = p_epending (thd s me) \<and>
     vts (unlock_all_loop me s) = vts s \<and> idle_thread (unlock_all_loop me s) = idle_thread s"
  using assms
proof (induction me s rule: unlock_all_loop.induct)
  case (1 me s)
  show ?case
  proof (cases "p_mtxlist (thd s me)")
    case Nil
    then have "unlock_all_loop me s = s" by (simp only: unlock_all_loop.simps [of me s] list.case)
    then show ?thesis using 1(2,3) Nil by simp
  next
    case (Cons ump mps)
    let ?s = "unlock_round me ump mps s"
    have e: "unlock_all_loop me s = unlock_all_loop me ?s"
      using Cons by (simp only: unlock_all_loop.simps [of me s] list.case)
    have R: "released (exact me s) (exact me ?s)"
      using unlock_round_exact [of s ump mps] chMtxUnlockS_released [of "exact me s"] 1(2,3) Cons by simp
    then have g: "guar me s ?s"
      using guar_exact [of me s] guar_exact [of me ?s] guar_trans 1(3) unfolding released_def exact_fields by metis
    have c: "me = currp ?s" "kinv (exact (currp ?s) ?s)" using R 1(3) by (simp_all add: released_def)
    show ?thesis
      using 1(1) [OF Cons c(2,1)] R g guar_trans [OF g] 1(3) unfolding e released_def by simp
  qed
qed

lemma chMtxUnlockAll_safe:
  assumes K: "kinvU s" and me: "me = currp s"
  shows "safe me (\<lambda>_ s'. unlocked me [] s s') s (chMtxUnlockAll s)"
proof (cases "p_mtxlist (thd s me) = []")
  case True
  then show ?thesis using K me by (auto simp: chMtxUnlockAll_def unlocked_def intro!: safe_Done)
next
  case False
  have K': "kinv s" and un: "\<not> chVTIsArmedI (OnStack me) s" using K me by (simp_all add: kinvU_def)
  have "desc (prio s) (m_queue (mtx s m))" for m
    using K' unfolding kinv_def kinv0_def ordered_def by (metis prio_queue.simps(2) queue_of.simps(4))
  note b = mtx_newprio_ge [of "p_realprio (thd s me)" s "p_mtxlist (thd s me)"]
    mtx_newprio_waiters [OF this, of _ "p_mtxlist (thd s me)" _ "p_realprio (thd s me)"]
    mtx_newprio_exact [of s "p_mtxlist (thd s me)" "p_realprio (thd s me)"]
  have "inherits s me" using K' cur_state [OF K'] me by (simp add: kinv_def kinv0_def inheritance_def)
  then have "mtx_newprio s (p_mtxlist (thd s me)) (p_realprio (thd s me)) = prio s me"
    using b unfolding inherits_def by (metis order_antisym)
  then have e: "exact me s = s" by (simp add: exact_def)
  define s1 where "s1 = unlock_all_loop me s"
  note R = unlock_all_loop_released [of s me, folded me, unfolded e, OF K' refl, folded s1_def]
  define s2 where "s2 = upd_thd me (\<lambda>t. t\<lparr>p_prio := p_realprio t\<rparr>) s1"
  have x: "exact me s1 = s2" using R by (simp add: exact_def s2_def)
  then have L: "kinvL s2" "me = currp s2" using R un by (auto simp: kinvL_def chVTIsArmedI_def s2_def)
  have st: "state_of s2 me = THD_STATE_CURRENT" using cur_state [of s2] L by (simp add: kinvL_def)
  have f: "p_mtxlist (thd s2 me) = []" "p_realprio (thd s2 me) = p_realprio (thd s me)"
      "p_msgqueue (thd s2 me) = p_msgqueue (thd s me)" "p_epending (thd s2 me) = p_epending (thd s me)"
      "idle_thread s2 = idle_thread s"
    using R by (simp_all add: s2_def)
  have "safe me (returns me s2) s2 (chSchRescheduleS s2)" by (rule chSchRescheduleS_safe [OF L])
  then have "safe me (\<lambda>_ s'. unlocked me [] s s') s2 (chSchRescheduleS s2)"
  proof (rule safe_mono)
    fix s' assume r: "kinvU s' \<and> currp s' = me \<and> rely me s2 s'"
    show "unlocked me [] s s'" by (rule unlocked_returns [OF r st f])
  qed
  moreover have "guar me s s2"
    by (rule guar_trans [of me s s1]) (use R guar_exact(1) [of me s1] x in simp_all)
  moreover have "chMtxUnlockAll s = chSchRescheduleS s2"
    using False unfolding chMtxUnlockAll_def Let_def me [symmetric] s1_def [symmetric] s2_def [symmetric]
    by (rule if_P)
  ultimately show ?thesis using safe_rebase [of me _ s2 "chMtxUnlockAll s" s] by simp
qed

section \<open>Properties\<close>

text \<open>
  The priority a thread should have: the highest among its own and those of the threads that
  wait for a mutex it owns.
\<close>

definition inherited :: "kstate \<Rightarrow> addr \<Rightarrow> tprio_t" where
  "inherited s t = Max (insert (p_realprio (thd s t))
     (prio s ` (\<Union>m\<in>set (p_mtxlist (thd s t)). set (m_queue (mtx s m)))))"

definition waits_on :: "kstate \<Rightarrow> addr \<Rightarrow> addr \<Rightarrow> bool" where
  "waits_on s a b \<longleftrightarrow> state_of s a = THD_STATE_WTMTX \<and> m_owner (mtx s (p_u (thd s a))) = b"

lemma inherits_inherited:
  assumes "inherits s t" shows "prio s t = inherited s t"
proof -
  let ?W = "\<Union>m\<in>set (p_mtxlist (thd s t)). set (m_queue (mtx s m))"
  have "prio s t = p_realprio (thd s t) \<or> (\<exists>w\<in>?W. prio s t = prio s w)"
    using assms unfolding inherits_def by (metis UN_I)
  then have "prio s t \<in> insert (p_realprio (thd s t)) (prio s ` ?W)" by (simp add: image_iff)
  then show ?thesis
    unfolding inherited_def using assms by (intro Max_eqI [symmetric]) (auto simp: inherits_def)
qed

lemma kinv_inherited: "kinv s \<Longrightarrow> state_of s t \<noteq> THD_STATE_FINAL \<Longrightarrow> prio s t = inherited s t"
  by (rule inherits_inherited) (simp add: kinv_def kinv0_def inheritance_def)

lemma waits_on_prio:
  assumes K: "kinv s" and "(waits_on s)\<^sup>*\<^sup>* a b" shows "prio s a \<le> prio s b"
  using assms(2)
proof induction
  case (step b c)
  have k: "places s" "owners_ok s" "live s" "inheritance s" using K by (simp_all add: kinv_def kinv0_def)
  let ?m = "p_u (thd s b)"
  have b: "b \<in> set (m_queue (mtx s ?m))" and c: "m_owner (mtx s ?m) = c"
    using waits_in [OF k(1), of b] step(2) by (auto simp: waits_on_def)
  then have m: "?m \<in> set (p_mtxlist (thd s c))" using k(2) unfolding owners_ok_def by (metis empty_iff empty_set)
  then have "state_of s c \<noteq> THD_STATE_FINAL" using k(3) by (auto simp: live_def)
  then have "prio s b \<le> prio s c" using k(4) b m unfolding inheritance_def inherits_def by blast
  then show ?case using step.IH by simp
qed simp

text \<open>
  C10: locking a mutex, from any state in which the kernel is unlocked and by any thread but
  the idle one, keeps the kernel invariant wherever the caller gives up the processor, and
  returns only when the caller owns the mutex, which then is the first of its list of owned
  mutexes.  A free mutex is taken at once.  The try variant never blocks; it succeeds exactly
  for a free mutex, with the state the locking call leaves, and changes nothing otherwise.
\<close>

theorem mutex_lock_contract:
  assumes K: "kinvU s" and me: "me = currp s" and ni: "me \<noteq> idle_thread s"
  shows "safe me (\<lambda>_ s'. acquired me mp s s') s (chMtxLock mp s) \<and>
    (if m_owner (mtx s mp) = NULL
     then \<exists>s'. chMtxTryLock mp s = (True, s') \<and> chMtxLock mp s = Done () s' \<and> acquired me mp s s'
     else chMtxTryLock mp s = (False, s) \<and> is_Switch (chMtxLock mp s))"
proof -
  have "kinvL s" using K by (simp add: kinvU_L)
  then have "is_Switch (chMtxLock mp s)" if "m_owner (mtx s mp) \<noteq> NULL"
    by (rule chMtxLockS_blocks [OF _ me ni that]) (auto simp: chMtxLock_def)
  moreover have "chMtxTryLock mp s = (True, take_mutex mp s)" "chMtxLock mp s = Done () (take_mutex mp s)"
    if "m_owner (mtx s mp) = NULL"
    using that by (simp_all add: chMtxTryLock_def chMtxTryLockS_def chMtxLock_def chMtxLockS_def take_mutex_def Let_def)
  ultimately show ?thesis
    using chMtxLockS_safe [OF K me ni, of mp] take_mutex_acquired(1) [OF K, of mp] me
    by (auto simp: chMtxLock_def chMtxTryLock_def chMtxTryLockS_def)
qed

theorem mutex_lock_contract_witness:
  "safe 4096 (\<lambda>_ s'. acquired 4096 640 sample s') sample (chMtxLock 640 sample) \<and>
   chMtxTryLock 640 sample = (False, sample)"
  using mutex_lock_contract [OF sample_kinvU, of 4096 640] by simp

text \<open>
  C11: priority inheritance.  When a thread blocks on an owned mutex, every thread has, in the
  state in which the processor is given up, exactly the highest priority among its own and
  those of the threads that wait for its mutexes; so every thread that the caller waits for,
  directly or through a chain of owners of any length, runs with at least the caller's
  priority.  The caller is queued on the mutex and the running thread is of the highest
  priority.
\<close>

theorem priority_inheritance:
  assumes K: "kinvU s" and me: "me = currp s" and ni: "me \<noteq> idle_thread s"
    and own: "m_owner (mtx s mp) \<noteq> NULL"
  shows "\<exists>s1. chMtxLock mp s = Switch s1 (Done ()) \<and> me \<in> set (m_queue (mtx s1 mp)) \<and>
    (\<forall>t. state_of s1 t \<noteq> THD_STATE_FINAL \<longrightarrow> prio s1 t = inherited s1 t) \<and>
    (\<forall>t. (waits_on s1)\<^sup>*\<^sup>* me t \<longrightarrow> prio s me \<le> prio s1 t) \<and>
    (\<forall>t\<in>set (r_queue s1). prio s1 t \<le> prio s1 (currp s1))"
proof -
  have "kinvL s" using K by (simp add: kinvU_L)
  then obtain n where n: "chMtxLockS mp s = Switch n (Done ())" "kinvS n"
      "p_state (thd n me) = THD_STATE_WTMTX" "p_u (thd n me) = mp" "prio n me = prio s me"
    using chMtxLockS_blocks [OF _ me ni own] by metis
  then have k: "kinv n" "prio_ok n" "places n" by (auto simp: kinvS_def kinv_def kinv0_def)
  then have "me \<in> set (m_queue (mtx n mp))" using waits_in [of n me] n by simp
  then show ?thesis
    using n k kinv_inherited [OF k(1)] waits_on_prio [OF k(1), of me]
    by (intro exI [of _ n]) (simp add: chMtxLock_def prio_ok_def)
qed

theorem priority_inheritance_witness:
  "\<exists>s1. chMtxLock 640 sample = Switch s1 (Done ()) \<and> 4096 \<in> set (m_queue (mtx s1 640)) \<and>
    (\<forall>t. (waits_on s1)\<^sup>*\<^sup>* 4096 t \<longrightarrow> prio sample 4096 \<le> prio s1 t)"
  using priority_inheritance [OF sample_kinvU, of 4096 640] by auto

text \<open>
  C12: unlocking.  The last locked mutex is released: the first of the waiting threads, of the
  highest priority among them, becomes its owner and is made ready, or the mutex is free when
  none waits; the caller falls back to exactly the priority its remaining mutexes call for.
  The call that reschedules, and the one that releases all mutexes, keep the kernel invariant
  at every point where the processor changes hands, and return with the caller running, of the
  highest priority among the runnable threads, and with the remaining mutexes as its own.
\<close>

theorem mutex_unlock_contract:
  assumes K: "kinvU s" and me: "me = currp s" and l: "p_mtxlist (thd s me) = ump # ms"
    and s': "s' = snd (chMtxUnlockS s)"
  shows "safe me (\<lambda>r s'. r = ump \<and> unlocked me ms s s') s (chMtxUnlock s) \<and>
    safe me (\<lambda>_ s'. unlocked me [] s s') s (chMtxUnlockAll s) \<and>
    fst (chMtxUnlockS s) = ump \<and> released s s' \<and> prio s' me = inherited s' me \<and>
    (case m_queue (mtx s ump) of
       [] \<Rightarrow> m_owner (mtx s' ump) = NULL
     | tp # q \<Rightarrow> m_owner (mtx s' ump) = tp \<and> state_of s' tp = THD_STATE_READY \<and>
         m_queue (mtx s' ump) = q \<and> hd (p_mtxlist (thd s' tp)) = ump \<and> (\<forall>w\<in>set q. prio s w \<le> prio s tp))"
proof (intro conjI)
  have K': "kinv s" using K by (simp add: kinvU_def)
  note l' = l [unfolded me]
  show "safe me (\<lambda>r s'. r = ump \<and> unlocked me ms s s') s (chMtxUnlock s)"
    "safe me (\<lambda>_ s'. unlocked me [] s s') s (chMtxUnlockAll s)"
    by (rule chMtxUnlock_safe [OF K me l], rule chMtxUnlockAll_safe [OF K me])
  show R: "released s s'" using chMtxUnlockS_released [OF K'] l' s' by simp
  then have "kinv s'" "currp s' = me" using me by (simp_all add: released_def)
  then show "prio s' me = inherited s' me" using kinv_inherited [of s' me] cur_state [of s'] by simp
  show "fst (chMtxUnlockS s) = ump" using unlock_cases [OF K' l'] by (cases "m_queue (mtx s ump)") auto
  show "case m_queue (mtx s ump) of
       [] \<Rightarrow> m_owner (mtx s' ump) = NULL
     | tp # q \<Rightarrow> m_owner (mtx s' ump) = tp \<and> state_of s' tp = THD_STATE_READY \<and>
         m_queue (mtx s' ump) = q \<and> hd (p_mtxlist (thd s' tp)) = ump \<and> (\<forall>w\<in>set q. prio s w \<le> prio s tp)"
  proof (cases "m_queue (mtx s ump)")
    case Nil
    then show ?thesis using unlock_cases(2) [OF K' l' Nil] s' by simp
  next
    case (Cons tp q)
    note h = handing_over [OF K' l' Cons]
    show ?thesis
      using unlock_cases(1) [OF K' l' Cons refl] s' h(3) h(11) [of ump] Cons
      by (simp add: handed_fields [OF h(3)])
  qed
qed

theorem mutex_unlock_contract_witness:
  "safe 4096 (\<lambda>r s'. r = 512 \<and> unlocked 4096 [] sample s') sample (chMtxUnlock sample) \<and>
   m_owner (mtx (snd (chMtxUnlockS sample)) 512) = 16384"
proof -
  have "p_mtxlist (thd sample 4096) = [512]" by (simp add: sample_defs)
  then show ?thesis
    using mutex_unlock_contract [OF sample_kinvU, of 4096 512 "[]", OF _ _ refl] by simp
qed

end
