(* ===== verification/CondVars.thy ===== *)
theory CondVars
  imports Mutexes
begin

text \<open>
  Condition variables (\<^verbatim>\<open>os/kernel/src/chcond.c\<close>).  Waiting releases the mutex locked last
  and, unless the wait times out, locks it again before it returns.
\<close>

section \<open>Operations\<close>

definition chCondInit :: "addr \<Rightarrow> kstate \<Rightarrow> kstate" where
  "chCondInit cp s = upd_cond cp (\<lambda>x. x\<lparr>c_queue := []\<rparr>) s"

definition cond_fifo_remove :: "addr \<Rightarrow> kstate \<Rightarrow> addr \<times> kstate" where
  "cond_fifo_remove cp s =
     (let (tp, q) = fifo_take cp (c_queue (cond s cp))
      in (tp, upd_cond cp (\<lambda>x. x\<lparr>c_queue := q\<rparr>) s))"

definition chCondSignal :: "addr \<Rightarrow> kstate \<Rightarrow> unit run" where
  "chCondSignal cp s =
     (if c_queue (cond s cp) \<noteq> []
      then let (tp, s1) = cond_fifo_remove cp s in chSchWakeupS tp RDY_OK s1
      else Done () s)"

definition chCondSignalI :: "addr \<Rightarrow> kstate \<Rightarrow> kstate" where
  "chCondSignalI cp s =
     (if c_queue (cond s cp) \<noteq> []
      then let (tp, s1) = cond_fifo_remove cp s in ready_with tp RDY_OK s1
      else s)"

function chCondBroadcastI :: "addr \<Rightarrow> kstate \<Rightarrow> kstate" where
  "chCondBroadcastI cp s =
     (if c_queue (cond s cp) \<noteq> []
      then let (tp, s1) = cond_fifo_remove cp s in chCondBroadcastI cp (ready_with tp RDY_RESET s1)
      else s)"
  by pat_completeness auto

termination chCondBroadcastI
proof (relation "measure (\<lambda>(cp, s). length (c_queue (cond s cp)))")
  fix cp s x tp s1 assume "c_queue (cond s cp) \<noteq> []" and "x = cond_fifo_remove cp s" and "(tp, s1) = x"
  then show "((cp, ready_with tp RDY_RESET s1), cp, s) \<in> measure (\<lambda>(cp, s). length (c_queue (cond s cp)))"
    by (cases "c_queue (cond s cp)") (auto simp: cond_fifo_remove_def ready_with_def)
qed simp

declare chCondBroadcastI.simps [simp del]

definition chCondBroadcast :: "addr \<Rightarrow> kstate \<Rightarrow> unit run" where
  "chCondBroadcast cp s = chSchRescheduleS (chCondBroadcastI cp s)"

definition chCondWaitS :: "addr \<Rightarrow> kstate \<Rightarrow> msg_t run" where
  "chCondWaitS cp s =
     (let ctp = currp s;
          (mp, s1) = chMtxUnlockS s;
          s2 = upd_thd ctp (\<lambda>t. t\<lparr>p_u := cp\<rparr>) s1;
          s3 = cond_prio_insert ctp cp s2
      in rbind (chSchGoSleepS THD_STATE_WTCOND s3) (\<lambda>_ s4.
           let msg = p_u (thd s4 ctp)
           in rbind (chMtxLockS mp s4) (\<lambda>_ s5. Done msg s5)))"

definition chCondWait :: "addr \<Rightarrow> kstate \<Rightarrow> msg_t run" where
  "chCondWait cp s = chCondWaitS cp s"

definition chCondWaitTimeoutS :: "addr \<Rightarrow> systime_t \<Rightarrow> kstate \<Rightarrow> msg_t run" where
  "chCondWaitTimeoutS cp time s =
     (let (mp, s1) = chMtxUnlockS s;
          s2 = upd_thd (currp s1) (\<lambda>t. t\<lparr>p_u := cp\<rparr>) s1;
          s3 = cond_prio_insert (currp s2) cp s2
      in rbind (chSchGoSleepTimeoutS THD_STATE_WTCOND time s3) (\<lambda>msg s4.
           if msg \<noteq> RDY_TIMEOUT
           then rbind (chMtxLockS mp s4) (\<lambda>_ s5. Done msg s5)
           else Done msg s4))"

definition chCondWaitTimeout :: "addr \<Rightarrow> systime_t \<Rightarrow> kstate \<Rightarrow> msg_t run" where
  "chCondWaitTimeout cp time s = chCondWaitTimeoutS cp time s"

section \<open>Signalling\<close>

text \<open>A sleeper that has been taken from its queue is made ready with a message.\<close>

lemma wake_iclass:
  assumes K: "kinv s" and d: "detached t s s1" and "sems_ok s1"
    and st: "state_of s t \<in> {THD_STATE_WTSEM, THD_STATE_WTCOND, THD_STATE_WTQUEUE}" and m: "m \<in> {RDY_OK, RDY_RESET}"
  shows "iclass s (ready_with t m s1)"
  unfolding ready_with_eq
  by (rule iclass_ready [OF K detached_msg [OF d]]) (use assms(3) st m in \<open>auto simp: sems_ok_def\<close>)

lemma cond_waiter_state:
  "places s \<Longrightarrow> t \<in> set (c_queue (cond s cp)) \<Longrightarrow> state_of s t = THD_STATE_WTCOND \<and> p_u (thd s t) = cp"
  using places_at [of s t "PCond cp"] by (auto simp: place_ok_def split: tstate.splits)

lemma cond_detach:
  assumes K: "kinv s" and q: "c_queue (cond s cp) = t # q"
  shows "detached t s (upd_cond cp (\<lambda>x. x\<lparr>c_queue := q\<rparr>) s)" (is "detached t s ?s")
    "sems_ok (upd_cond cp (\<lambda>x. x\<lparr>c_queue := q\<rparr>) s)" "state_of s t = THD_STATE_WTCOND"
proof -
  have P: "places s" "sems_ok s" using K by (simp_all add: kinv_def kinv0_def)
  show "detached t s ?s"
  proof (rule detachedI [OF P(1), where p = "PCond cp"])
    show "queue_of ?s r = queue_of s r" if "r \<noteq> PCond cp" for r using that by (cases r) auto
  qed (use q in auto)
  show "sems_ok ?s" using P(2) by (simp add: sems_ok_def)
  show "state_of s t = THD_STATE_WTCOND" using cond_waiter_state [OF P(1), of t cp] q by simp
qed

lemma chCondSignalI_iclass: "kinv s \<Longrightarrow> iclass s (chCondSignalI cp s)"
proof (cases "c_queue (cond s cp)")
  case (Cons t q)
  assume K: "kinv s"
  note d = cond_detach [OF K Cons]
  show ?thesis
    using wake_iclass [OF K d(1,2), of RDY_OK] d(3) Cons by (simp add: chCondSignalI_def cond_fifo_remove_def)
qed (simp add: chCondSignalI_def iclass_refl)

lemma chCondBroadcastI_step:
  "c_queue (cond s cp) = t # q \<Longrightarrow>
   chCondBroadcastI cp s = chCondBroadcastI cp (ready_with t RDY_RESET (upd_cond cp (\<lambda>x. x\<lparr>c_queue := q\<rparr>) s))"
  by (subst chCondBroadcastI.simps) (simp add: cond_fifo_remove_def)

lemma chCondBroadcastI_iclass: "kinv s \<Longrightarrow> iclass s (chCondBroadcastI cp s)"
proof (induction "c_queue (cond s cp)" arbitrary: s)
  case Nil
  then show ?case by (simp add: chCondBroadcastI.simps [of cp s] iclass_refl)
next
  case (Cons t q)
  let ?s = "ready_with t RDY_RESET (upd_cond cp (\<lambda>x. x\<lparr>c_queue := q\<rparr>) s)"
  note d = cond_detach [OF Cons.prems Cons.hyps(2) [symmetric]]
  have i: "iclass s ?s" using wake_iclass [OF Cons.prems d(1,2), of RDY_RESET] d(3) by simp
  have "q = c_queue (cond ?s cp)" "kinv ?s" using i by (simp_all add: ready_with_def iclass_def)
  then show ?case
    unfolding chCondBroadcastI_step [OF Cons.hyps(2) [symmetric]]
    using Cons.hyps(1) iclass_trans [OF i] by simp
qed

interpretation cond_signal: iclass_op "chCondSignalI cp" "\<lambda>_. True" for cp
  by unfold_locales (rule chCondSignalI_iclass)

interpretation cond_broadcast: iclass_op "chCondBroadcastI cp" "\<lambda>_. True" for cp
  by unfold_locales (rule chCondBroadcastI_iclass)

lemma chCondSignal_safe:
  assumes K: "kinvU s" and me: "me = currp s"
  shows "safe me (\<lambda>_ s'. returned me s s') s (chCondSignal cp s)"
proof (cases "c_queue (cond s cp)")
  case Nil
  then show ?thesis using K me by (auto simp: chCondSignal_def returned_def intro!: safe_Done)
next
  case (Cons t q)
  have K': "kinv s" using K by (simp add: kinvU_def)
  note d = cond_detach [OF K' Cons]
  have "safe me (returns me (upd_cond cp (\<lambda>x. x\<lparr>c_queue := q\<rparr>) s)) s
      (chSchWakeupS t RDY_OK (upd_cond cp (\<lambda>x. x\<lparr>c_queue := q\<rparr>) s))"
    using chSchWakeupS_detached [OF K me d(1,2), of RDY_OK] d(3) by simp
  from safe_returned [OF this] show ?thesis
    using Cons cur_state [OF K'] me by (simp add: chCondSignal_def cond_fifo_remove_def kept_def)
qed

section \<open>Waiting\<close>

lemma cond_park:
  assumes K: "kinvL s" and me: "me = currp s"
    and s3: "s3 = cond_prio_insert me cp (upd_thd me (\<lambda>t. t\<lparr>p_u := cp\<rparr>) s)"
  shows "parked THD_STATE_WTCOND me (PCond cp) s s3"
proof -
  have K': "kinv s" and P: "places s" and S: "sems_ok s" and O: "ordered s"
    using K by (simp_all add: kinvL_def kinv_def kinv0_def)
  have cs: "state_of s me = THD_STATE_CURRENT" using cur_state [OF K'] me by simp
  then have un: "me \<notin> set (queue_of s r)" for r
    by (intro places_unqueued [OF P]) (simp add: place_ok_def)
  have q: "queue_of s3 r = queue_of s r" if "r \<noteq> PCond cp" for r
    using that by (cases r) (auto simp: s3 cond_prio_insert_def)
  have pr: "prio (upd_thd me (\<lambda>t. t\<lparr>p_u := cp\<rparr>) s) = prio s" by auto
  have qc: "queue_of s3 (PCond cp) = ins_behind (prio s) me (c_queue (cond s cp))"
    unfolding s3 cond_prio_insert_def pr by simp
  have "desc (prio s) (c_queue (cond s cp))"
    using O unfolding ordered_def by (metis prio_queue.simps(3) queue_of.simps(5))
  then have "desc (prio s) (queue_of s3 (PCond cp))" unfolding qc by (rule desc_ins_behind)
  then have "attached me (PCond cp) s s3"
    unfolding attached_def using q qc un [of "PCond cp"] places_distinct [OF P, of "PCond cp"]
    by (auto simp: s3 cond_prio_insert_def)
  moreover have "sems_ok s3" using S by (simp add: sems_ok_def s3 cond_prio_insert_def)
  ultimately show ?thesis by (auto simp: parked_def place_ok_def s3 cond_prio_insert_def)
qed

text \<open>
  After the wait the caller owns the mutexes it owned before, all of them and in the same
  order, or, when it timed out, all but the one it had released.
\<close>

lemma relock:
  assumes r: "returned me s1 s4" and m: "p_mtxlist (thd s1 me) = ms" and ni: "me \<noteq> idle_thread s4"
    and k: "p_realprio (thd s1 me) = p_realprio (thd s me)" "p_msgqueue (thd s1 me) = p_msgqueue (thd s me)"
      "p_epending (thd s1 me) = p_epending (thd s me)" "idle_thread s1 = idle_thread s" "p_mtxlist (thd s me) = mp # ms"
  shows "safe me (\<lambda>_ s'. returned me s s') s4 (chMtxLockS mp s4)"
proof (rule safe_mono [OF chMtxLockS_safe])
  show "kinvU s4" "me = currp s4" "me \<noteq> idle_thread s4" using r ni by (auto simp: returned_def)
  show "returned me s s'" if "acquired me mp s4 s'" for s'
    using that r m k unfolding returned_def acquired_def kept_def by (auto, metis and.assoc)
qed

text \<open>The way into both waits: the mutex is released and the caller joins the queue.\<close>

lemma cond_release:
  assumes K: "kinvU s" and me: "me = currp s" and ni: "me \<noteq> idle_thread s" and l: "p_mtxlist (thd s me) = mp # ms"
  obtains s1 s3 where "chMtxUnlockS s = (mp, s1)" and "kinvL s1" and "me = currp s1"
    and "me \<noteq> idle_thread s1" and "guar me s s1"
    and "p_mtxlist (thd s1 me) = ms" and "p_realprio (thd s1 me) = p_realprio (thd s me)"
    and "p_msgqueue (thd s1 me) = p_msgqueue (thd s me)"
    and "p_epending (thd s1 me) = p_epending (thd s me)" and "idle_thread s1 = idle_thread s"
    and "s3 = cond_prio_insert me cp (upd_thd me (\<lambda>t. t\<lparr>p_u := cp\<rparr>) s1)"
    and "parked THD_STATE_WTCOND me (PCond cp) s1 s3" and "\<not> chVTIsArmedI (OnStack me) s3"
proof -
  have K': "kinv s" and un: "\<not> chVTIsArmedI (OnStack me) s" using K me by (simp_all add: kinvU_def)
  obtain s1 where u: "chMtxUnlockS s = (mp, s1)"
    using unlock_cases [OF K' l [unfolded me]] by (cases "m_queue (mtx s mp)") auto
  have R: "released s s1" using chMtxUnlockS_released [OF K'] l me u by simp
  then have K1: "kinvL s1" and c1: "me = currp s1" and ni1: "me \<noteq> idle_thread s1" and g: "guar me s s1"
      and f: "p_mtxlist (thd s1 me) = ms" "p_realprio (thd s1 me) = p_realprio (thd s me)"
        "p_msgqueue (thd s1 me) = p_msgqueue (thd s me)"
        "p_epending (thd s1 me) = p_epending (thd s me)" "idle_thread s1 = idle_thread s"
    using un me ni l by (auto simp: released_def kinvL_def chVTIsArmedI_def)
  define s3 where "s3 = cond_prio_insert me cp (upd_thd me (\<lambda>t. t\<lparr>p_u := cp\<rparr>) s1)"
  have p: "parked THD_STATE_WTCOND me (PCond cp) s1 s3" by (rule cond_park [OF K1 c1 s3_def])
  have u3: "\<not> chVTIsArmedI (OnStack me) s3"
    using K1 c1 by (simp add: kinvL_def chVTIsArmedI_def s3_def cond_prio_insert_def)
  show thesis by (rule that [OF u K1 c1 ni1 g f s3_def p u3])
qed

lemma chCondWaitS_safe:
  assumes K: "kinvU s" and me: "me = currp s" and ni: "me \<noteq> idle_thread s" and l: "p_mtxlist (thd s me) = mp # ms"
  shows "safe me (\<lambda>m s'. returned me s s' \<and> (m = RDY_OK \<or> m = RDY_RESET)) s (chCondWaitS cp s)"
    (is "safe me ?Q s _")
proof -
  obtain s1 s3 where u: "chMtxUnlockS s = (mp, s1)" and K1: "kinvL s1" and c1: "me = currp s1"
    and ni1: "me \<noteq> idle_thread s1" and g: "guar me s s1"
    and f: "p_mtxlist (thd s1 me) = ms" "p_realprio (thd s1 me) = p_realprio (thd s me)"
      "p_msgqueue (thd s1 me) = p_msgqueue (thd s me)"
        "p_epending (thd s1 me) = p_epending (thd s me)" "idle_thread s1 = idle_thread s"
    and s3: "s3 = cond_prio_insert me cp (upd_thd me (\<lambda>t. t\<lparr>p_u := cp\<rparr>) s1)"
    and p: "parked THD_STATE_WTCOND me (PCond cp) s1 s3" and u3: "\<not> chVTIsArmedI (OnStack me) s3"
    by (rule cond_release [OF K me ni l])
  have run: "chCondWaitS cp s = rbind (chSchGoSleepS THD_STATE_WTCOND s3) (\<lambda>_ s4.
      rbind (chMtxLockS mp s4) (\<lambda>_. Done (p_u (thd s4 me))))"
    unfolding chCondWaitS_def u Let_def s3 me by simp
  have "safe me ?Q s1 (chCondWaitS cp s)" unfolding run
  proof (rule safe_bind [OF goSleep_returned [OF K1 c1 ni1 p]])
    fix a :: unit and s4 assume s4: "returned me s1 s4 \<and> rely me (sleeping THD_STATE_WTCOND me s3) s4"
    have "p_u (thd s4 me) \<in> {RDY_OK, RDY_RESET}"
      using rely_wait_msg [of me THD_STATE_WTCOND s3 s4] s4 u3 by (auto simp: returned_def kinvU_def)
    moreover have "safe me (\<lambda>_ s'. returned me s s') s4 (chMtxLockS mp s4)"
      using relock [OF _ f(1) _ f(2-5) l] s4 ni1 by (auto simp: returned_def kept_def)
    ultimately show "safe me ?Q s4 (rbind (chMtxLockS mp s4) (\<lambda>_. Done (p_u (thd s4 me))))"
      by (auto elim!: safe_bind intro: safe_Done)
  qed (auto simp: s3 cond_prio_insert_def)
  then show ?thesis by (rule safe_rebase) (rule g)
qed

lemma chCondWaitTimeoutS_safe:
  assumes K: "kinvU s" and me: "me = currp s" and ni: "me \<noteq> idle_thread s" and l: "p_mtxlist (thd s me) = mp # ms"
    and tm: "time \<noteq> TIME_IMMEDIATE"
  shows "safe me (\<lambda>m s'. (m = RDY_OK \<or> m = RDY_RESET) \<and> returned me s s' \<or>
      m = RDY_TIMEOUT \<and> time \<noteq> TIME_INFINITE \<and> unlocked me ms s s') s (chCondWaitTimeoutS cp time s)"
    (is "safe me ?Q s _")
proof -
  obtain s1 s3 where u: "chMtxUnlockS s = (mp, s1)" and K1: "kinvL s1" and c1: "me = currp s1"
    and ni1: "me \<noteq> idle_thread s1" and g: "guar me s s1"
    and f: "p_mtxlist (thd s1 me) = ms" "p_realprio (thd s1 me) = p_realprio (thd s me)"
      "p_msgqueue (thd s1 me) = p_msgqueue (thd s me)"
        "p_epending (thd s1 me) = p_epending (thd s me)" "idle_thread s1 = idle_thread s"
    and s3: "s3 = cond_prio_insert me cp (upd_thd me (\<lambda>t. t\<lparr>p_u := cp\<rparr>) s1)"
    and p: "parked THD_STATE_WTCOND me (PCond cp) s1 s3" and u3: "\<not> chVTIsArmedI (OnStack me) s3"
    by (rule cond_release [OF K me ni l])
  have run: "chCondWaitTimeoutS cp time s = rbind (chSchGoSleepTimeoutS THD_STATE_WTCOND time s3) (\<lambda>msg s4.
      if msg \<noteq> RDY_TIMEOUT then rbind (chMtxLockS mp s4) (\<lambda>_. Done msg) else Done msg s4)"
    unfolding chCondWaitTimeoutS_def u Let_def s3 prod.case c1 by simp
  have "safe me ?Q s1 (chCondWaitTimeoutS cp time s)" unfolding run
  proof (rule safe_bind [OF goSleepTimeout_returned [OF K1 c1 ni1 p _ tm]])
    fix m s4 assume s4: "returned me s1 s4 \<and> rely me (sleeping THD_STATE_WTCOND me (arm time me s3)) s4 \<and> m = p_u (thd s4 me)"
    have "m \<in> {RDY_OK, RDY_RESET} \<or> m = RDY_TIMEOUT \<and> time \<noteq> TIME_INFINITE"
      using rely_wait_msg [of me THD_STATE_WTCOND "arm time me s3" s4] s4 u3
      by (auto simp: returned_def kinvU_def arm_def split: if_splits)
    moreover have "safe me (\<lambda>_ s'. returned me s s') s4 (chMtxLockS mp s4)"
      using relock [OF _ f(1) _ f(2-5) l] s4 ni1 by (auto simp: returned_def kept_def)
    moreover have "unlocked me ms s s4" using s4 f by (auto simp: unlocked_def returned_def kept_def)
    ultimately show "safe me ?Q s4 (if m \<noteq> RDY_TIMEOUT then rbind (chMtxLockS mp s4) (\<lambda>_. Done m) else Done m s4)"
      by (auto elim!: safe_bind intro: safe_Done)
  qed (auto simp: s3 cond_prio_insert_def timed_def)
  then show ?thesis by (rule safe_rebase) (rule g)
qed

text \<open>
  The state in which the caller has given up the processor: it sleeps on the condition
  variable, and the mutex is no longer among those it owns.
\<close>

definition cond_waits :: "addr \<Rightarrow> addr \<Rightarrow> addr \<Rightarrow> addr list \<Rightarrow> kstate \<Rightarrow> bool" where
  "cond_waits me cp mp ms s \<longleftrightarrow> state_of s me = THD_STATE_WTCOND \<and> me \<in> set (c_queue (cond s cp)) \<and>
     p_mtxlist (thd s me) = ms \<and> m_owner (mtx s mp) \<noteq> me"

lemma left_as_cond_waits:
  assumes K: "kinv s" and l: "p_mtxlist (thd s me) = mp # ms" and f: "p_mtxlist (thd s1 me) = ms"
    and p: "parked THD_STATE_WTCOND me (PCond cp) s1 s3"
    and a: "left_as THD_STATE_WTCOND me s4 t" and s4: "thd s4 = thd s3" "queue_of s4 (PCond cp) = queue_of s3 (PCond cp)"
  shows "cond_waits me cp mp ms t"
proof -
  have O: "owners_ok t" using a by (simp add: left_as_def kinvS_def kinv_def kinv0_def)
  have "owners_ok s" using K by (simp add: kinv_def kinv0_def)
  then have n: "mp \<notin> set ms" "me \<noteq> NULL" using l unfolding owners_ok_def by (metis distinct.simps(2), metis list.set_intros(1))
  have m: "p_mtxlist (thd t me) = ms" using a s4 p f by (simp add: left_as_def parked_def attached_def)
  have "queue_of t (PCond cp) = queue_of s3 (PCond cp)" using a s4(2) unfolding left_as_def by (metis place.distinct)
  then have "me \<in> set (c_queue (cond t cp))" using p by (auto simp: parked_def attached_def)
  moreover have "m_owner (mtx t mp) \<noteq> me" using O n m unfolding owners_ok_def by blast
  ultimately show ?thesis using a m by (simp add: cond_waits_def left_as_def)
qed

lemma suspends_mono: "suspends P r \<Longrightarrow> (\<And>s. P s \<Longrightarrow> Q s) \<Longrightarrow> suspends Q r"
  by (auto simp: suspends_def)

lemma cond_wait_suspends:
  assumes K: "kinvU s" and me: "me = currp s" and ni: "me \<noteq> idle_thread s" and l: "p_mtxlist (thd s me) = mp # ms"
  shows "suspends (cond_waits me cp mp ms) (chCondWaitS cp s)"
    and "time \<noteq> TIME_IMMEDIATE \<Longrightarrow>
      suspends (\<lambda>t. cond_waits me cp mp ms t \<and> (chVTIsArmedI (OnStack me) t \<longleftrightarrow> time \<noteq> TIME_INFINITE))
        (chCondWaitTimeoutS cp time s)"
proof -
  obtain s1 s3 where u: "chMtxUnlockS s = (mp, s1)" and K1: "kinvL s1" and c1: "me = currp s1"
    and ni1: "me \<noteq> idle_thread s1" and f: "p_mtxlist (thd s1 me) = ms"
    and s3: "s3 = cond_prio_insert me cp (upd_thd me (\<lambda>t. t\<lparr>p_u := cp\<rparr>) s1)"
    and p: "parked THD_STATE_WTCOND me (PCond cp) s1 s3" and u3: "\<not> chVTIsArmedI (OnStack me) s3"
    by (rule cond_release [OF K me ni l])
  have K': "kinv s" using K by (simp add: kinvU_def)
  note w = left_as_cond_waits [OF K' l f p]
  have "suspends (cond_waits me cp mp ms) (chSchGoSleepS THD_STATE_WTCOND s3)"
    by (rule suspends_mono [OF goSleep_suspends [OF K1 c1 ni1 p]]) (rule w, simp_all)
  then show "suspends (cond_waits me cp mp ms) (chCondWaitS cp s)"
    unfolding chCondWaitS_def u Let_def prod.case s3 me by (rule suspends_bind)
  assume tm: "time \<noteq> TIME_IMMEDIATE"
  let ?P = "\<lambda>t. cond_waits me cp mp ms t \<and> (chVTIsArmedI (OnStack me) t \<longleftrightarrow> time \<noteq> TIME_INFINITE)"
  have "suspends ?P (chSchGoSleepTimeoutS THD_STATE_WTCOND time s3)"
  proof (rule suspends_mono [OF goSleepTimeout_suspends [OF K1 c1 ni1 p tm]])
    fix t assume t: "left_as THD_STATE_WTCOND me (arm time me s3) t"
    have "queue_of (arm time me s3) (PCond cp) = queue_of s3 (PCond cp)" by (simp add: arm_def)
    then have "cond_waits me cp mp ms t" by (intro w [OF t]) simp_all
    moreover have "chVTIsArmedI (OnStack me) t \<longleftrightarrow> time \<noteq> TIME_INFINITE"
      using t u3 by (simp add: left_as_def arm_def chVTIsArmedI_def vt_func_chVTSetI)
    ultimately show "?P t" by blast
  qed (simp add: timed_def)
  moreover have "chCondWaitTimeoutS cp time s = rbind (chSchGoSleepTimeoutS THD_STATE_WTCOND time s3) (\<lambda>msg s4.
      if msg \<noteq> RDY_TIMEOUT then rbind (chMtxLockS mp s4) (\<lambda>_. Done msg) else Done msg s4)"
    unfolding chCondWaitTimeoutS_def u Let_def s3 prod.case c1 by simp
  ultimately show "suspends ?P (chCondWaitTimeoutS cp time s)" by (simp only: suspends_bind)
qed

section \<open>Properties\<close>

lemma upd_cond_ready_with: "upd_cond cp f (ready_with t m s) = ready_with t m (upd_cond cp f s)"
proof -
  have "prio (upd_thd t (\<lambda>x. x\<lparr>p_u := m\<rparr>) (upd_cond cp f s)) = prio (upd_thd t (\<lambda>x. x\<lparr>p_u := m\<rparr>) s)" by auto
  then show ?thesis unfolding ready_with_eq chSchReadyI_at
    by (intro kstate.equality) (auto simp: ready_at_def)
qed

lemma chCondBroadcastI_fold:
  "chCondBroadcastI cp s = fold (\<lambda>t. ready_with t RDY_RESET) (c_queue (cond s cp)) (upd_cond cp (\<lambda>x. x\<lparr>c_queue := []\<rparr>) s)"
proof (induction "c_queue (cond s cp)" arbitrary: s)
  case Nil
  then have "upd_cond cp (\<lambda>x. x\<lparr>c_queue := []\<rparr>) s = s" by (auto intro!: kstate.equality CondVar.equality)
  then show ?case using Nil by (simp add: chCondBroadcastI.simps [of cp s] del: upd_cond_def)
next
  case (Cons t q)
  let ?s = "ready_with t RDY_RESET (upd_cond cp (\<lambda>x. x\<lparr>c_queue := q\<rparr>) s)"
  have "upd_cond cp (\<lambda>x. x\<lparr>c_queue := []\<rparr>) ?s = ready_with t RDY_RESET (upd_cond cp (\<lambda>x. x\<lparr>c_queue := []\<rparr>) s)"
    unfolding upd_cond_ready_with by simp
  moreover have q: "c_queue (cond ?s cp) = q" by (simp add: ready_with_def)
  ultimately have "chCondBroadcastI cp ?s = fold (\<lambda>t. ready_with t RDY_RESET) q
      (ready_with t RDY_RESET (upd_cond cp (\<lambda>x. x\<lparr>c_queue := []\<rparr>) s))"
    using Cons(1) [OF q [symmetric]] by (simp only:)
  then show ?case
    unfolding chCondBroadcastI_step [OF Cons(2) [symmetric]] Cons(2) [symmetric] by (simp only: fold.simps o_apply)
qed

text \<open>
  C13: waiting on a condition variable, by a thread that owns at least one mutex.  The function
  does not return at once: it gives up the processor, and in the state in which it does the
  caller sleeps in the queue of the condition variable, no longer owns the mutex it had locked
  last, owns the others, and its timer runs exactly when the time given is finite.  When the
  caller goes on after a signal
  (message \<open>RDY_OK\<close>) or a broadcast (message \<open>RDY_RESET\<close>) it owns exactly the mutexes it
  owned before, in the same order.  After a timeout, which only a finite time brings, it
  returns without the mutex, and with the others.  The kernel invariant holds at every point
  where the processor changes hands.
\<close>

theorem cond_wait_contract:
  assumes "kinvU s" and "me = currp s" and "me \<noteq> idle_thread s" and "p_mtxlist (thd s me) = mp # ms"
    and "time \<noteq> TIME_IMMEDIATE"
  shows "suspends (cond_waits me cp mp ms) (chCondWait cp s) \<and>
    safe me (\<lambda>m s'. returned me s s' \<and> (m = RDY_OK \<or> m = RDY_RESET)) s (chCondWait cp s) \<and>
    suspends (\<lambda>t. cond_waits me cp mp ms t \<and> (chVTIsArmedI (OnStack me) t \<longleftrightarrow> time \<noteq> TIME_INFINITE))
      (chCondWaitTimeout cp time s) \<and>
    safe me (\<lambda>m s'. (m = RDY_OK \<or> m = RDY_RESET) \<and> returned me s s' \<or>
      m = RDY_TIMEOUT \<and> time \<noteq> TIME_INFINITE \<and> unlocked me ms s s') s (chCondWaitTimeout cp time s)"
  unfolding chCondWait_def chCondWaitTimeout_def
  using chCondWaitS_safe [OF assms(1-4)] chCondWaitTimeoutS_safe [OF assms]
    cond_wait_suspends(1) [OF assms(1-4)] cond_wait_suspends(2) [OF assms] by blast

theorem cond_wait_contract_witness:
  "suspends (cond_waits 4096 768 512 []) (chCondWait 768 sample) \<and>
   safe 4096 (\<lambda>m s'. returned 4096 sample s' \<and> (m = RDY_OK \<or> m = RDY_RESET)) sample (chCondWait 768 sample)"
proof -
  have "p_mtxlist (thd sample 4096) = [512]" by (simp add: sample_defs)
  then show ?thesis using cond_wait_contract [OF sample_kinvU, of 4096 512 "[]" 10 768] by simp
qed

text \<open>
  C14: a broadcast empties the queue of the condition variable and makes every thread that
  waited on it ready with the message \<open>RDY_RESET\<close>; no other thread changes.  A signal wakes
  the first waiting thread, none of higher priority waiting, with \<open>RDY_OK\<close>, and only that one.
  Both keep the kernel invariant and may be called from an interrupt handler.
\<close>

theorem cond_wake_contract:
  assumes K: "kinv s"
  shows "iclass s (chCondBroadcastI cp s) \<and> c_queue (cond (chCondBroadcastI cp s) cp) = [] \<and>
    (\<forall>t. if t \<in> set (c_queue (cond s cp))
         then state_of (chCondBroadcastI cp s) t = THD_STATE_READY \<and> p_u (thd (chCondBroadcastI cp s) t) = RDY_RESET
         else thd (chCondBroadcastI cp s) t = thd s t) \<and>
    iclass s (chCondSignalI cp s) \<and>
    (\<forall>t q. c_queue (cond s cp) = t # q \<longrightarrow>
       state_of (chCondSignalI cp s) t = THD_STATE_READY \<and> p_u (thd (chCondSignalI cp s) t) = RDY_OK \<and>
       (\<forall>x. x \<noteq> t \<longrightarrow> thd (chCondSignalI cp s) x = thd s x) \<and>
       c_queue (cond (chCondSignalI cp s) cp) = q \<and> (\<forall>w\<in>set q. prio s w \<le> prio s t))"
proof -
  let ?q = "c_queue (cond s cp)"
  have P: "places s" "ordered s" using K by (simp_all add: kinv_def kinv0_def)
  have d: "distinct ?q" using places_distinct [OF P(1), of "PCond cp"] by simp
  have o: "desc (prio s) ?q" using P(2) unfolding ordered_def by (metis prio_queue.simps(3) queue_of.simps(5))
  note f = fold_ready_with [OF d, where m = RDY_RESET and s = "upd_cond cp (\<lambda>x. x\<lparr>c_queue := []\<rparr>) s", folded chCondBroadcastI_fold]
  have c: "cond (fold (\<lambda>t. ready_with t m) ts s') = cond s'" for ts m s'
    by (induction ts arbitrary: s') (auto simp: ready_with_def)
  have "c_queue (cond (chCondBroadcastI cp s) cp) = []" unfolding chCondBroadcastI_fold c by simp
  moreover have "if t \<in> set ?q
      then state_of (chCondBroadcastI cp s) t = THD_STATE_READY \<and> p_u (thd (chCondBroadcastI cp s) t) = RDY_RESET
      else thd (chCondBroadcastI cp s) t = thd s t" for t
    using f(2,3) [of t] by simp
  ultimately show ?thesis
    using chCondBroadcastI_iclass [OF K, of cp] chCondSignalI_iclass [OF K, of cp] o
    by (auto simp: chCondSignalI_def cond_fifo_remove_def ready_with_def)
qed

theorem cond_wake_contract_witness:
  "kinv sample \<and> state_of (chCondSignalI 768 sample) 24576 = THD_STATE_READY \<and>
   state_of (chCondBroadcastI 768 sample) 24576 = THD_STATE_READY"
  using cond_wake_contract [OF sample_kinv, of 768] sample_kinv by auto

end
