(* ===== verification/Events.thy ===== *)
theory Events
  imports CondVars
begin

text \<open>
  Event flags (\<^verbatim>\<open>os/kernel/src/chevents.c\<close>, \<^verbatim>\<open>os/kernel/include/chevents.h\<close>).  The
  listeners of an event source form a list through \<open>el_next\<close> that ends at the source itself.  The
  code reads the field \<open>es_next\<close> of a source as the field \<open>el_next\<close> of a listener, so both are
  the one map \<open>el_next\<close>.  The walks along it may not end, which is the value \<open>None\<close>: \<open>listens\<close>
  says that a source has the given listeners, and a listener registered twice is shown to
  make the broadcast run forever.
\<close>

section \<open>Event sources and listeners\<close>

definition EVENT_MASK :: "nat \<Rightarrow> eventmask_t" where
  "EVENT_MASK eid = push_bit eid 1"

definition chEvtInit :: "addr \<Rightarrow> kstate \<Rightarrow> kstate" where
  "chEvtInit esp s = s\<lparr>el_next := (el_next s)(esp := esp)\<rparr>"

definition chEvtIsListeningI :: "addr \<Rightarrow> kstate \<Rightarrow> bool" where
  "chEvtIsListeningI esp s \<longleftrightarrow> esp \<noteq> el_next s esp"

definition chEvtRegisterMask :: "addr \<Rightarrow> addr \<Rightarrow> eventmask_t \<Rightarrow> kstate \<Rightarrow> kstate" where
  "chEvtRegisterMask esp elp msk s =
     (let s1 = s\<lparr>el_next := (el_next s)(elp := el_next s esp)\<rparr>;
          s2 = s1\<lparr>el_next := (el_next s1)(esp := elp)\<rparr>
      in upd_evl elp (\<lambda>x. x\<lparr>el_listener := currp s, el_mask := msk, el_flags := 0\<rparr>) s2)"

definition chEvtRegister :: "addr \<Rightarrow> addr \<Rightarrow> nat \<Rightarrow> kstate \<Rightarrow> kstate" where
  "chEvtRegister esp elp eid s = chEvtRegisterMask esp elp (EVENT_MASK eid) s"

text \<open>The walk of \<open>chEvtUnregister\<close> takes out the first link to the listener.\<close>

partial_function (option) evt_unlink ::
    "addr \<Rightarrow> addr \<Rightarrow> (addr \<Rightarrow> addr) \<Rightarrow> addr \<Rightarrow> (addr \<Rightarrow> addr) option" where
  "evt_unlink esp elp nx p =
     (if nx p \<noteq> esp
      then if nx p = elp then Some (nx(p := nx elp)) else evt_unlink esp elp nx (nx p)
      else Some nx)"

definition chEvtUnregister :: "addr \<Rightarrow> addr \<Rightarrow> kstate \<Rightarrow> kstate option" where
  "chEvtUnregister esp elp s =
     map_option (\<lambda>nx. s\<lparr>el_next := nx\<rparr>) (evt_unlink esp elp (el_next s) esp)"

definition chEvtGetAndClearEvents :: "eventmask_t \<Rightarrow> kstate \<Rightarrow> eventmask_t \<times> kstate" where
  "chEvtGetAndClearEvents msk s =
     (p_epending (thd s (currp s)) AND msk,
      upd_thd (currp s) (\<lambda>t. t\<lparr>p_epending := p_epending t AND NOT msk\<rparr>) s)"

definition chEvtAddEvents :: "eventmask_t \<Rightarrow> kstate \<Rightarrow> eventmask_t \<times> kstate" where
  "chEvtAddEvents msk s =
     (let s1 = upd_thd (currp s) (\<lambda>t. t\<lparr>p_epending := p_epending t OR msk\<rparr>) s
      in (p_epending (thd s1 (currp s)), s1))"

section \<open>Signalling\<close>

definition chEvtSignalI :: "addr \<Rightarrow> eventmask_t \<Rightarrow> kstate \<Rightarrow> kstate" where
  "chEvtSignalI tp msk s =
     (let s1 = upd_thd tp (\<lambda>t. t\<lparr>p_epending := p_epending t OR msk\<rparr>) s; t = thd s1 tp
      in if (p_state t = THD_STATE_WTOREVT \<and> p_epending t AND p_u t \<noteq> 0) \<or>
            (p_state t = THD_STATE_WTANDEVT \<and> p_epending t AND p_u t = p_u t)
         then ready_with tp RDY_OK s1
         else s1)"

definition chEvtSignal :: "addr \<Rightarrow> eventmask_t \<Rightarrow> kstate \<Rightarrow> unit run" where
  "chEvtSignal tp msk s = chSchRescheduleS (chEvtSignalI tp msk s)"

text \<open>The loop of \<open>chEvtBroadcastFlagsI\<close> along the listeners.\<close>

partial_function (option) evt_broadcast_loop :: "addr \<Rightarrow> flagsmask_t \<Rightarrow> addr \<Rightarrow> kstate \<Rightarrow> kstate option" where
  "evt_broadcast_loop esp flags elp s =
     (if elp \<noteq> esp
      then let s1 = upd_evl elp (\<lambda>x. x\<lparr>el_flags := el_flags x OR flags\<rparr>) s;
               s2 = chEvtSignalI (el_listener (evl s1 elp)) (el_mask (evl s1 elp)) s1
           in evt_broadcast_loop esp flags (el_next s2 elp) s2
      else Some s)"

definition chEvtBroadcastFlagsI :: "addr \<Rightarrow> flagsmask_t \<Rightarrow> kstate \<Rightarrow> kstate option" where
  "chEvtBroadcastFlagsI esp flags s = evt_broadcast_loop esp flags (el_next s esp) s"

definition chEvtBroadcastFlags :: "addr \<Rightarrow> flagsmask_t \<Rightarrow> kstate \<Rightarrow> unit run option" where
  "chEvtBroadcastFlags esp flags s = map_option chSchRescheduleS (chEvtBroadcastFlagsI esp flags s)"

definition chEvtBroadcast :: "addr \<Rightarrow> kstate \<Rightarrow> unit run option" where
  "chEvtBroadcast esp s = chEvtBroadcastFlags esp 0 s"

definition chEvtBroadcastI :: "addr \<Rightarrow> kstate \<Rightarrow> kstate option" where
  "chEvtBroadcastI esp s = chEvtBroadcastFlagsI esp 0 s"

definition chEvtGetAndClearFlagsI :: "addr \<Rightarrow> kstate \<Rightarrow> flagsmask_t \<times> kstate" where
  "chEvtGetAndClearFlagsI elp s = (el_flags (evl s elp), upd_evl elp (\<lambda>x. x\<lparr>el_flags := 0\<rparr>) s)"

definition chEvtGetAndClearFlags :: "addr \<Rightarrow> kstate \<Rightarrow> flagsmask_t \<times> kstate" where
  "chEvtGetAndClearFlags elp s = (el_flags (evl s elp), upd_evl elp (\<lambda>x. x\<lparr>el_flags := 0\<rparr>) s)"

text \<open>
  Dispatching to the application's handlers.  The loop ends when no bit of the mask is left;
  for it not to return is the value \<open>None\<close>.  Handlers act on the state of the application.
\<close>

partial_function (option) evt_dispatch_loop ::
    "(nat \<Rightarrow> 'a \<Rightarrow> 'a) \<Rightarrow> nat \<Rightarrow> eventmask_t \<Rightarrow> 'a \<Rightarrow> 'a option" where
  "evt_dispatch_loop handlers eid msk a =
     (if msk \<noteq> 0
      then if msk AND EVENT_MASK eid \<noteq> 0
           then evt_dispatch_loop handlers (Suc eid) (msk AND NOT (EVENT_MASK eid)) (handlers eid a)
           else evt_dispatch_loop handlers (Suc eid) msk a
      else Some a)"

definition chEvtDispatch :: "(nat \<Rightarrow> 'a \<Rightarrow> 'a) \<Rightarrow> eventmask_t \<Rightarrow> 'a \<Rightarrow> 'a option" where
  "chEvtDispatch handlers msk a = evt_dispatch_loop handlers 0 msk a"

section \<open>Waiting\<close>

definition clear_events :: "addr \<Rightarrow> eventmask_t \<Rightarrow> kstate \<Rightarrow> kstate" where
  "clear_events ctp m s = upd_thd ctp (\<lambda>t. t\<lparr>p_epending := p_epending t AND NOT m\<rparr>) s"

definition chEvtWaitOne :: "eventmask_t \<Rightarrow> kstate \<Rightarrow> eventmask_t run" where
  "chEvtWaitOne msk s =
     (let ctp = currp s; m = p_epending (thd s ctp) AND msk
      in rbind
           (if m = 0
            then rbind (chSchGoSleepS THD_STATE_WTOREVT (upd_thd ctp (\<lambda>t. t\<lparr>p_u := msk\<rparr>) s))
                   (\<lambda>_ s1. Done (p_epending (thd s1 ctp) AND msk) s1)
            else Done m s)
           (\<lambda>m s2. let m1 = m AND - m in Done m1 (clear_events ctp m1 s2)))"

definition chEvtWaitAny :: "eventmask_t \<Rightarrow> kstate \<Rightarrow> eventmask_t run" where
  "chEvtWaitAny msk s =
     (let ctp = currp s; m = p_epending (thd s ctp) AND msk
      in rbind
           (if m = 0
            then rbind (chSchGoSleepS THD_STATE_WTOREVT (upd_thd ctp (\<lambda>t. t\<lparr>p_u := msk\<rparr>) s))
                   (\<lambda>_ s1. Done (p_epending (thd s1 ctp) AND msk) s1)
            else Done m s)
           (\<lambda>m s2. Done m (clear_events ctp m s2)))"

definition chEvtWaitAll :: "eventmask_t \<Rightarrow> kstate \<Rightarrow> eventmask_t run" where
  "chEvtWaitAll msk s =
     (let ctp = currp s
      in rbind
           (if p_epending (thd s ctp) AND msk \<noteq> msk
            then chSchGoSleepS THD_STATE_WTANDEVT (upd_thd ctp (\<lambda>t. t\<lparr>p_u := msk\<rparr>) s)
            else Done () s)
           (\<lambda>_ s2. Done msk (clear_events ctp msk s2)))"

definition chEvtWaitOneTimeout :: "eventmask_t \<Rightarrow> systime_t \<Rightarrow> kstate \<Rightarrow> eventmask_t run" where
  "chEvtWaitOneTimeout msk time s =
     (let ctp = currp s; m = p_epending (thd s ctp) AND msk;
          take = (\<lambda>m s2. let m1 = m AND - m in Done m1 (clear_events ctp m1 s2))
      in if m = 0
         then if time = TIME_IMMEDIATE then Done 0 s
              else rbind (chSchGoSleepTimeoutS THD_STATE_WTOREVT time (upd_thd ctp (\<lambda>t. t\<lparr>p_u := msk\<rparr>) s))
                     (\<lambda>msg s1. if sint msg < sint RDY_OK then Done 0 s1
                        else take (p_epending (thd s1 ctp) AND msk) s1)
         else take m s)"

definition chEvtWaitAnyTimeout :: "eventmask_t \<Rightarrow> systime_t \<Rightarrow> kstate \<Rightarrow> eventmask_t run" where
  "chEvtWaitAnyTimeout msk time s =
     (let ctp = currp s; m = p_epending (thd s ctp) AND msk;
          take = (\<lambda>m s2. Done m (clear_events ctp m s2))
      in if m = 0
         then if time = TIME_IMMEDIATE then Done 0 s
              else rbind (chSchGoSleepTimeoutS THD_STATE_WTOREVT time (upd_thd ctp (\<lambda>t. t\<lparr>p_u := msk\<rparr>) s))
                     (\<lambda>msg s1. if sint msg < sint RDY_OK then Done 0 s1
                        else take (p_epending (thd s1 ctp) AND msk) s1)
         else take m s)"

definition chEvtWaitAllTimeout :: "eventmask_t \<Rightarrow> systime_t \<Rightarrow> kstate \<Rightarrow> eventmask_t run" where
  "chEvtWaitAllTimeout msk time s =
     (let ctp = currp s
      in if p_epending (thd s ctp) AND msk \<noteq> msk
         then if time = TIME_IMMEDIATE then Done 0 s
              else rbind (chSchGoSleepTimeoutS THD_STATE_WTANDEVT time (upd_thd ctp (\<lambda>t. t\<lparr>p_u := msk\<rparr>) s))
                     (\<lambda>msg s1. if sint msg < sint RDY_OK then Done 0 s1
                        else Done msk (clear_events ctp msk s1))
         else Done msk (clear_events ctp msk s))"

section \<open>Signalling in the invariant\<close>

lemma or_mono_bits: "(a :: eventmask_t) AND (a OR b) = a"
  by (rule bit_eqI) (auto simp: bit_simps)

lemma chEvtSignalI_iclass: "kinv s \<Longrightarrow> iclass s (chEvtSignalI tp msk s)"
proof -
  assume K: "kinv s"
  have P: "places s" "sems_ok s" using K by (simp_all add: kinv_def kinv0_def)
  define s1 where "s1 = upd_thd tp (\<lambda>t. t\<lparr>p_epending := p_epending t OR msk\<rparr>) s"
  have q: "queue_of s1 r = queue_of s r" for r by (cases r) (auto simp: s1_def)
  have t: "p_state (thd s1 x) = p_state (thd s x)" "p_u (thd s1 x) = p_u (thd s x)"
      "p_epending (thd s x) AND p_epending (thd s1 x) = p_epending (thd s x)" for x
    by (simp_all add: s1_def or_mono_bits)
  have sm: "sems_ok s1" using P(2) by (simp add: sems_ok_def s1_def)
  show ?thesis
  proof (cases "evt_ready (state_of s tp) (p_u (thd s tp)) (p_epending (thd s1 tp))")
    case True
    then have st: "state_of s tp \<in> {THD_STATE_WTOREVT, THD_STATE_WTANDEVT}" by (auto simp: evt_ready_def)
    have "detached tp s s1"
      by (rule detached_unqueued [OF P(1)]) (use st q t in \<open>auto simp: place_ok_def s1_def\<close>)
    then have "iclass s (ready_with tp RDY_OK s1)" unfolding ready_with_eq
      by (intro iclass_ready [OF K detached_msg]) (use True st sm in \<open>auto simp: sems_ok_def\<close>)
    moreover have "chEvtSignalI tp msk s = ready_with tp RDY_OK s1"
      using True unfolding chEvtSignalI_def Let_def s1_def [symmetric] t evt_ready_def by simp
    ultimately show ?thesis by simp
  next
    case False
    have "same_core s s1" unfolding same_core_def using q t by (simp add: s1_def)
    then have "iclass s s1" using iclass_same_core [OF K _ sm] t by simp
    moreover have "chEvtSignalI tp msk s = s1"
      using False unfolding chEvtSignalI_def Let_def s1_def [symmetric] t evt_ready_def by auto
    ultimately show ?thesis by simp
  qed
qed

lemma upd_evl_iclass: "kinv s \<Longrightarrow> iclass s (upd_evl elp f s)"
proof -
  assume K: "kinv s"
  have "queue_of (upd_evl elp f s) r = queue_of s r" for r by (cases r) auto
  then have "same_core s (upd_evl elp f s)" by (simp add: same_core_def)
  moreover have "sems_ok (upd_evl elp f s)" using K by (simp add: kinv_def kinv0_def sems_ok_def)
  ultimately show ?thesis using iclass_same_core [OF K] by simp
qed

text \<open>What a broadcast does to a list of listeners.\<close>

fun evt_notify :: "flagsmask_t \<Rightarrow> addr list \<Rightarrow> kstate \<Rightarrow> kstate" where
  "evt_notify flags [] s = s"
| "evt_notify flags (elp # elps) s =
     (let s1 = upd_evl elp (\<lambda>x. x\<lparr>el_flags := el_flags x OR flags\<rparr>) s
      in evt_notify flags elps (chEvtSignalI (el_listener (evl s1 elp)) (el_mask (evl s1 elp)) s1))"

lemma evt_notify_iclass: "kinv s \<Longrightarrow> iclass s (evt_notify flags elps s)"
proof (induction elps arbitrary: s)
  case (Cons elp elps)
  let ?s1 = "upd_evl elp (\<lambda>x. x\<lparr>el_flags := el_flags x OR flags\<rparr>) s"
  let ?s2 = "chEvtSignalI (el_listener (evl ?s1 elp)) (el_mask (evl ?s1 elp)) ?s1"
  have i: "iclass s ?s1" by (rule upd_evl_iclass [OF Cons.prems])
  moreover from i have "iclass ?s1 ?s2" by (intro chEvtSignalI_iclass) (simp add: iclass_def)
  ultimately have i2: "iclass s ?s2" by (rule iclass_trans)
  then have "iclass ?s2 (evt_notify flags elps ?s2)" by (intro Cons.IH) (simp add: iclass_def)
  then show ?case using iclass_trans [OF i2] by (simp add: Let_def)
qed (simp add: iclass_refl)

interpretation evt_signal: iclass_op "chEvtSignalI tp msk" "\<lambda>_. True" for tp msk
  by unfold_locales (rule chEvtSignalI_iclass)

interpretation evt_broadcast: iclass_op "evt_notify flags elps" "\<lambda>_. True" for flags elps
  by unfold_locales (simp add: evt_notify_iclass)

section \<open>The lists of listeners\<close>

text \<open>The path from one node to another along \<open>el_next\<close>, through the given listeners.\<close>

fun evt_chain :: "(addr \<Rightarrow> addr) \<Rightarrow> addr \<Rightarrow> addr list \<Rightarrow> addr \<Rightarrow> bool" where
  "evt_chain nx p [] e \<longleftrightarrow> nx p = e"
| "evt_chain nx p (x # xs) e \<longleftrightarrow> nx p = x \<and> evt_chain nx x xs e"

definition listens :: "kstate \<Rightarrow> addr \<Rightarrow> addr list \<Rightarrow> bool" where
  "listens s esp xs \<longleftrightarrow> evt_chain (el_next s) esp xs esp \<and> distinct xs \<and> esp \<notin> set xs"

lemma evt_chain_cong:
  "(\<And>q. q \<in> insert p (set xs) \<Longrightarrow> nx q = nx' q) \<Longrightarrow> evt_chain nx p xs e = evt_chain nx' p xs e"
  by (induction xs arbitrary: p) auto

lemma evt_chain_move:
  assumes "evt_chain nx p xs e" and "nx' q = nx p" and "\<And>r. r \<in> set xs \<Longrightarrow> nx' r = nx r"
  shows "evt_chain nx' q xs e"
proof (cases xs)
  case (Cons y ys)
  then have "evt_chain nx' y ys e = evt_chain nx y ys e" using assms(3) by (intro evt_chain_cong) auto
  then show ?thesis using assms(1,2) Cons by simp
qed (use assms in simp)

lemma signal_links [simp]: "el_next (chEvtSignalI tp msk s) = el_next s"
  by (auto simp: chEvtSignalI_def ready_with_def Let_def)

text \<open>The walk of the broadcast is the work on the list, and ends.\<close>

lemma evt_broadcast_loop_notify:
  "evt_chain (el_next s) p xs esp \<Longrightarrow> esp \<notin> set xs \<Longrightarrow>
   evt_broadcast_loop esp flags (el_next s p) s = Some (evt_notify flags xs s)"
proof (induction xs arbitrary: p s)
  case Nil
  then show ?case by (simp add: evt_broadcast_loop.simps)
next
  case (Cons x xs)
  let ?s1 = "upd_evl x (\<lambda>x. x\<lparr>el_flags := el_flags x OR flags\<rparr>) s"
  let ?s2 = "chEvtSignalI (el_listener (evl ?s1 x)) (el_mask (evl ?s1 x)) ?s1"
  have nx: "el_next ?s2 = el_next s" by simp
  have xe: "x \<noteq> esp" using Cons.prems by auto
  have "evt_broadcast_loop esp flags (el_next ?s2 x) ?s2 = Some (evt_notify flags xs ?s2)"
    by (rule Cons.IH) (use Cons.prems nx in simp_all)
  then have "evt_broadcast_loop esp flags x s = Some (evt_notify flags (x # xs) s)"
    using xe by (subst evt_broadcast_loop.simps) (simp add: Let_def)
  then show ?case using Cons.prems by (simp del: evt_notify.simps)
qed

lemma broadcast_notify:
  "listens s esp xs \<Longrightarrow> chEvtBroadcastFlagsI esp flags s = Some (evt_notify flags xs s)"
  by (simp add: chEvtBroadcastFlagsI_def listens_def evt_broadcast_loop_notify)

text \<open>On a path that never comes back to the source it does not end.\<close>

lemma evt_broadcast_loop_leaves:
  "evt_broadcast_loop esp flags e s = Some r \<Longrightarrow> (\<exists>c\<in>C. el_next s c \<notin> C) \<or> e \<notin> C \<or> esp \<in> C"
proof (induction rule: evt_broadcast_loop.raw_induct [rotated, consumes 1])
  case (1 loop esp flags e s r)
  show ?case
  proof (cases "e = esp")
    case False
    let ?s1 = "upd_evl e (\<lambda>x. x\<lparr>el_flags := el_flags x OR flags\<rparr>) s"
    let ?s2 = "chEvtSignalI (el_listener (evl ?s1 e)) (el_mask (evl ?s1 e)) ?s1"
    have n: "el_next ?s2 = el_next s" by simp
    have "loop esp flags (el_next ?s2 e) ?s2 = Some r" using 1(2) False by (simp add: Let_def)
    from 1(1) [OF this] show ?thesis unfolding n by blast
  qed blast
qed

lemma evt_broadcast_loop_none:
  assumes "\<And>c. c \<in> C \<Longrightarrow> el_next s c \<in> C" and "e \<in> C" and "esp \<notin> C"
  shows "evt_broadcast_loop esp flags e s = None"
proof (cases "evt_broadcast_loop esp flags e s")
  case (Some r)
  from evt_broadcast_loop_leaves [OF this, of C] show ?thesis using assms by blast
qed

text \<open>Registering puts the listener in front; unregistering takes it out, wherever it is.\<close>

lemma register_listens:
  assumes "listens s esp xs" and "elp \<notin> set xs" and "elp \<noteq> esp"
  shows "listens (chEvtRegisterMask esp elp msk s) esp (elp # xs)"
proof -
  have "evt_chain ((el_next s)(elp := el_next s esp, esp := elp)) elp xs esp"
    by (rule evt_chain_move [where nx = "el_next s" and p = esp]) (use assms in \<open>auto simp: listens_def\<close>)
  then show ?thesis using assms by (simp add: listens_def chEvtRegisterMask_def Let_def)
qed

lemma evt_unlink_chain:
  assumes "evt_chain nx p xs esp" and "distinct xs" and "p \<notin> set xs" and "esp \<notin> set xs"
  shows "\<exists>nx'. evt_unlink esp elp nx p = Some nx' \<and> evt_chain nx' p (remove1 elp xs) esp \<and>
    (\<forall>q. q \<notin> insert p (set xs) \<longrightarrow> nx' q = nx q)"
  using assms
proof (induction xs arbitrary: p)
  case Nil
  then show ?case by (simp add: evt_unlink.simps)
next
  case (Cons x xs)
  then have x: "nx p = x" "x \<noteq> esp" "evt_chain nx x xs esp" by auto
  show ?case
  proof (cases "x = elp")
    case True
    have "evt_chain (nx(p := nx elp)) p xs esp"
      by (rule evt_chain_move [OF x(3)]) (use True Cons.prems in auto)
    then show ?thesis using x True by (simp add: evt_unlink.simps [of esp elp nx p])
  next
    case False
    obtain nx' where n: "evt_unlink esp elp nx x = Some nx'" "evt_chain nx' x (remove1 elp xs) esp"
        "\<forall>q. q \<notin> insert x (set xs) \<longrightarrow> nx' q = nx q"
      using Cons.IH [OF x(3)] Cons.prems by auto
    moreover have "nx' p = x" using n(3) Cons.prems x(1) by auto
    ultimately show ?thesis using x False by (auto simp: evt_unlink.simps [of esp elp nx p])
  qed
qed

lemma unregister_listens:
  assumes "listens s esp xs"
  shows "\<exists>s'. chEvtUnregister esp elp s = Some s' \<and> listens s' esp (remove1 elp xs) \<and>
    (\<forall>q. q \<notin> insert esp (set xs) \<longrightarrow> el_next s' q = el_next s q)"
proof -
  obtain nx where "evt_unlink esp elp (el_next s) esp = Some nx" "evt_chain nx esp (remove1 elp xs) esp"
      "\<forall>q. q \<notin> insert esp (set xs) \<longrightarrow> nx q = el_next s q"
    using evt_unlink_chain [of "el_next s" esp xs esp elp] assms by (auto simp: listens_def)
  then show ?thesis using assms notin_set_remove1 [of esp xs elp]
    by (auto simp: chEvtUnregister_def listens_def distinct_remove1)
qed

text \<open>A listener that is registered again closes a loop that the source is not part of.\<close>

lemma evt_chain_prefix:
  "evt_chain nx p (ys @ x # zs) e \<Longrightarrow> c \<in> insert p (set ys) \<Longrightarrow> nx c \<in> insert x (set ys)"
  by (induction ys arbitrary: p) auto

lemma register_twice:
  assumes "listens s esp xs" and "elp \<in> set xs"
  shows "chEvtBroadcastFlagsI esp flags (chEvtRegisterMask esp elp msk s) = None"
proof -
  obtain ys zs where xs: "xs = ys @ elp # zs" using split_list [OF assms(2)] by blast
  let ?s = "chEvtRegisterMask esp elp msk s" and ?C = "insert elp (set ys)"
  have l: "evt_chain (el_next s) esp (ys @ elp # zs) esp" "elp \<notin> set ys" "esp \<notin> ?C"
    using assms(1) xs by (auto simp: listens_def)
  have n: "el_next ?s = (el_next s)(elp := el_next s esp, esp := elp)" by (simp add: chEvtRegisterMask_def Let_def)
  have pf: "el_next s c \<in> ?C" if "c \<in> insert esp (set ys)" for c by (rule evt_chain_prefix [OF l(1) that])
  have "el_next ?s c \<in> ?C" if "c \<in> ?C" for c
  proof (cases "c = elp")
    case True
    then show ?thesis using pf [of esp] l(3) unfolding n by simp
  next
    case False
    then have "c \<in> set ys" "c \<noteq> esp" using that l(3) by auto
    then show ?thesis using pf [of c] False unfolding n by simp
  qed
  then have "evt_broadcast_loop esp flags elp ?s = None"
    by (rule evt_broadcast_loop_none [where C = ?C]) (use l(3) in simp_all)
  then show ?thesis using n by (simp add: chEvtBroadcastFlagsI_def)
qed

section \<open>Dispatching\<close>

lemma evt_dispatch_loop_eq:
  assumes "\<And>j. j < eid \<Longrightarrow> \<not> bit msk j"
  shows "evt_dispatch_loop handlers eid msk a = Some (fold handlers (filter (bit msk) [eid..<32]) a)"
  using assms
proof (induction "32 - eid" arbitrary: eid msk a)
  case 0
  have "msk = 0" by (rule bit_eqI) (use 0 in auto)
  then show ?case using 0 by (simp add: evt_dispatch_loop.simps)
next
  case (Suc n)
  then have lt: "eid < 32" by simp
  then have up: "[eid..<32] = eid # [Suc eid..<32]" by (simp add: upt_conv_Cons)
  show ?case
  proof (cases "msk = 0")
    case True
    then show ?thesis by (simp add: evt_dispatch_loop.simps)
  next
    case ne: False
    show ?thesis
    proof (cases "bit msk eid")
      case True
      let ?m = "msk AND NOT (EVENT_MASK eid)"
      have b: "bit ?m j \<longleftrightarrow> bit msk j \<and> j \<noteq> eid" for j
        using bit_imp_le_length [of msk j] lt by (auto simp: EVENT_MASK_def bit_simps)
      have "evt_dispatch_loop handlers (Suc eid) ?m (handlers eid a) =
          Some (fold handlers (filter (bit ?m) [Suc eid..<32]) (handlers eid a))"
        by (rule Suc.hyps(1)) (use Suc.hyps(2) Suc.prems b in \<open>auto simp: less_Suc_eq\<close>)
      moreover have "filter (bit ?m) [Suc eid..<32] = filter (bit msk) [Suc eid..<32]"
        by (rule filter_cong) (auto simp: b)
      moreover have "msk AND EVENT_MASK eid \<noteq> 0"
        using True by (simp add: EVENT_MASK_def bit_iff_and_push_bit_not_eq_0)
      ultimately show ?thesis
        using True ne unfolding up evt_dispatch_loop.simps [of handlers eid msk a] by simp
    next
      case False
      then have "evt_dispatch_loop handlers (Suc eid) msk a = Some (fold handlers (filter (bit msk) [Suc eid..<32]) a)"
        by (intro Suc.hyps(1)) (use Suc.hyps(2) Suc.prems in \<open>auto simp: less_Suc_eq\<close>)
      moreover have "msk AND EVENT_MASK eid = 0"
        using False by (simp add: EVENT_MASK_def bit_iff_and_push_bit_not_eq_0)
      ultimately show ?thesis
        using False ne unfolding up evt_dispatch_loop.simps [of handlers eid msk a] by simp
    qed
  qed
qed

section \<open>Waiting\<close>

text \<open>\<^verbatim>\<open>m & -m\<close> is the lowest bit of \<open>m\<close>.\<close>

lemma odd_and_minus:
  fixes m :: "eventmask_t" assumes "odd m" shows "m AND - m = 1"
proof -
  obtain x where x: "m = 2 * x + 1" using assms by (rule oddE)
  then have m: "- m = NOT (2 * x)" "m = 1 + 2 * x" by (simp_all add: minus_eq_not_minus_1)
  have b: "bit m j \<longleftrightarrow> bit (2 * x) j \<or> j = 0" for j unfolding m(2) by (rule even_bit_succ_iff) simp
  show ?thesis unfolding m(1) by (rule bit_eqI) (auto simp: b bit_simps)
qed

lemma lowest_bit:
  fixes m :: "eventmask_t" assumes "m \<noteq> 0"
  obtains k where "m AND - m = EVENT_MASK k" "bit m k" "k < 32" "\<And>j. j < k \<Longrightarrow> \<not> bit m j"
proof -
  define k where "k = (LEAST k. bit m k)"
  have "\<exists>j. bit m j" using assms bit_eq_iff [of m 0] by auto
  then have k: "bit m k" unfolding k_def by (rule LeastI_ex)
  have l: "\<not> bit m j" if "j < k" for j using not_less_Least that unfolding k_def by blast
  have "k \<le> n \<and> k + (n - k) = n" if "bit m n" for n using l [of n] that by (cases "n < k") auto
  then have "m = push_bit k (drop_bit k m)" by (intro bit_eqI) (auto simp: bit_simps)
  moreover have "odd (drop_bit k m)" using k by (simp add: bit_iff_odd_drop_bit)
  moreover have "- push_bit k x = push_bit k (- x)" for x :: eventmask_t by (simp add: push_bit_eq_mult)
  ultimately have "m AND - m = push_bit k (drop_bit k m AND - drop_bit k m)" by (metis push_bit_and)
  then have "m AND - m = EVENT_MASK k" using odd_and_minus \<open>odd (drop_bit k m)\<close> by (simp add: EVENT_MASK_def)
  then show thesis using that k l bit_imp_le_length [OF k] by simp
qed

lemma evt_park:
  assumes K: "kinvL s" and me: "me = currp s" and ns: "ns \<in> {THD_STATE_WTOREVT, THD_STATE_WTANDEVT}"
  shows "parked ns me PNone s (upd_thd me (\<lambda>t. t\<lparr>p_u := msk\<rparr>) s)" (is "parked ns me PNone s ?s")
proof -
  have "sems_ok s" using K by (simp add: kinvL_def kinv_def kinv0_def)
  moreover have "queue_of ?s r = queue_of s r" for r by (cases r) auto
  ultimately show ?thesis using ns by (auto simp: parked_def attached_def place_ok_def sems_ok_def)
qed

lemma rely_evt_msg:
  assumes R: "rely me (sleeping ns me s1) s'" and ns: "ns \<in> {THD_STATE_WTOREVT, THD_STATE_WTANDEVT}"
    and s': "kinv s'" "currp s' = me"
  shows "p_u (thd s' me) = RDY_OK \<and> evt_ready ns (p_u (thd s1 me)) (p_epending (thd s' me)) \<or>
    chVTIsArmedI (OnStack me) s1 \<and> p_u (thd s' me) = RDY_TIMEOUT"
proof -
  have "state_of s' me = THD_STATE_CURRENT" using cur_state [OF s'(1)] s'(2) by simp
  moreover have "ns \<noteq> THD_STATE_FINAL" using ns by auto
  then have "evt_rely (chVTIsArmedI (OnStack me) (sleeping ns me s1)) (thd (sleeping ns me s1) me) (thd s' me)"
    using R by (simp add: rely_def)
  ultimately show ?thesis using ns by (auto simp: evt_rely_def chVTIsArmedI_def)
qed

text \<open>
  The thread goes on with exactly the events \<open>m\<close> taken: none of them is pending any more, and
  no other event that was pending is lost.
\<close>

definition evt_taken :: "addr \<Rightarrow> eventmask_t \<Rightarrow> kstate \<Rightarrow> kstate \<Rightarrow> bool" where
  "evt_taken me m s s' \<longleftrightarrow> kinvU s' \<and> currp s' = me \<and>
     p_mtxlist (thd s' me) = p_mtxlist (thd s me) \<and> p_realprio (thd s' me) = p_realprio (thd s me) \<and>
     (\<exists>ys. p_msgqueue (thd s' me) = p_msgqueue (thd s me) @ ys) \<and> idle_thread s' = idle_thread s \<and>
     m AND p_epending (thd s' me) = 0 \<and>
     (p_epending (thd s me) AND NOT m) AND p_epending (thd s' me) = p_epending (thd s me) AND NOT m"

lemma clear_events_core:
  assumes K: "kinvU s" and me: "me = currp s"
  shows "kinvU (clear_events me m s)" "guar me s (clear_events me m s)" "currp (clear_events me m s) = currp s"
proof -
  let ?s = "clear_events me m s"
  have K': "kinv s" using K by (simp add: kinvU_def)
  have "queue_of ?s r = queue_of s r" for r by (cases r) (auto simp: clear_events_def)
  then have c: "same_core s ?s" using cur_state [OF K'] me by (auto simp: same_core_def clear_events_def)
  have "sems_ok ?s" using K' by (simp add: kinv_def kinv0_def sems_ok_def clear_events_def)
  then show "kinvU ?s"
    using kinv_same_core [OF K' c] same_core_prio_ok [OF c] K by (simp add: kinvU_def clear_events_def chVTIsArmedI_def)
  show "guar me s ?s" by (rule same_core_guar [OF K' c me])
  show "currp ?s = currp s" by (simp add: clear_events_def)
qed

lemma clear_taken:
  assumes "returned me s s2"
  shows "evt_taken me m s (clear_events me m s2)" "guar me s2 (clear_events me m s2)"
proof -
  have r: "kinvU s2" "me = currp s2" "kept me s s2" using assms by (auto simp: returned_def)
  let ?a = "p_epending (thd s me)" and ?b = "p_epending (thd s2 me)"
  have ab: "?a AND ?b = ?a" using r(3) by (simp add: kept_def)
  have "(?a AND NOT m) AND (?b AND NOT m) = (?a AND ?b) AND NOT m" by (rule bit_eqI) (auto simp: bit_simps)
  moreover have "m AND (?b AND NOT m) = 0" by (rule bit_eqI) (auto simp: bit_simps)
  ultimately show "evt_taken me m s (clear_events me m s2)"
    using r clear_events_core [OF r(1,2), of m] ab by (simp add: evt_taken_def kept_def clear_events_def)
  show "guar me s2 (clear_events me m s2)" by (rule clear_events_core [OF r(1,2)])
qed

lemma returned_taken: "returned me s s' \<Longrightarrow> evt_taken me 0 s s'"
  by (auto simp: returned_def kept_def evt_taken_def)

lemma evt_sleep:
  assumes K: "kinvU s" and me: "me = currp s" and ni: "me \<noteq> idle_thread s"
    and ns: "ns \<in> {THD_STATE_WTOREVT, THD_STATE_WTANDEVT}"
  shows "safe me (\<lambda>_ s'. returned me s s' \<and> evt_ready ns msk (p_epending (thd s' me))) s
      (chSchGoSleepS ns (upd_thd me (\<lambda>t. t\<lparr>p_u := msk\<rparr>) s))"
    and "time \<noteq> TIME_IMMEDIATE \<Longrightarrow>
      safe me (\<lambda>m s'. returned me s s' \<and> (m = RDY_OK \<and> evt_ready ns msk (p_epending (thd s' me)) \<or>
        m = RDY_TIMEOUT \<and> time \<noteq> TIME_INFINITE)) s
      (chSchGoSleepTimeoutS ns time (upd_thd me (\<lambda>t. t\<lparr>p_u := msk\<rparr>) s))"
proof -
  have L: "kinvL s" using K by (simp add: kinvU_L)
  note p = evt_park [OF L me ns, of msk]
  let ?s = "upd_thd me (\<lambda>t. t\<lparr>p_u := msk\<rparr>) s"
  have u: "\<not> chVTIsArmedI (OnStack me) ?s" using L me by (simp add: kinvL_def chVTIsArmedI_def)
  show "safe me (\<lambda>_ s'. returned me s s' \<and> evt_ready ns msk (p_epending (thd s' me))) s (chSchGoSleepS ns ?s)"
  proof (rule safe_mono [OF goSleep_returned [OF L me ni p]])
    fix s' assume s': "returned me s s' \<and> rely me (sleeping ns me ?s) s'"
    then show "returned me s s' \<and> evt_ready ns msk (p_epending (thd s' me))"
      using rely_evt_msg [of me ns ?s s'] ns u by (auto simp: returned_def kinvU_def)
  qed (use ns in auto)
  assume tm: "time \<noteq> TIME_IMMEDIATE"
  show "safe me (\<lambda>m s'. returned me s s' \<and> (m = RDY_OK \<and> evt_ready ns msk (p_epending (thd s' me)) \<or>
        m = RDY_TIMEOUT \<and> time \<noteq> TIME_INFINITE)) s (chSchGoSleepTimeoutS ns time ?s)"
  proof (rule safe_mono [OF goSleepTimeout_returned [OF L me ni p _ tm]])
    fix m s' assume s': "returned me s s' \<and> rely me (sleeping ns me (arm time me ?s)) s' \<and> m = p_u (thd s' me)"
    then show "returned me s s' \<and> (m = RDY_OK \<and> evt_ready ns msk (p_epending (thd s' me)) \<or>
        m = RDY_TIMEOUT \<and> time \<noteq> TIME_INFINITE)"
      using rely_evt_msg [of me ns "arm time me ?s" s'] ns u
      by (auto simp: returned_def kinvU_def arm_def split: if_splits)
  qed (use ns in \<open>auto simp: timed_def\<close>)
qed

text \<open>
  What the three kinds of waits return, given the events \<open>p\<close> pending when the thread last got
  the processor: the lowest of those in the mask, all of those in the mask, the whole mask.
\<close>

definition one_of :: "eventmask_t \<Rightarrow> eventmask_t \<Rightarrow> eventmask_t \<Rightarrow> bool" where
  "one_of msk p m \<longleftrightarrow>
     (\<exists>k<32. m = EVENT_MASK k \<and> bit p k \<and> bit msk k \<and> (\<forall>j<k. \<not> (bit p j \<and> bit msk j)))"

definition any_of :: "eventmask_t \<Rightarrow> eventmask_t \<Rightarrow> eventmask_t \<Rightarrow> bool" where
  "any_of msk p m \<longleftrightarrow> m = p AND msk \<and> m \<noteq> 0"

definition all_of :: "eventmask_t \<Rightarrow> eventmask_t \<Rightarrow> eventmask_t \<Rightarrow> bool" where
  "all_of msk p m \<longleftrightarrow> m = msk \<and> p AND msk = msk"

text \<open>
  The events \<open>m\<close> were chosen by \<open>W\<close> among those pending in the state \<open>b\<close> of the last
  resumption, and the final state has exactly these taken away.
\<close>

definition took :: "(eventmask_t \<Rightarrow> eventmask_t \<Rightarrow> bool) \<Rightarrow> addr \<Rightarrow> kstate \<Rightarrow> kstate \<Rightarrow> eventmask_t \<Rightarrow> kstate \<Rightarrow> bool" where
  "took W me s b m s' \<longleftrightarrow> evt_taken me m s s' \<and> W (p_epending (thd b me)) m \<and>
     p_epending (thd s' me) = p_epending (thd b me) AND NOT m"

definition took_or_timeout ::
    "(eventmask_t \<Rightarrow> eventmask_t \<Rightarrow> bool) \<Rightarrow> systime_t \<Rightarrow> addr \<Rightarrow> kstate \<Rightarrow> kstate \<Rightarrow> eventmask_t \<Rightarrow> kstate \<Rightarrow> bool" where
  "took_or_timeout W time me s b m s' \<longleftrightarrow>
     took W me s b m s' \<or> m = 0 \<and> time \<noteq> TIME_INFINITE \<and> returned me s s'"

lemma from_take:
  assumes "guar me b s2" and "returned me s s2" and "thd s2 = thd b" and "W (p_epending (thd s2 me)) m"
  shows "safe_from me (took W me s) b (Done m (clear_events me m s2))"
proof (rule from_Done)
  show "guar me b (clear_events me m s2)" using guar_trans [OF assms(1)] clear_taken(2) [OF assms(2)] by blast
  show "took W me s b m (clear_events me m s2)"
    using clear_taken(1) [OF assms(2)] assms(3,4) by (simp add: took_def clear_events_def)
qed

lemma one_of_lowest:
  assumes "p AND msk \<noteq> 0" shows "one_of msk p ((p AND msk) AND - (p AND msk))"
proof -
  obtain k where "(p AND msk) AND - (p AND msk) = EVENT_MASK k" "bit (p AND msk) k" "k < 32"
      "\<And>j. j < k \<Longrightarrow> \<not> bit (p AND msk) j"
    by (rule lowest_bit [OF assms]) blast
  then show ?thesis unfolding one_of_def by (auto simp: bit_and_iff)
qed

lemma returned_refl: "kinvU s \<Longrightarrow> me = currp s \<Longrightarrow> returned me s s"
  by (simp add: returned_def)

lemma evt_any_wait:
  assumes K: "kinvU s" and me: "me = currp s" and ni: "me \<noteq> idle_thread s"
  shows "safe_from me (\<lambda>b m s'. returned me s s' \<and> thd s' = thd b \<and> m = p_epending (thd s' me) AND msk \<and> m \<noteq> 0) s
    (if p_epending (thd s me) AND msk = 0
     then rbind (chSchGoSleepS THD_STATE_WTOREVT (upd_thd me (\<lambda>t. t\<lparr>p_u := msk\<rparr>) s))
       (\<lambda>_ s1. Done (p_epending (thd s1 me) AND msk) s1)
     else Done (p_epending (thd s me) AND msk) s)" (is "safe_from me ?Q s _")
proof (cases "p_epending (thd s me) AND msk = 0")
  case True
  have "safe_from me ?Q s
      (rbind (chSchGoSleepS THD_STATE_WTOREVT (upd_thd me (\<lambda>t. t\<lparr>p_u := msk\<rparr>) s))
        (\<lambda>_ s1. Done (p_epending (thd s1 me) AND msk) s1))"
    by (rule from_bind [OF goSleep_from [OF evt_sleep(1) [OF K me ni, of _ msk]]])
      (auto intro!: from_Done simp: evt_ready_def)
  then show ?thesis using True by simp
next
  case False
  then show ?thesis using returned_refl [OF K me] by (auto intro!: from_Done)
qed

lemma chEvtWaitAny_safe:
  assumes K: "kinvU s" and me: "me = currp s" and ni: "me \<noteq> idle_thread s"
  shows "safe_from me (took (any_of msk) me s) s (chEvtWaitAny msk s)"
  unfolding chEvtWaitAny_def Let_def me [symmetric]
proof (rule from_bind [OF evt_any_wait [OF K me ni]])
  fix b m s2 assume "guar me b s2"
    and "returned me s s2 \<and> thd s2 = thd b \<and> m = p_epending (thd s2 me) AND msk \<and> m \<noteq> 0"
  then show "safe_from me (took (any_of msk) me s) b (Done m (clear_events me m s2))"
    by (intro from_take) (auto simp: any_of_def)
qed

lemma chEvtWaitOne_safe:
  assumes K: "kinvU s" and me: "me = currp s" and ni: "me \<noteq> idle_thread s"
  shows "safe_from me (took (one_of msk) me s) s (chEvtWaitOne msk s)"
  unfolding chEvtWaitOne_def Let_def me [symmetric]
proof (rule from_bind [OF evt_any_wait [OF K me ni]])
  fix b m s2 assume "guar me b s2"
    and "returned me s s2 \<and> thd s2 = thd b \<and> m = p_epending (thd s2 me) AND msk \<and> m \<noteq> 0"
  then show "safe_from me (took (one_of msk) me s) b (Done (m AND - m) (clear_events me (m AND - m) s2))"
    using one_of_lowest [of "p_epending (thd s2 me)" msk] by (intro from_take) auto
qed

lemma chEvtWaitAll_safe:
  assumes K: "kinvU s" and me: "me = currp s" and ni: "me \<noteq> idle_thread s"
  shows "safe_from me (took (all_of msk) me s) s (chEvtWaitAll msk s)"
proof -
  have "safe_from me (\<lambda>b _ s'. (returned me s s' \<and> p_epending (thd s' me) AND msk = msk) \<and> thd s' = thd b) s
      (if p_epending (thd s me) AND msk \<noteq> msk
       then chSchGoSleepS THD_STATE_WTANDEVT (upd_thd me (\<lambda>t. t\<lparr>p_u := msk\<rparr>) s) else Done () s)"
  proof (cases "p_epending (thd s me) AND msk = msk")
    case False
    have "safe me (\<lambda>_ s'. returned me s s' \<and> p_epending (thd s' me) AND msk = msk) s
        (chSchGoSleepS THD_STATE_WTANDEVT (upd_thd me (\<lambda>t. t\<lparr>p_u := msk\<rparr>) s))"
      by (rule safe_mono [OF evt_sleep(1) [OF K me ni, of _ msk]]) (auto simp: evt_ready_def)
    from goSleep_from [OF this] show ?thesis using False by simp
  qed (use returned_refl [OF K me] in \<open>auto intro!: from_Done\<close>)
  then show ?thesis unfolding chEvtWaitAll_def Let_def me [symmetric]
    by (rule from_bind) (auto intro!: from_take simp: all_of_def)
qed

text \<open>The three timed waits: nothing is taken and \<open>0\<close> returned when the time is over.\<close>

lemma evt_timeout_frame:
  assumes K: "kinvU s" and me: "me = currp s" and ni: "me \<noteq> idle_thread s"
    and ns: "ns \<in> {THD_STATE_WTOREVT, THD_STATE_WTANDEVT}"
    and f: "\<And>b s'. guar me b s' \<Longrightarrow> returned me s s' \<Longrightarrow> thd s' = thd b \<Longrightarrow> evt_ready ns msk (p_epending (thd s' me)) \<Longrightarrow>
      safe_from me (took W me s) b (f s')"
    and now: "\<not> c \<Longrightarrow> safe_from me (took W me s) s now"
  shows "safe_from me (took_or_timeout W time me s) s
    (if c
     then if time = TIME_IMMEDIATE then Done 0 s
          else rbind (chSchGoSleepTimeoutS ns time (upd_thd me (\<lambda>t. t\<lparr>p_u := msk\<rparr>) s))
            (\<lambda>msg s1. if sint msg < sint RDY_OK then Done 0 s1 else f s1)
     else now)" (is "safe_from me ?Q s _")
proof -
  have took: "safe_from me ?Q b r" if "safe_from me (took W me s) b r" for b r
    by (rule from_mono [OF that]) (simp add: took_or_timeout_def)
  have sleep: "safe_from me ?Q s
      (rbind (chSchGoSleepTimeoutS ns time (upd_thd me (\<lambda>t. t\<lparr>p_u := msk\<rparr>) s))
        (\<lambda>msg s1. if sint msg < sint RDY_OK then Done 0 s1 else f s1))" if tm: "time \<noteq> TIME_IMMEDIATE"
  proof (rule from_bind [OF goSleepTimeout_from [OF evt_sleep(2) [OF K me ni ns tm, of msk]]])
    fix b and m :: msg_t and s1 assume g: "guar me b s1"
      and r: "(returned me s s1 \<and> (m = RDY_OK \<and> evt_ready ns msk (p_epending (thd s1 me)) \<or>
        m = RDY_TIMEOUT \<and> time \<noteq> TIME_INFINITE)) \<and> thd s1 = thd b"
    show "safe_from me ?Q b (if sint m < sint RDY_OK then Done 0 s1 else f s1)"
    proof (cases "m = RDY_OK")
      case True
      have "safe_from me (took W me s) b (f s1)" by (rule f) (use r g True in auto)
      then show ?thesis using True took by simp
    next
      case False
      then show ?thesis using r g by (auto intro!: from_Done simp: took_or_timeout_def)
    qed
  qed
  show ?thesis
    using took [OF now] sleep returned_refl [OF K me]
    by (cases c; cases "time = TIME_IMMEDIATE") (auto intro!: from_Done simp: took_or_timeout_def simp del: upd_thd_def)
qed

lemma chEvtWaitTimeout_safe:
  assumes K: "kinvU s" and me: "me = currp s" and ni: "me \<noteq> idle_thread s"
  shows "safe_from me (took_or_timeout (one_of msk) time me s) s (chEvtWaitOneTimeout msk time s)" (is ?One)
    and "safe_from me (took_or_timeout (any_of msk) time me s) s (chEvtWaitAnyTimeout msk time s)" (is ?Any)
    and "safe_from me (took_or_timeout (all_of msk) time me s) s (chEvtWaitAllTimeout msk time s)" (is ?All)
proof -
  note r = returned_refl [OF K me]
  show ?One unfolding chEvtWaitOneTimeout_def Let_def me [symmetric]
    by (rule evt_timeout_frame [OF K me ni]) (auto simp: evt_ready_def intro!: from_take one_of_lowest r)
  show ?Any unfolding chEvtWaitAnyTimeout_def Let_def me [symmetric]
    by (rule evt_timeout_frame [OF K me ni]) (auto simp: evt_ready_def any_of_def intro!: from_take r)
  show ?All unfolding chEvtWaitAllTimeout_def Let_def me [symmetric]
    by (rule evt_timeout_frame [OF K me ni]) (auto simp: evt_ready_def all_of_def intro!: from_take r)
qed

text \<open>
  A wait returns at once when it finds what it waits for, and otherwise gives up the processor,
  asleep in the state \<open>ns\<close> for the events \<open>msk\<close>.
\<close>

definition evt_blocks :: "addr \<Rightarrow> tstate \<Rightarrow> eventmask_t \<Rightarrow> bool \<Rightarrow> eventmask_t run \<Rightarrow> bool" where
  "evt_blocks me ns msk found r \<longleftrightarrow>
     (if found then \<exists>m s. r = Done m s
      else suspends (\<lambda>s. state_of s me = ns \<and> p_u (thd s me) = msk) r)"

lemma evt_sleep_suspends:
  assumes K: "kinvU s" and me: "me = currp s" and ni: "me \<noteq> idle_thread s"
    and ns: "ns \<in> {THD_STATE_WTOREVT, THD_STATE_WTANDEVT}"
  shows "suspends (\<lambda>s. state_of s me = ns \<and> p_u (thd s me) = msk) (chSchGoSleepS ns (upd_thd me (\<lambda>t. t\<lparr>p_u := msk\<rparr>) s))"
    and "time \<noteq> TIME_IMMEDIATE \<Longrightarrow> suspends (\<lambda>s. state_of s me = ns \<and> p_u (thd s me) = msk)
      (chSchGoSleepTimeoutS ns time (upd_thd me (\<lambda>t. t\<lparr>p_u := msk\<rparr>) s))"
proof -
  have L: "kinvL s" using K by (simp add: kinvU_L)
  note p = evt_park [OF L me ns, of msk]
  show "suspends (\<lambda>s. state_of s me = ns \<and> p_u (thd s me) = msk) (chSchGoSleepS ns (upd_thd me (\<lambda>t. t\<lparr>p_u := msk\<rparr>) s))"
    by (rule suspends_mono [OF goSleep_suspends [OF L me ni p]]) (simp add: left_as_def)
  assume tm: "time \<noteq> TIME_IMMEDIATE"
  have "timed ns" using ns by (auto simp: timed_def)
  from suspends_mono [OF goSleepTimeout_suspends [OF L me ni p tm this]]
  show "suspends (\<lambda>s. state_of s me = ns \<and> p_u (thd s me) = msk)
      (chSchGoSleepTimeoutS ns time (upd_thd me (\<lambda>t. t\<lparr>p_u := msk\<rparr>) s))"
    by (simp add: left_as_def)
qed

lemma evt_wait_blocks:
  assumes K: "kinvU s" and me: "me = currp s" and ni: "me \<noteq> idle_thread s" and p: "p = p_epending (thd s me)"
  shows "evt_blocks me THD_STATE_WTOREVT msk (p AND msk \<noteq> 0) (chEvtWaitOne msk s)"
    and "evt_blocks me THD_STATE_WTOREVT msk (p AND msk \<noteq> 0) (chEvtWaitAny msk s)"
    and "evt_blocks me THD_STATE_WTANDEVT msk (p AND msk = msk) (chEvtWaitAll msk s)"
    and "evt_blocks me THD_STATE_WTOREVT msk (p AND msk \<noteq> 0 \<or> time = TIME_IMMEDIATE) (chEvtWaitOneTimeout msk time s)"
    and "evt_blocks me THD_STATE_WTOREVT msk (p AND msk \<noteq> 0 \<or> time = TIME_IMMEDIATE) (chEvtWaitAnyTimeout msk time s)"
    and "evt_blocks me THD_STATE_WTANDEVT msk (p AND msk = msk \<or> time = TIME_IMMEDIATE) (chEvtWaitAllTimeout msk time s)"
  using evt_sleep_suspends(1) [OF K me ni, of _ msk] evt_sleep_suspends(2) [OF K me ni, of _ time msk]
  unfolding evt_blocks_def p
  by (auto simp: chEvtWaitOne_def chEvtWaitAny_def chEvtWaitAll_def chEvtWaitOneTimeout_def chEvtWaitAnyTimeout_def
      chEvtWaitAllTimeout_def Let_def me [symmetric] simp del: upd_thd_def)

section \<open>Properties\<close>

lemma signal_fields:
  "evl (chEvtSignalI tp msk s) = evl s"
  "p_epending (thd (chEvtSignalI tp msk s) x) =
     (if x = tp then p_epending (thd s x) OR msk else p_epending (thd s x))"
  "x \<noteq> tp \<Longrightarrow> thd (chEvtSignalI tp msk s) x = thd s x"
  by (auto simp: chEvtSignalI_def ready_with_def Let_def)

lemma and_sub_trans: "(a :: eventmask_t) AND b = a \<Longrightarrow> b AND c = b \<Longrightarrow> a AND c = a"
  by (metis and.assoc)

lemma broadcast_keeps_pending:
  "p_epending (thd s x) AND p_epending (thd (evt_notify flags elps s) x) = p_epending (thd s x)"
proof (induction elps arbitrary: s)
  case (Cons elp elps)
  let ?s1 = "upd_evl elp (\<lambda>x. x\<lparr>el_flags := el_flags x OR flags\<rparr>) s"
  let ?s2 = "chEvtSignalI (el_listener (evl ?s1 elp)) (el_mask (evl ?s1 elp)) ?s1"
  have "p_epending (thd s x) AND p_epending (thd ?s2 x) = p_epending (thd s x)"
    by (auto simp: signal_fields or_mono_bits)
  from and_sub_trans [OF this Cons [of ?s2]] show ?case by (simp add: Let_def)
qed simp

lemma notify_links: "el_next (evt_notify flags elps s) = el_next s"
  by (induction elps arbitrary: s) (simp_all add: Let_def)

lemma broadcast_listeners:
  "evl (evt_notify flags elps s) elp =
     (if elp \<in> set elps then (evl s elp)\<lparr>el_flags := el_flags (evl s elp) OR flags\<rparr> else evl s elp)"
  by (induction elps arbitrary: s) (auto simp: Let_def signal_fields or.assoc)

lemma broadcast_pending:
  "elp \<in> set elps \<Longrightarrow>
   el_mask (evl s elp) AND p_epending (thd (evt_notify flags elps s) (el_listener (evl s elp))) = el_mask (evl s elp)"
proof (induction elps arbitrary: s)
  case (Cons e elps)
  let ?s1 = "upd_evl e (\<lambda>x. x\<lparr>el_flags := el_flags x OR flags\<rparr>) s"
  let ?s2 = "chEvtSignalI (el_listener (evl ?s1 e)) (el_mask (evl ?s1 e)) ?s1"
  have f: "el_mask (evl ?s2 elp) = el_mask (evl s elp)" "el_listener (evl ?s2 elp) = el_listener (evl s elp)"
    by (auto simp: signal_fields)
  show ?case
  proof (cases "elp \<in> set elps")
    case True
    then show ?thesis using Cons.IH [of ?s2] f by (simp add: Let_def)
  next
    case False
    then have e: "e = elp" using Cons.prems by simp
    let ?p = "p_epending (thd ?s2 (el_listener (evl s elp)))"
    have "el_mask (evl s elp) AND ?p = el_mask (evl s elp)"
      by (rule bit_eqI) (auto simp: e signal_fields bit_simps)
    from and_sub_trans [OF this broadcast_keeps_pending] show ?thesis by (simp add: Let_def e)
  qed
qed simp



text \<open>
  C16: registering a listener on a source, broadcasting and unregistering.  When the listener is
  not yet registered there, it becomes the first of the list; the broadcast that follows ends, adds its
  flags to the listener and the listener's mask to the pending events of the
  thread that registered it, touches no listener of another source, takes no pending event
  away and keeps the kernel invariant; unregistering ends and restores the list of listeners and
  every link but the one of the listener itself.  When it is registered there already, the next
  broadcast never ends.  Unregistering any listener, registered or not, ends with the list
  without it.
\<close>

theorem event_listener_roundtrip:
  assumes K: "kinv s" and L: "listens s esp xs" and ne: "elp \<noteq> esp" and s1: "s1 = chEvtRegisterMask esp elp msk s"
  shows "(if elp \<in> set xs then chEvtBroadcastFlagsI esp flags s1 = None
     else listens s1 esp (elp # xs) \<and>
       (\<exists>s2. chEvtBroadcastFlagsI esp flags s1 = Some s2 \<and> iclass s s2 \<and> listens s2 esp (elp # xs) \<and>
          el_flags (evl s2 elp) = flags \<and> p_epending (thd s2 (currp s)) AND msk = msk \<and>
          (\<forall>e. e \<notin> insert elp (set xs) \<longrightarrow> evl s2 e = evl s e) \<and>
          (\<forall>t. p_epending (thd s t) AND p_epending (thd s2 t) = p_epending (thd s t))) \<and>
       (\<exists>s3. chEvtUnregister esp elp s1 = Some s3 \<and> listens s3 esp xs \<and>
          (\<forall>p. p \<noteq> elp \<longrightarrow> el_next s3 p = el_next s p))) \<and>
    (\<exists>s4. chEvtUnregister esp elp s = Some s4 \<and> listens s4 esp (remove1 elp xs))"
proof (cases "elp \<in> set xs")
  case True
  then show ?thesis using register_twice [OF L True] unregister_listens [OF L, of elp] s1 by auto
next
  case False
  let ?s2 = "evt_notify flags (elp # xs) s1"
  have L1: "listens s1 esp (elp # xs)" unfolding s1 by (rule register_listens [OF L False ne])
  have b: "chEvtBroadcastFlagsI esp flags s1 = Some ?s2" by (rule broadcast_notify [OF L1])
  have q: "queue_of s1 r = queue_of s r" for r by (cases r) (auto simp: s1 chEvtRegisterMask_def Let_def)
  have "same_core s s1" using q by (auto simp: same_core_def s1 chEvtRegisterMask_def Let_def)
  moreover have "sems_ok s1" using K by (simp add: kinv_def kinv0_def sems_ok_def s1 chEvtRegisterMask_def Let_def)
  ultimately have i1: "iclass s s1" using iclass_same_core [OF K] by (simp add: s1 chEvtRegisterMask_def Let_def)
  then have "iclass s1 ?s2" by (intro evt_notify_iclass) (simp add: iclass_def)
  then have i: "iclass s ?s2" by (rule iclass_trans [OF i1])
  have e: "el_flags (evl s1 elp) = 0" "el_mask (evl s1 elp) = msk"
      "el_listener (evl s1 elp) = currp s" "thd s1 = thd s" "x \<noteq> elp \<Longrightarrow> evl s1 x = evl s x" for x
    by (simp_all add: s1 chEvtRegisterMask_def Let_def)
  have p: "p_epending (thd ?s2 (currp s)) AND msk = msk"
    using broadcast_pending [of elp "elp # xs" s1 flags] e by (simp add: and.commute del: evt_notify.simps)
  have fl: "el_flags (evl ?s2 elp) = flags" "x \<notin> insert elp (set xs) \<Longrightarrow> evl ?s2 x = evl s x" for x
    using e by (simp_all add: broadcast_listeners del: evt_notify.simps)
  have k: "p_epending (thd s t) AND p_epending (thd ?s2 t) = p_epending (thd s t)" for t
    using broadcast_keeps_pending [of s1 t flags "elp # xs"] e(4) by (simp del: evt_notify.simps)
  have L2: "listens ?s2 esp (elp # xs)" using L1 by (simp add: listens_def notify_links del: evt_notify.simps)
  obtain s3 where s3: "chEvtUnregister esp elp s1 = Some s3" "listens s3 esp xs"
    using unregister_listens [OF L1, of elp] by auto
  have "el_next s3 p = el_next s p" if "p \<noteq> elp" for p
    using s3(1) that ne by (auto simp: chEvtUnregister_def s1 chEvtRegisterMask_def Let_def evt_unlink.simps)
  then show ?thesis
    using False L1 b i L2 p fl k s3 unregister_listens [OF L, of elp] by (auto simp del: evt_notify.simps)
qed

theorem event_listener_roundtrip_witness:
  "listens sample 900 [] \<and>
   (\<exists>s2. chEvtBroadcastFlagsI 900 3 (chEvtRegisterMask 900 904 4 sample) = Some s2 \<and> el_flags (evl s2 904) = 3)"
proof -
  have "listens sample 900 []" by (simp add: listens_def)
  then show ?thesis
    using event_listener_roundtrip [OF sample_kinv, of 900 "[]" 904 _ 4 3] by auto
qed

text \<open>
  Dispatching always returns, after at most 32 rounds, and calls exactly the handlers of the
  events in the mask, each once, in increasing order.
\<close>

theorem event_dispatch_total:
  "chEvtDispatch handlers msk a = Some (fold handlers (filter (bit msk) [0..<32]) a)"
  unfolding chEvtDispatch_def by (rule evt_dispatch_loop_eq) simp

end
