(* ===== verification/Messages.thy ===== *)
theory Messages
  imports Events
begin

text \<open>
  Synchronous messages (\<^verbatim>\<open>os/kernel/src/chmsg.c\<close>, \<^verbatim>\<open>os/kernel/include/chmsg.h\<close>).  A sender
  sleeps in the message queue of the receiver until the receiver releases it.
\<close>

section \<open>Operations\<close>

definition msg_insert :: "addr \<Rightarrow> addr \<Rightarrow> kstate \<Rightarrow> kstate" where
  "msg_insert ctp tp s = upd_thd tp (\<lambda>t. t\<lparr>p_msgqueue := p_msgqueue t @ [ctp]\<rparr>) s"

definition chMsgIsPendingI :: "addr \<Rightarrow> kstate \<Rightarrow> bool" where
  "chMsgIsPendingI tp s \<longleftrightarrow> p_msgqueue (thd s tp) \<noteq> []"

definition chMsgGet :: "addr \<Rightarrow> kstate \<Rightarrow> msg_t" where
  "chMsgGet tp s = p_msg (thd s tp)"

definition chMsgSend :: "addr \<Rightarrow> msg_t \<Rightarrow> kstate \<Rightarrow> msg_t run" where
  "chMsgSend tp msg s =
     (let ctp = currp s;
          s1 = upd_thd ctp (\<lambda>t. t\<lparr>p_msg := msg\<rparr>) s;
          s2 = upd_thd ctp (\<lambda>t. t\<lparr>p_u := p_msgqueue_addr tp\<rparr>) s1;
          s3 = msg_insert ctp tp s2;
          s4 = (if state_of s3 tp = THD_STATE_WTMSG then chSchReadyI tp s3 else s3)
      in rbind (chSchGoSleepS THD_STATE_SNDMSGQ s4) (\<lambda>_ s5. Done (p_u (thd s5 ctp)) s5))"

definition msg_fifo_remove :: "addr \<Rightarrow> kstate \<Rightarrow> addr \<times> kstate" where
  "msg_fifo_remove rcv s =
     (let (tp, q) = fifo_take (p_msgqueue_addr rcv) (p_msgqueue (thd s rcv))
      in (tp, upd_thd rcv (\<lambda>t. t\<lparr>p_msgqueue := q\<rparr>) s))"

definition chMsgWait :: "kstate \<Rightarrow> addr run" where
  "chMsgWait s =
     rbind (if \<not> chMsgIsPendingI (currp s) s then chSchGoSleepS THD_STATE_WTMSG s else Done () s)
       (\<lambda>_ s1. let (tp, s2) = msg_fifo_remove (currp s1) s1
               in Done tp (upd_thd tp (\<lambda>t. t\<lparr>p_state := THD_STATE_SNDMSG\<rparr>) s2))"

definition chMsgReleaseS :: "addr \<Rightarrow> msg_t \<Rightarrow> kstate \<Rightarrow> unit run" where
  "chMsgReleaseS tp msg s = chSchWakeupS tp msg s"

definition chMsgRelease :: "addr \<Rightarrow> msg_t \<Rightarrow> kstate \<Rightarrow> unit run" where
  "chMsgRelease tp msg s = chMsgReleaseS tp msg s"

section \<open>Sending\<close>

lemma ready_sleeping_commute:
  assumes "t \<noteq> me" shows "sleeping ns me (chSchReadyI t s) = chSchReadyI t (sleeping ns me s)"
proof -
  have "prio (sleeping ns me s) = prio s" by auto
  then show ?thesis unfolding chSchReadyI_at using assms
    by (auto simp: sleeping_def ready_at_def intro!: kstate.equality)
qed

text \<open>The state in which the sender gives up the processor, but for the choice of the next thread.\<close>

lemma msg_send_sleeps:
  assumes K: "kinvL s" and me: "me = currp s" and tp: "tp \<noteq> me"
    and s3: "s3 = msg_insert me tp (upd_thd me (\<lambda>t. t\<lparr>p_msg := msg, p_u := p_msgqueue_addr tp\<rparr>) s)"
    and s4: "s4 = (if state_of s tp = THD_STATE_WTMSG then chSchReadyI tp s3 else s3)"
  shows "kinv0 (sleeping THD_STATE_SNDMSGQ me s4)"
    and "x \<noteq> me \<Longrightarrow> rely x s (sleeping THD_STATE_SNDMSGQ me s4) \<and>
      state_of (sleeping THD_STATE_SNDMSGQ me s4) x \<noteq> THD_STATE_CURRENT"
    and "thd (sleeping THD_STATE_SNDMSGQ me s4) me =
      (thd s me)\<lparr>p_msg := msg, p_u := p_msgqueue_addr tp, p_state := THD_STATE_SNDMSGQ, p_preempt := CH_TIME_QUANTUM\<rparr>"
proof -
  have K': "kinv s" and k: "kinv0 s" "places s" "sems_ok s" "timers_ok s" and un: "\<not> chVTIsArmedI (OnStack me) s"
    using K me by (simp_all add: kinvL_def kinv_def kinv0_def)
  have cs: "state_of s me = THD_STATE_CURRENT" using cur_state [OF K'] me by simp
  then have nq: "me \<notin> set (queue_of s r)" for r
    by (intro places_unqueued [OF k(2)]) (simp add: place_ok_def)
  have q: "queue_of s3 r = (if r = PMsg tp then p_msgqueue (thd s tp) @ [me] else queue_of s r)" for r
    using tp by (cases r) (auto simp: s3 msg_insert_def)
  have th: "thd s3 x = (if x = tp then (thd s tp)\<lparr>p_msgqueue := p_msgqueue (thd s tp) @ [me]\<rparr>
      else if x = me then (thd s me)\<lparr>p_msg := msg, p_u := p_msgqueue_addr tp\<rparr> else thd s x)" for x
    using tp by (simp add: s3 msg_insert_def)
  have g: "sem s3 = sem s" "mtx s3 = mtx s" "vts s3 = vts s" "vtlist s3 = vtlist s" "currp s3 = currp s"
      "idle_thread s3 = idle_thread s" by (simp_all add: s3 msg_insert_def)
  have at: "attached me (PMsg tp) s s3"
    unfolding attached_def using q nq [of "PMsg tp"] places_distinct [OF k(2), of "PMsg tp"] th g tp by auto
  let ?A = "sleeping THD_STATE_SNDMSGQ me s3"
  have tm: "timers_ok ?A"
    by (rule timers_ok_frame [OF k(4)]) (use g un th tp in \<open>auto split: if_splits\<close>)
  have A: "kinv0 ?A"
    by (rule kinv0_sleep [OF k(1) at cs]) (use th tp k(3) g tm in \<open>auto simp: place_ok_def sems_ok_def\<close>)
  have e: "sleeping THD_STATE_SNDMSGQ me s4 = (if state_of s tp = THD_STATE_WTMSG then chSchReadyI tp ?A else ?A)"
    using tp by (simp add: s4 ready_sleeping_commute)
  have L: "limbo tp ?A" if "state_of s tp = THD_STATE_WTMSG"
    by (rule limbo_unqueued [OF A]) (use that th tp in \<open>simp add: place_ok_def\<close>)
  then show "kinv0 (sleeping THD_STATE_SNDMSGQ me s4)"
    unfolding e using A kinv0_ready [OF L] th tp by auto
  show "thd (sleeping THD_STATE_SNDMSGQ me s4) me =
      (thd s me)\<lparr>p_msg := msg, p_u := p_msgqueue_addr tp, p_state := THD_STATE_SNDMSGQ, p_preempt := CH_TIME_QUANTUM\<rparr>"
    unfolding e using th tp by simp
  assume x: "x \<noteq> me"
  have "state_of s x \<noteq> THD_STATE_CURRENT" using x K' me by (simp add: kinv_def cur_ok_def)
  then have "state_of (sleeping THD_STATE_SNDMSGQ me s4) x \<noteq> THD_STATE_CURRENT"
    unfolding e using x th by auto
  moreover have "rely x s (sleeping THD_STATE_SNDMSGQ me s4)"
  proof (cases "x = tp \<and> state_of s tp = THD_STATE_WTMSG")
    case True
    then show ?thesis unfolding e
      by (intro rely_ready) (use True th tp g in \<open>auto simp: chVTIsArmedI_def\<close>)
  next
    case False
    then show ?thesis unfolding e
      by (intro rely_frame) (use x th tp g in \<open>auto simp: chVTIsArmedI_def\<close>)
  qed
  ultimately show "rely x s (sleeping THD_STATE_SNDMSGQ me s4) \<and>
      state_of (sleeping THD_STATE_SNDMSGQ me s4) x \<noteq> THD_STATE_CURRENT" by simp
qed

lemma chMsgSend_eq:
  assumes "me = currp s"
    and "s3 = msg_insert me tp (upd_thd me (\<lambda>t. t\<lparr>p_msg := msg, p_u := p_msgqueue_addr tp\<rparr>) s)"
    and "s4 = (if state_of s tp = THD_STATE_WTMSG then chSchReadyI tp s3 else s3)"
  shows "chMsgSend tp msg s = Switch (pick_next (sleeping THD_STATE_SNDMSGQ me s4)) (\<lambda>s5. Done (p_u (thd s5 me)) s5)"
proof -
  have "state_of s3 tp = state_of s tp" "currp s4 = me" using assms by (simp_all add: msg_insert_def)
  moreover have "chMsgSend tp msg s = rbind (chSchGoSleepS THD_STATE_SNDMSGQ
      (if state_of s3 tp = THD_STATE_WTMSG then chSchReadyI tp s3 else s3)) (\<lambda>_ s5. Done (p_u (thd s5 me)) s5)"
    using assms by (simp add: chMsgSend_def Let_def)
  ultimately show ?thesis using assms(3) by (simp add: chSchGoSleepS_eq)
qed

lemma chMsgSend_blocks:
  assumes K: "kinvL s" and me: "me = currp s" and ni: "me \<noteq> idle_thread s" and tp: "tp \<noteq> me"
  obtains n where "chMsgSend tp msg s = Switch n (\<lambda>s5. Done (p_u (thd s5 me)) s5)" and "kinvS n" and "guar me s n"
    and "thd n me = (thd s me)\<lparr>p_msg := msg, p_u := p_msgqueue_addr tp, p_state := THD_STATE_SNDMSGQ, p_preempt := CH_TIME_QUANTUM\<rparr>"
    and "\<not> chVTIsArmedI (OnStack me) n" and "idle_thread n = idle_thread s"
    and "p_msgqueue (thd n tp) = p_msgqueue (thd s tp) @ [me]"
    and "state_of s tp = THD_STATE_WTMSG \<Longrightarrow> runnable (state_of n tp)"
proof -
  define s3 where "s3 = msg_insert me tp (upd_thd me (\<lambda>t. t\<lparr>p_msg := msg, p_u := p_msgqueue_addr tp\<rparr>) s)"
  define s4 where "s4 = (if state_of s tp = THD_STATE_WTMSG then chSchReadyI tp s3 else s3)"
  define z where "z = sleeping THD_STATE_SNDMSGQ me s4"
  have K': "kinv s" and un: "\<not> chVTIsArmedI (OnStack me) s" using K me by (simp_all add: kinvL_def)
  note m = msg_send_sleeps [OF K me tp s3_def s4_def, folded z_def]
  have g: "vts z = vts s" "vtlist z = vtlist s" "idle_thread z = idle_thread s"
    by (simp_all add: z_def s4_def s3_def msg_insert_def)
  have pos: "vt_pos z" using K' g by (simp add: kinv_def vt_pos_hd)
  have st: "\<not> runnable (state_of z me)" using m(3) by simp
  note n = next_ok [OF K' me ni m(1) st pos m(2) g(3)]
  have n': "kinvS (pick_next z)" "guar me s (pick_next z)" "thd (pick_next z) me = thd z me"
      "vts (pick_next z) = vts z" "idle_thread (pick_next z) = idle_thread s"
    by (rule n; assumption)+
  have q: "p_msgqueue (thd (pick_next z) x) = p_msgqueue (thd z x)" for x
    by (auto simp: pick_next_def split: prod.split)
  have "p_msgqueue (thd z tp) = p_msgqueue (thd s tp) @ [me]"
    using tp by (simp add: z_def s4_def s3_def msg_insert_def)
  moreover have "runnable (state_of (pick_next z) tp)" if "state_of s tp = THD_STATE_WTMSG"
  proof -
    have "state_of z tp = THD_STATE_READY" using that tp by (simp add: z_def s4_def)
    then show ?thesis by (auto simp: pick_next_def split: prod.split)
  qed
  ultimately show thesis
    using that [OF chMsgSend_eq [OF me s3_def s4_def, folded z_def] n'(1,2)] n'(3-5) m(3) q un g
    by (simp add: chVTIsArmedI_def)
qed

lemma chMsgSend_safe:
  assumes K: "kinvL s" and me: "me = currp s" and ni: "me \<noteq> idle_thread s" and tp: "tp \<noteq> me"
  shows "safe me (\<lambda>_ s'. returned me s s') s (chMsgSend tp msg s)"
proof -
  obtain n where n: "chMsgSend tp msg s = Switch n (\<lambda>s5. Done (p_u (thd s5 me)) s5)" "kinvS n" "guar me s n"
      "thd n me = (thd s me)\<lparr>p_msg := msg, p_u := p_msgqueue_addr tp, p_state := THD_STATE_SNDMSGQ, p_preempt := CH_TIME_QUANTUM\<rparr>"
      "\<not> chVTIsArmedI (OnStack me) n" "idle_thread n = idle_thread s"
    by (rule chMsgSend_blocks [OF assms])
  show ?thesis unfolding n(1)
  proof (rule safe_Switch [OF n(3,2)])
    fix s' assume s': "kinvS s'" "currp s' = me" "rely me n s'"
    have "kinvU s'" using kinvS_rely_U [OF s'(1), of n] s' n by simp
    moreover have "kept me n s'" using s'(3) n(4) by (intro rely_kept) auto
    then have "kept me s s'" using n(4,6) by (simp add: kept_def)
    ultimately show "safe me (\<lambda>_ s'. returned me s s') s' (Done (p_u (thd s' me)) s')"
      using s'(2) by (intro safe_Done) (auto simp: returned_def)
  qed
qed

section \<open>Receiving\<close>

lemma msg_sender_state:
  "places s \<Longrightarrow> t \<in> set (p_msgqueue (thd s r)) \<Longrightarrow> state_of s t = THD_STATE_SNDMSGQ"
  using places_at [of s t "PMsg r"] by (auto simp: place_ok_def split: tstate.splits)

text \<open>The first sender is taken from the queue and waits for its release.\<close>

definition msg_take :: "addr \<Rightarrow> addr \<Rightarrow> addr list \<Rightarrow> kstate \<Rightarrow> kstate" where
  "msg_take me tp q s = upd_thd tp (\<lambda>t. t\<lparr>p_state := THD_STATE_SNDMSG\<rparr>) (upd_thd me (\<lambda>t. t\<lparr>p_msgqueue := q\<rparr>) s)"

lemma msg_take_keeps:
  assumes K: "kinvU s" and me: "me = currp s" and q: "p_msgqueue (thd s me) = tp # q"
  shows "kinvU (msg_take me tp q s)" "guar me s (msg_take me tp q s)" "tp \<noteq> me"
proof -
  let ?s = "msg_take me tp q s"
  have K': "kinv s" and k: "kinv0 s" "places s" "ordered s" "sems_ok s" "timers_ok s"
    using K by (simp_all add: kinvU_def kinv_def kinv0_def)
  have st: "state_of s tp = THD_STATE_SNDMSGQ" using msg_sender_state [OF k(2), of tp me] q by simp
  then show ne: "tp \<noteq> me" using cur_state [OF K'] me by auto
  have qs: "queue_of ?s r = (if r = PMsg me then q else queue_of s r)" for r
    using ne by (cases r) (auto simp: msg_take_def)
  have un: "tp \<notin> set (queue_of s r)" if "r \<noteq> PMsg me" for r
    using places_unique [OF k(2), of tp r "PMsg me"] q that by auto
  have d: "distinct (tp # q)" using places_distinct [OF k(2), of "PMsg me"] q by simp
  have f: "p_state (thd ?s x) = (if x = tp then THD_STATE_SNDMSG else state_of s x)" "p_u (thd ?s x) = p_u (thd s x)"
      "prio ?s x = prio s x" "p_realprio (thd ?s x) = p_realprio (thd s x)" "p_mtxlist (thd ?s x) = p_mtxlist (thd s x)"
      "p_waiting (thd ?s x) = p_waiting (thd s x)" "p_epending (thd ?s x) = p_epending (thd s x)"
      "x \<noteq> me \<Longrightarrow> p_msgqueue (thd ?s x) = p_msgqueue (thd s x)"
      "sem ?s = sem s" "mtx ?s = mtx s" "vts ?s = vts s" "vtlist ?s = vtlist s" "r_queue ?s = r_queue s"
      "currp ?s = currp s" "idle_thread ?s = idle_thread s" for x
    using ne by (auto simp: msg_take_def)
  have unarmed: "\<not> chVTIsArmedI (OnStack tp) s"
    using k(5) st by (auto simp: timers_ok_def timed_def)
  have "timers_ok ?s"
    by (rule timers_ok_frame [OF k(5)]) (use unarmed in \<open>auto simp: f\<close>)
  then have "kinv0 ?s"
  proof (rule kinv0_move [OF k(1), where t = tp and p' = PNone, rotated -1])
    show "distinct (queue_of ?s r) \<and> set (queue_of ?s r) - {tp} = set (queue_of s r) - {tp} \<and>
        (tp \<in> set (queue_of ?s r) \<longleftrightarrow> r = PNone \<and> r \<noteq> PNone)" for r
      using qs [of r] d q un [of r] places_distinct [OF k(2), of r] by (cases "r = PMsg me") auto
    show "desc (prio s) (queue_of ?s p)" if "prio_queue p" for p
      using qs [of p] that k(3) by (auto simp: ordered_def)
  qed (use st k(1,4) in \<open>auto simp: f place_ok_def sems_ok_def kinv0_def live_def split: if_splits\<close>)
  moreover have "cur_ok s" "idle_ok s" "vt_pos s" using K' by (simp_all add: kinv_def)
  have "cur_ok ?s" using \<open>cur_ok s\<close> st ne [unfolded me] by (simp add: cur_ok_def f)
  moreover have "idle_ok ?s" using \<open>idle_ok s\<close> st by (cases "idle_thread s = tp") (simp_all add: idle_ok_def f)
  moreover have "vt_pos ?s" using \<open>vt_pos s\<close> by (simp add: vt_pos_hd f)
  ultimately have "kinv ?s" by (simp add: kinv_def)
  then show "kinvU ?s" using K by (simp add: kinvU_def prio_ok_def chVTIsArmedI_def f)
  show "guar me s ?s" unfolding guar_def
  proof (intro allI impI)
    fix x assume x: "x \<noteq> me"
    show "rely x s ?s"
    proof (cases "x = tp")
      case True
      then show ?thesis using st x
        by (simp add: rely_def run_rely_def mtx_rely_def msg_rely_def wait_rely_def evt_rely_def chVTIsArmedI_def f)
    next
      case False
      show ?thesis by (rule rely_frame) (use False x in \<open>simp_all add: f chVTIsArmedI_def\<close>)
    qed
  qed
qed

text \<open>
  The receiver goes on with the sender that was first in its queue; messages keep their order.
\<close>

definition msg_received :: "addr \<Rightarrow> addr \<Rightarrow> kstate \<Rightarrow> kstate \<Rightarrow> bool" where
  "msg_received me tp s s' \<longleftrightarrow> kinvU s' \<and> currp s' = me \<and> state_of s' tp = THD_STATE_SNDMSG \<and>
     p_mtxlist (thd s' me) = p_mtxlist (thd s me) \<and> p_realprio (thd s' me) = p_realprio (thd s me) \<and>
     (\<exists>ys. p_msgqueue (thd s me) @ ys = tp # p_msgqueue (thd s' me)) \<and>
     p_epending (thd s me) AND p_epending (thd s' me) = p_epending (thd s me) \<and> idle_thread s' = idle_thread s"

lemma msg_wait_park:
  assumes "kinvL s" and "me = currp s" shows "parked THD_STATE_WTMSG me PNone s s"
  using assms by (auto simp: parked_def attached_def place_ok_def kinvL_def kinv_def kinv0_def)

lemma chMsgWait_safe:
  assumes K: "kinvU s" and me: "me = currp s" and ni: "me \<noteq> idle_thread s"
  shows "safe me (\<lambda>tp s'. msg_received me tp s s') s (chMsgWait s)"
proof -
  have L: "kinvL s" using K by (simp add: kinvU_L)
  have "safe me (\<lambda>_ s'. returned me s s' \<and> p_msgqueue (thd s' me) \<noteq> []) s
      (if \<not> chMsgIsPendingI me s then chSchGoSleepS THD_STATE_WTMSG s else Done () s)"
  proof (cases "chMsgIsPendingI me s")
    case True
    then show ?thesis using returned_refl [OF K me] by (auto simp: chMsgIsPendingI_def intro!: safe_Done)
  next
    case False
    have "safe me (\<lambda>_ s'. returned me s s' \<and> p_msgqueue (thd s' me) \<noteq> []) s (chSchGoSleepS THD_STATE_WTMSG s)"
    proof (rule safe_mono [OF goSleep_returned [OF L me ni msg_wait_park [OF L me]]])
      fix s' assume s': "returned me s s' \<and> rely me (sleeping THD_STATE_WTMSG me s) s'"
      then have "state_of s' me = THD_STATE_CURRENT" using cur_state [of s'] by (auto simp: returned_def kinvU_def)
      then show "returned me s s' \<and> p_msgqueue (thd s' me) \<noteq> []"
        using s' by (auto simp: rely_def msg_rely_def)
    qed auto
    then show ?thesis using False by simp
  qed
  then show ?thesis unfolding chMsgWait_def me [symmetric]
  proof (rule safe_bind)
    fix a :: unit and s1 assume s1: "returned me s s1 \<and> p_msgqueue (thd s1 me) \<noteq> []"
    then obtain tp q where q: "p_msgqueue (thd s1 me) = tp # q" by (cases "p_msgqueue (thd s1 me)") auto
    have r: "kinvU s1" "me = currp s1" "kept me s s1" using s1 by (auto simp: returned_def)
    note t = msg_take_keeps [OF r(1,2) q]
    have "msg_received me tp s (msg_take me tp q s1)"
      using t(1,3) r q unfolding msg_received_def kept_def by (auto simp: msg_take_def)
    moreover have "(let (tp, s2) = msg_fifo_remove (currp s1) s1
        in Done tp (upd_thd tp (\<lambda>t. t\<lparr>p_state := THD_STATE_SNDMSG\<rparr>) s2)) = Done tp (msg_take me tp q s1)"
      using q r(2) by (simp add: msg_fifo_remove_def msg_take_def)
    ultimately show "safe me (\<lambda>tp s'. msg_received me tp s s') s1 (let (tp, s2) = msg_fifo_remove (currp s1) s1
        in Done tp (upd_thd tp (\<lambda>t. t\<lparr>p_state := THD_STATE_SNDMSG\<rparr>) s2))"
      using t(2) by (auto intro: safe_Done)
  qed
qed

section \<open>Releasing\<close>

lemma chMsgRelease_safe:
  assumes K: "kinvU s" and me: "me = currp s" and st: "state_of s tp = THD_STATE_SNDMSG"
  shows "safe me (\<lambda>_ s'. returned me s s') s (chMsgRelease tp msg s)"
proof -
  have K': "kinv s" and P: "places s" "sems_ok s" using K by (simp_all add: kinvU_def kinv_def kinv0_def)
  have "detached tp s s" by (rule detached_unqueued [OF P(1)]) (use st in \<open>auto simp: place_ok_def\<close>)
  then have "safe me (returns me s) s (chSchWakeupS tp msg s)"
    using chSchWakeupS_detached [OF K me _ P(2), of tp msg] st by simp
  from safe_returned [OF this] show ?thesis
    using cur_state [OF K'] me by (simp add: chMsgRelease_def chMsgReleaseS_def)
qed

section \<open>Properties\<close>

lemma chSchWakeupS_at:
  assumes "tp \<noteq> currp s"
  shows "runnable (state_of (at (chSchWakeupS tp msg s)) tp)" "p_u (thd (at (chSchWakeupS tp msg s)) tp) = msg"
  using assms by (auto simp: chSchWakeupS_def chSysSwitch_def Let_def)

text \<open>
  C17: sending and receiving.  Each call keeps the kernel invariant wherever the caller gives up
  the processor and does to other threads only what they expect.  A receiver returns with the
  sender that was first in its queue, in the state that waits for the release, and leaves the
  other senders in their order; releasing a received sender returns with the caller running,
  of the highest priority among the runnable threads.
\<close>

theorem msg_passing_contract:
  assumes K: "kinvU s" and me: "me = currp s" and ni: "me \<noteq> idle_thread s" and tp: "tp \<noteq> me"
  shows "safe me (\<lambda>_ s'. returned me s s') s (chMsgSend tp msg s) \<and>
    safe me (\<lambda>snd s'. msg_received me snd s s') s (chMsgWait s) \<and>
    (state_of s tp = THD_STATE_SNDMSG \<longrightarrow> safe me (\<lambda>_ s'. returned me s s') s (chMsgRelease tp msg s))"
  using chMsgSend_safe [OF _ me ni tp] chMsgWait_safe [OF K me ni] chMsgRelease_safe [OF K me] K
  by (simp add: kinvU_L)

theorem msg_passing_contract_witness:
  "safe 4096 (\<lambda>_ s'. returned 4096 sample s') sample (chMsgSend 20480 7 sample) \<and>
   safe 4096 (\<lambda>snd s'. msg_received 4096 snd sample s') sample (chMsgWait sample)"
  using msg_passing_contract [OF sample_kinvU, of 4096 20480 7] by simp

text \<open>
  C18: a message and its reply.  A sender gives up the processor at the end of the receiver's
  queue, with its message to be read, and a receiver that was waiting can run.  Whatever reply
  the receiver later releases it with is what the sending call returns, as soon as the sender
  runs again.
\<close>

theorem msg_reply_roundtrip:
  assumes K: "kinvU s" and me: "me = currp s" and ni: "me \<noteq> idle_thread s" and tp: "tp \<noteq> me"
  shows "\<exists>n k. chMsgSend tp msg s = Switch n k \<and> p_msgqueue (thd n tp) = p_msgqueue (thd s tp) @ [me] \<and>
    chMsgGet me n = msg \<and> (state_of s tp = THD_STATE_WTMSG \<longrightarrow> runnable (state_of n tp)) \<and>
    (\<forall>s1 reply s'. me \<noteq> currp s1 \<longrightarrow> rely me (at (chMsgRelease me reply s1)) s' \<longrightarrow> k s' = Done reply s')"
proof -
  have L: "kinvL s" using K by (simp add: kinvU_L)
  obtain n where n: "chMsgSend tp msg s = Switch n (\<lambda>s5. Done (p_u (thd s5 me)) s5)"
      "thd n me = (thd s me)\<lparr>p_msg := msg, p_u := p_msgqueue_addr tp, p_state := THD_STATE_SNDMSGQ, p_preempt := CH_TIME_QUANTUM\<rparr>"
      "p_msgqueue (thd n tp) = p_msgqueue (thd s tp) @ [me]"
      "state_of s tp = THD_STATE_WTMSG \<Longrightarrow> runnable (state_of n tp)"
    by (rule chMsgSend_blocks [OF L me ni tp]) blast
  have "p_u (thd s' me) = reply" if "me \<noteq> currp s1" and "rely me (at (chMsgRelease me reply s1)) s'" for s1 s' and reply :: msg_t
    using that chSchWakeupS_at [OF that(1), of reply]
    by (auto simp: chMsgRelease_def chMsgReleaseS_def rely_def wait_rely_def)
  then show ?thesis using n by (intro exI [of _ n] exI [of _ "\<lambda>s5. Done (p_u (thd s5 me)) s5"]) (simp add: chMsgGet_def)
qed

theorem msg_reply_roundtrip_witness:
  "\<exists>n k. chMsgSend 20480 7 sample = Switch n k \<and> chMsgGet 4096 n = 7"
  using msg_reply_roundtrip [OF sample_kinvU, of 4096 20480 7] by auto

end
