(* ===== verification/Threads.thy ===== *)
theory Threads
  imports Messages
begin

text \<open>
  Threads (\<^verbatim>\<open>os/kernel/src/chthreads.c\<close>, \<^verbatim>\<open>chthreads.h\<close>): creation, priorities,
  suspension and resumption, sleeping, termination.  The initial context that
  \<^verbatim>\<open>SETUP_CONTEXT\<close> writes into the working area is the continuation of the new thread and
  no part of the kernel state.  \<open>chThdWait\<close>, which gives back the memory of the thread, is in
  theory \<^verbatim>\<open>Dynamic\<close>.
\<close>

section \<open>Creation\<close>

definition REG_INSERT :: "addr \<Rightarrow> kstate \<Rightarrow> kstate" where
  "REG_INSERT tp s = s\<lparr>registry := queue_insert tp (rlist s) (registry s)\<rparr>"

definition REG_REMOVE :: "addr \<Rightarrow> kstate \<Rightarrow> kstate" where
  "REG_REMOVE tp s = s\<lparr>registry := snd (dequeue tp (registry s))\<rparr>"

definition thread_init :: "addr \<Rightarrow> tprio_t \<Rightarrow> kstate \<Rightarrow> addr \<times> kstate" where
  "thread_init tp pri s =
     (let s1 = upd_thd tp (\<lambda>t. t\<lparr>p_prio := pri, p_state := THD_STATE_SUSPENDED,
            p_flags := THD_MEM_MODE_STATIC, p_preempt := CH_TIME_QUANTUM, p_realprio := pri,
            p_mtxlist := [], p_epending := 0, p_time := 0, p_refs := 1, p_name := NULL\<rparr>) s;
          s2 = REG_INSERT tp s1
      in (tp, upd_thd tp (\<lambda>t. t\<lparr>p_waiting := [], p_msgqueue := []\<rparr>) s2))"

definition chThdCreateI :: "addr \<Rightarrow> tprio_t \<Rightarrow> kstate \<Rightarrow> addr \<times> kstate" where
  "chThdCreateI wsp pri s = thread_init wsp pri s"

definition chThdCreateStatic :: "addr \<Rightarrow> tprio_t \<Rightarrow> kstate \<Rightarrow> addr run" where
  "chThdCreateStatic wsp pri s =
     (let (tp, s1) = chThdCreateI wsp pri s
      in rbind (chSchWakeupS tp RDY_OK s1) (\<lambda>_ s2. Done tp s2))"

section \<open>The running thread and its priority\<close>

definition chThdSelf :: "kstate \<Rightarrow> addr" where
  "chThdSelf s = currp s"

definition chThdGetPriority :: "kstate \<Rightarrow> tprio_t" where
  "chThdGetPriority s = p_prio (thd s (currp s))"

definition chThdGetTicks :: "addr \<Rightarrow> kstate \<Rightarrow> systime_t" where
  "chThdGetTicks tp s = p_time (thd s tp)"

definition chThdLS :: "kstate \<Rightarrow> addr" where
  "chThdLS s = currp s + 72"

definition chThdTerminated :: "addr \<Rightarrow> kstate \<Rightarrow> bool" where
  "chThdTerminated tp s \<longleftrightarrow> p_state (thd s tp) = THD_STATE_FINAL"

definition chThdShouldTerminate :: "kstate \<Rightarrow> bool" where
  "chThdShouldTerminate s \<longleftrightarrow> p_flags (thd s (currp s)) AND THD_TERMINATE \<noteq> 0"

definition chThdSetPriority :: "tprio_t \<Rightarrow> kstate \<Rightarrow> tprio_t run" where
  "chThdSetPriority newprio s =
     (let me = currp s;
          oldprio = p_realprio (thd s me);
          s1 = (if p_prio (thd s me) = p_realprio (thd s me) \<or> newprio > p_prio (thd s me)
                then upd_thd me (\<lambda>t. t\<lparr>p_prio := newprio\<rparr>) s else s);
          s2 = upd_thd me (\<lambda>t. t\<lparr>p_realprio := newprio\<rparr>) s1
      in rbind (chSchRescheduleS s2) (\<lambda>_ s3. Done oldprio s3))"

section \<open>Resuming, sleeping, terminating\<close>

definition chThdResume :: "addr \<Rightarrow> kstate \<Rightarrow> addr run" where
  "chThdResume tp s = rbind (chSchWakeupS tp RDY_OK s) (\<lambda>_ s1. Done tp s1)"

definition chThdResumeI :: "addr \<Rightarrow> kstate \<Rightarrow> kstate" where
  "chThdResumeI tp s = chSchReadyI tp s"

definition chThdTerminate :: "addr \<Rightarrow> kstate \<Rightarrow> kstate" where
  "chThdTerminate tp s = upd_thd tp (\<lambda>t. t\<lparr>p_flags := p_flags t OR THD_TERMINATE\<rparr>) s"

definition chThdSleepS :: "systime_t \<Rightarrow> kstate \<Rightarrow> msg_t run" where
  "chThdSleepS time s = chSchGoSleepTimeoutS THD_STATE_SLEEPING time s"

definition chThdSleep :: "systime_t \<Rightarrow> kstate \<Rightarrow> unit run" where
  "chThdSleep time s = rbind (chThdSleepS time s) (\<lambda>_ s1. Done () s1)"

definition chThdSleepSeconds :: "u32 \<Rightarrow> kstate \<Rightarrow> unit run" where
  "chThdSleepSeconds sec s = chThdSleep (S2ST sec) s"

definition chThdSleepMilliseconds :: "u32 \<Rightarrow> kstate \<Rightarrow> unit run" where
  "chThdSleepMilliseconds msec s = chThdSleep (MS2ST msec) s"

definition chThdSleepMicroseconds :: "u32 \<Rightarrow> kstate \<Rightarrow> unit run" where
  "chThdSleepMicroseconds usec s = chThdSleep (US2ST usec) s"

definition chThdSleepUntil :: "systime_t \<Rightarrow> kstate \<Rightarrow> unit run" where
  "chThdSleepUntil time s =
     (let time1 = time - chTimeNow s
      in if time1 > 0 then rbind (chThdSleepS time1 s) (\<lambda>_ s1. Done () s1) else Done () s)"

definition chThdYield :: "kstate \<Rightarrow> unit run" where
  "chThdYield s = chSchDoYieldS s"

text \<open>\<^verbatim>\<open>while (notempty(&tp->p_waiting)) chSchReadyI(list_remove(&tp->p_waiting))\<close>.\<close>

function exit_wake :: "addr \<Rightarrow> kstate \<Rightarrow> kstate" where
  "exit_wake tp s =
     (case p_waiting (thd s tp) of
        [] \<Rightarrow> s
      | w # ws \<Rightarrow> exit_wake tp (chSchReadyI w (upd_thd tp (\<lambda>t. t\<lparr>p_waiting := ws\<rparr>) s)))"
  by auto
termination
  by (relation "measure (\<lambda>(tp, s). length (p_waiting (thd s tp)))") auto

declare exit_wake.simps [simp del]

definition chThdExitS :: "msg_t \<Rightarrow> kstate \<Rightarrow> unit run" where
  "chThdExitS msg s =
     (let tp = currp s;
          s1 = upd_thd tp (\<lambda>t. t\<lparr>p_u := msg\<rparr>) s;
          s2 = exit_wake tp s1;
          s3 = (if p_flags (thd s2 tp) AND THD_MEM_MODE_MASK = THD_MEM_MODE_STATIC
                then REG_REMOVE tp s2 else s2)
      in chSchGoSleepS THD_STATE_FINAL s3)"

definition chThdExit :: "msg_t \<Rightarrow> kstate \<Rightarrow> unit run" where
  "chThdExit msg s = chThdExitS msg s"

section \<open>Creating a thread\<close>

text \<open>Memory that a thread can be created in: no thread lives there and nobody waits on one.\<close>

definition vacant :: "kstate \<Rightarrow> addr \<Rightarrow> bool" where
  "vacant s tp \<longleftrightarrow> state_of s tp = THD_STATE_FINAL \<and> p_msgqueue (thd s tp) = [] \<and> tp \<noteq> NULL \<and> tp mod 8 = 0"

lemma thread_init_fields:
  "thd (snd (thread_init tp pri s)) = (thd s)(tp := (thd s tp)\<lparr>p_prio := pri, p_state := THD_STATE_SUSPENDED,
     p_flags := THD_MEM_MODE_STATIC, p_preempt := CH_TIME_QUANTUM, p_realprio := pri,
     p_mtxlist := [], p_epending := 0, p_time := 0, p_refs := 1, p_name := NULL, p_waiting := [], p_msgqueue := []\<rparr>)"
  "sem (snd (thread_init tp pri s)) = sem s" "mtx (snd (thread_init tp pri s)) = mtx s"
  "cond (snd (thread_init tp pri s)) = cond s" "ioq (snd (thread_init tp pri s)) = ioq s"
  "vts (snd (thread_init tp pri s)) = vts s" "vtlist (snd (thread_init tp pri s)) = vtlist s"
  "r_queue (snd (thread_init tp pri s)) = r_queue s" "rlist (snd (thread_init tp pri s)) = rlist s"
  "currp (snd (thread_init tp pri s)) = currp s" "idle_thread (snd (thread_init tp pri s)) = idle_thread s"
  "registry (snd (thread_init tp pri s)) = queue_insert tp (rlist s) (registry s)"
  by (simp_all add: thread_init_def REG_INSERT_def Let_def)

lemma thread_init_queue:
  assumes "live s" and "vacant s tp"
  shows "queue_of (snd (thread_init tp pri s)) r = queue_of s r"
  using assms by (cases r) (auto simp: thread_init_fields live_def vacant_def)

lemma thread_init_iclass:
  assumes K: "kinv s" and v: "vacant s tp" and pri: "0 < pri"
  shows "iclass s (snd (thread_init tp pri s))"
proof -
  let ?s = "snd (thread_init tp pri s)"
  have K0: "kinv0 s" "cur_ok s" "idle_ok s" "vt_pos s" using K by (simp_all add: kinv_def)
  have P: "places s" and lv: "live s" and ow: "owners_ok s" and inh: "inheritance s" and od: "ordered s"
    and tm: "timers_ok s" and sm: "sems_ok s"
    using K0 by (simp_all add: kinv0_def)
  have st: "state_of s tp = THD_STATE_FINAL" and al: "tp \<noteq> NULL" "tp mod 8 = 0" using v by (simp_all add: vacant_def)
  have q: "queue_of ?s r = queue_of s r" for r by (rule thread_init_queue [OF lv v])
  have nq: "tp \<notin> set (queue_of s r)" for r
    by (rule places_unqueued [OF P]) (simp add: place_ok_def st)
  have d: "distinct (queue_of s r)" for r by (rule places_distinct [OF P])
  have ml: "p_mtxlist (thd s tp) = []" using lv st by (simp add: live_def)
  have oth: "x \<noteq> tp \<Longrightarrow> thd ?s x = thd s x" for x by (simp add: thread_init_fields)
  have own: "thd ?s tp = (thd s tp)\<lparr>p_prio := pri, p_state := THD_STATE_SUSPENDED,
     p_flags := THD_MEM_MODE_STATIC, p_preempt := CH_TIME_QUANTUM, p_realprio := pri,
     p_mtxlist := [], p_epending := 0, p_time := 0, p_refs := 1, p_name := NULL, p_waiting := [], p_msgqueue := []\<rparr>"
    by (simp add: thread_init_fields)
  have P': "places ?s"
  proof (rule places_move [OF P, where t = tp and p' = PNone])
    show "place_ok (thd ?s tp) PNone" by (simp add: own place_ok_def)
    show "distinct (queue_of ?s r) \<and> set (queue_of ?s r) - {tp} = set (queue_of s r) - {tp} \<and>
        (tp \<in> set (queue_of ?s r) \<longleftrightarrow> r = PNone \<and> r \<noteq> PNone)" for r
      using d nq unfolding q by blast
  qed (simp add: oth)
  have pr: "x \<in> set (queue_of s r) \<Longrightarrow> prio ?s x = prio s x" for x r
    using nq [of r] oth [of x] by (cases "x = tp") simp_all
  have "desc (prio ?s) (queue_of ?s r)" if "prio_queue r" for r
  proof -
    have "desc (prio s) (queue_of s r)" using od that by (simp add: ordered_def)
    then show ?thesis unfolding q using desc_cong [of "queue_of s r" "prio ?s" "prio s"] pr [of _ r] by blast
  qed
  then have od': "ordered ?s" by (simp add: ordered_def)
  have "0 < prio ?s t \<and> 0 < p_realprio (thd ?s t) \<and> t \<noteq> NULL \<and> t mod 8 = 0" if "state_of ?s t \<noteq> THD_STATE_FINAL" for t
    using that lv oth [of t] pri al by (cases "t = tp") (auto simp: live_def own)
  moreover have "p_waiting (thd ?s t) = [] \<and> p_mtxlist (thd ?s t) = []" if "state_of ?s t = THD_STATE_FINAL" for t
    using that lv oth [of t] by (cases "t = tp") (auto simp: live_def own)
  ultimately have lv': "live ?s" unfolding live_def by blast
  have ow': "owners_ok ?s"
  proof -
    have "p_mtxlist (thd ?s t) = p_mtxlist (thd s t)" for t by (cases "t = tp") (simp_all add: own oth ml)
    then show ?thesis using ow by (simp add: owners_ok_def thread_init_fields(3))
  qed
  have inh': "inheritance ?s"
    unfolding inheritance_def
  proof (intro allI impI)
    fix t assume t: "state_of ?s t \<noteq> THD_STATE_FINAL"
    show "inherits ?s t"
    proof (cases "t = tp")
      case False
      then have "inherits s t" using t inh by (simp add: inheritance_def oth)
      then show ?thesis
        using pr [of _ "PMtx _"] oth [OF False] unfolding inherits_def
        by (simp add: thread_init_fields(3) cong: ball_cong bex_cong)
    qed (simp add: inherits_def own)
  qed
  have tm': "timers_ok ?s"
  proof (rule timers_ok_frame [OF tm])
    fix t assume "chVTIsArmedI (OnStack t) s"
    then have "t \<noteq> tp" using tm st by (auto simp: timers_ok_def timed_def)
    then show "state_of ?s t = state_of s t \<or> timed (state_of ?s t) \<or> runnable (state_of ?s t)" by (simp add: oth)
  qed (simp_all add: thread_init_fields)
  have "tp \<noteq> currp s" using st cur_state [OF K] by auto
  then have c: "cur_ok ?s"
    using K0(2) st unfolding cur_ok_def thread_init_fields(10) by (auto simp: oth own thread_init_fields)
  have "state_of s (idle_thread s) \<noteq> THD_STATE_FINAL" using K0(3) by (auto simp: idle_ok_def)
  then have i: "idle_ok ?s" using K0(3) st oth [of "idle_thread s"]
    by (cases "idle_thread s = tp") (simp_all add: idle_ok_def thread_init_fields(11))
  have vp: "vt_pos ?s" using K0(4) by (simp add: vt_pos_hd thread_init_fields)
  have "rely t s ?s" for t
  proof (cases "t = tp")
    case False
    then show ?thesis using oth [OF False] by (intro rely_frame) (simp_all add: thread_init_fields chVTIsArmedI_def)
  qed (simp add: rely_def st)
  then show ?thesis
    using P' od' lv' ow' inh' tm' c i vp sm
    by (simp add: iclass_def kinv_def kinv0_def thread_init_fields sems_ok_def)
qed

lemma kinvU_thread_init:
  assumes K: "kinvU s" and v: "vacant s tp" and pri: "0 < pri"
  shows "kinvU (snd (thread_init tp pri s))"
proof -
  have k: "kinv s" using K by (simp add: kinvU_def)
  have i: "iclass s (snd (thread_init tp pri s))" by (rule thread_init_iclass [OF k v pri])
  have "tp \<notin> set (r_queue s)" "tp \<noteq> currp s"
    using v kinv_ready_state [OF k, of tp] cur_state [OF k] by (auto simp: vacant_def)
  then have "prio_ok (snd (thread_init tp pri s))"
    using K by (auto simp: prio_ok_def kinvU_def thread_init_fields)
  then show ?thesis using kinvU_iclass [OF K i] by simp
qed

lemma safe_rbind_Done:
  "safe me (\<lambda>_ s'. Q s') s r \<Longrightarrow> safe me (\<lambda>a s'. a = x \<and> Q s') s (rbind r (\<lambda>_ s'. Done x s'))"
  by (erule safe_bind) (auto intro: safe_Done)

lemma chThdCreateStatic_safe:
  assumes K: "kinvU s" and me: "me = currp s" and v: "vacant s tp" and pri: "0 < pri"
  shows "safe me (\<lambda>t s'. t = tp \<and> returned me s s') s (chThdCreateStatic tp pri s)"
proof -
  let ?s = "snd (thread_init tp pri s)"
  have k: "kinv s" using K by (simp add: kinvU_def)
  have U: "kinvU ?s" by (rule kinvU_thread_init [OF K v pri])
  have i: "iclass s ?s" by (rule thread_init_iclass [OF k v pri])
  have c: "currp ?s = currp s" by (simp add: thread_init_fields)
  have tp: "thd ?s tp = (thd ?s tp)\<lparr>p_state := THD_STATE_SUSPENDED\<rparr>" by (simp add: thread_init_fields)
  have P: "places ?s" "sems_ok ?s" using U by (simp_all add: kinvU_def kinv_def kinv0_def)
  have d: "detached tp ?s ?s"
    by (rule detached_unqueued [OF P(1)]) (simp_all add: place_ok_def thread_init_fields)
  have "safe me (returns me ?s) ?s (chSchWakeupS tp RDY_OK ?s)"
    by (rule chSchWakeupS_detached [OF U _ d P(2)]) (simp_all add: me c thread_init_fields)
  then have "safe me (\<lambda>_. returned me ?s) ?s (chSchWakeupS tp RDY_OK ?s)"
    using cur_state [of ?s] U by (intro safe_returned) (auto simp: me c kinvU_def)
  then have "safe me (\<lambda>_ s'. returned me s s') s (chSchWakeupS tp RDY_OK ?s)"
    using iclass_guar [OF i, of me] iclass_kept [OF i k me]
    by (blast intro: safe_rebase safe_mono returned_trans)
  moreover have "chThdCreateStatic tp pri s = rbind (chSchWakeupS tp RDY_OK ?s) (\<lambda>_ s'. Done tp s')"
    by (simp add: chThdCreateStatic_def chThdCreateI_def thread_init_def Let_def)
  ultimately show ?thesis using safe_rbind_Done [of me "returned me s"] by simp
qed

lemma chSchWakeupS_frame:
  "tp \<noteq> currp s \<Longrightarrow> prio (at (chSchWakeupS tp msg s)) t = prio s t"
  "registry (at (chSchWakeupS tp msg s)) = registry s"
  by (auto simp: chSchWakeupS_def chSysSwitch_def Let_def)

lemma at_rbind_Done [simp]: "at (rbind r (\<lambda>_ s'. Done x s')) = at r"
  by (cases r) simp_all

section \<open>Changing the priority\<close>

text \<open>
  Nobody who waits for a mutex of the running thread has a priority above the new one, where
  the new priority replaces the current one.
\<close>

definition may_lower :: "tprio_t \<Rightarrow> kstate \<Rightarrow> bool" where
  "may_lower newprio s \<longleftrightarrow> (let t = thd s (currp s) in p_prio t = p_realprio t \<longrightarrow>
     (\<forall>m\<in>set (p_mtxlist t). \<forall>w\<in>set (m_queue (mtx s m)). prio s w \<le> newprio))"

definition reprioritized :: "tprio_t \<Rightarrow> kstate \<Rightarrow> kstate" where
  "reprioritized newprio s = upd_thd (currp s) (\<lambda>t. t\<lparr>p_realprio := newprio,
     p_prio := if p_prio t = p_realprio t \<or> newprio > p_prio t then newprio else p_prio t\<rparr>) s"

lemma chThdSetPriority_eq:
  "chThdSetPriority newprio s =
     rbind (chSchRescheduleS (reprioritized newprio s)) (\<lambda>_ s'. Done (p_realprio (thd s (currp s))) s')"
proof -
  let ?me = "currp s"
  let ?s1 = "if p_prio (thd s ?me) = p_realprio (thd s ?me) \<or> newprio > p_prio (thd s ?me)
                then upd_thd ?me (\<lambda>t. t\<lparr>p_prio := newprio\<rparr>) s else s"
  have "upd_thd ?me (\<lambda>t. t\<lparr>p_realprio := newprio\<rparr>) ?s1 = reprioritized newprio s"
    by (auto simp: reprioritized_def intro!: kstate.equality Thread.equality)
  then show ?thesis by (simp add: chThdSetPriority_def Let_def)
qed

lemma reprioritized_fields:
  "x \<noteq> currp s \<Longrightarrow> thd (reprioritized n s) x = thd s x"
  "p_realprio (thd (reprioritized n s) (currp s)) = n"
  "prio (reprioritized n s) (currp s) = (if prio s (currp s) = p_realprio (thd s (currp s)) \<or> n > prio s (currp s) then n else prio s (currp s))"
  "p_state (thd (reprioritized n s) x) = p_state (thd s x)" "p_u (thd (reprioritized n s) x) = p_u (thd s x)"
  "p_mtxlist (thd (reprioritized n s) x) = p_mtxlist (thd s x)"
  "p_waiting (thd (reprioritized n s) x) = p_waiting (thd s x)"
  "mtx (reprioritized n s) = mtx s" "sem (reprioritized n s) = sem s"
  "vts (reprioritized n s) = vts s" "vtlist (reprioritized n s) = vtlist s" "currp (reprioritized n s) = currp s"
  "idle_thread (reprioritized n s) = idle_thread s"
  "queue_of (reprioritized n s) r = queue_of s r"
  by (cases r; simp add: reprioritized_def)+

lemma inheritance_reprioritized:
  assumes K: "kinv s" and n: "may_lower n s"
  shows "inheritance (reprioritized n s)"
  unfolding inheritance_def
proof (intro allI impI)
  fix t assume t: "state_of (reprioritized n s) t \<noteq> THD_STATE_FINAL"
  have K0: "kinv0 s" using K by (simp add: kinv_def)
  have inh: "inherits s t"
    using K0 t by (simp add: kinv0_def inheritance_def reprioritized_fields)
  have w: "w \<noteq> currp s" if "w \<in> set (m_queue (mtx s m))" for w m
    using that K0 places_unqueued [of s "currp s" "PMtx m"] cur_state [OF K] by (auto simp: kinv0_def place_ok_def)
  have pw: "prio (reprioritized n s) w = prio s w" if "w \<in> set (m_queue (mtx s m))" for w m
    using w [OF that] by (simp add: reprioritized_fields)
  show "inherits (reprioritized n s) t"
  proof (cases "t = currp s")
    case False
    then show ?thesis using inh pw
      by (simp add: inherits_def reprioritized_fields cong: ball_cong bex_cong)
  next
    case True
    let ?p = "prio s t" and ?r = "p_realprio (thd s t)"
    have le: "\<forall>m\<in>set (p_mtxlist (thd s t)). \<forall>w\<in>set (m_queue (mtx s m)). prio s w \<le> prio (reprioritized n s) t"
      using inh n True by (fastforce simp: inherits_def may_lower_def Let_def reprioritized_fields)
    then show ?thesis using inh pw True
      by (auto simp: inherits_def reprioritized_fields cong: ball_cong bex_cong)
  qed
qed

lemma kinv_reprioritized:
  assumes K: "kinv s" and n: "may_lower n s" and pos: "0 < n"
  shows "kinv (reprioritized n s)"
proof -
  let ?s = "reprioritized n s"
  have K0: "kinv0 s" using K by (simp add: kinv_def)
  have P: "places s" and lv: "live s" and ow: "owners_ok s" and od: "ordered s"
    and tm: "timers_ok s" and sm: "sems_ok s"
    using K0 by (simp_all add: kinv0_def)
  have nq: "currp s \<notin> set (queue_of s r)" for r
    by (rule places_unqueued [OF P]) (simp add: place_ok_def cur_state [OF K])
  have "place_ok (thd ?s t) p = place_ok (thd s t) p" for t p
    by (rule place_ok_cong) (simp_all add: reprioritized_fields)
  then have P': "places ?s" using P by (simp add: places_def linked_def reprioritized_fields)
  have "prio ?s x = prio s x" if "x \<in> set (queue_of s r)" for x r
    using that nq [of r] reprioritized_fields(1) [of x s n] by (cases "x = currp s") simp_all
  then have "desc (prio ?s) (queue_of s r) = desc (prio s) (queue_of s r)" for r by (rule desc_cong)
  then have od': "ordered ?s" using od by (simp add: ordered_def reprioritized_fields)
  have "0 < prio ?s t \<and> 0 < p_realprio (thd ?s t)" if "state_of s t \<noteq> THD_STATE_FINAL" for t
    using lv pos that reprioritized_fields(1) [of t s n]
    by (cases "t = currp s") (auto simp: live_def reprioritized_fields)
  then have lv': "live ?s" using lv by (simp add: live_def reprioritized_fields)
  have tm': "timers_ok ?s" by (rule timers_ok_frame [OF tm]) (simp_all add: reprioritized_fields)
  have ow': "owners_ok ?s" using ow by (simp add: owners_ok_def reprioritized_fields)
  have rest: "cur_ok ?s" "idle_ok ?s" "vt_pos ?s" "sems_ok ?s"
    using K sm by (auto simp: kinv_def cur_ok_def idle_ok_def vt_pos_hd sems_ok_def reprioritized_fields)
  show ?thesis
    using P' od' lv' ow' tm' rest inheritance_reprioritized [OF K n] by (simp add: kinv_def kinv0_def)
qed

lemma chThdSetPriority_safe:
  assumes K: "kinvL s" and me: "me = currp s" and n: "may_lower n s" and pos: "0 < n"
  shows "safe me (\<lambda>old s'. old = p_realprio (thd s me) \<and> kinvU s' \<and> currp s' = me \<and>
    p_realprio (thd s' me) = n) s (chThdSetPriority n s)"
proof -
  let ?s = "reprioritized n s"
  have k: "kinv s" "\<not> chVTIsArmedI (OnStack me) s" using K me by (simp_all add: kinvL_def)
  then have K': "kinvL ?s"
    using kinv_reprioritized [OF k(1) n pos] me by (simp add: kinvL_def reprioritized_fields chVTIsArmedI_def)
  have "rely t s ?s" if "t \<noteq> me" for t
    using that me by (intro rely_frame) (simp_all add: reprioritized_fields chVTIsArmedI_def)
  then have g: "guar me s ?s" by (simp add: guar_def)
  have st: "state_of ?s me \<noteq> THD_STATE_FINAL" using cur_state [OF k(1)] me by (simp add: reprioritized_fields)
  have "safe me (returns me ?s) s (chSchRescheduleS ?s)"
    using chSchRescheduleS_safe [OF K', of me] me g by (auto simp: reprioritized_fields intro: safe_rebase)
  then have "safe me (\<lambda>_ s'. kinvU s' \<and> currp s' = me \<and> p_realprio (thd s' me) = n) s (chSchRescheduleS ?s)"
    by (rule safe_mono) (use st me in \<open>auto simp: rely_def run_rely_def reprioritized_fields\<close>)
  from safe_rbind_Done [OF this] show ?thesis by (simp add: chThdSetPriority_eq me)
qed

lemma at_reschedule_frame:
  "prio (at (chSchRescheduleS s)) t = prio s t" "mtx (at (chSchRescheduleS s)) = mtx s"
    "p_mtxlist (thd (at (chSchRescheduleS s)) t) = p_mtxlist (thd s t)"
    "state_of s t \<noteq> THD_STATE_FINAL \<Longrightarrow> state_of (at (chSchRescheduleS s)) t \<noteq> THD_STATE_FINAL"
  by (auto simp: chSchRescheduleS_def chSchDoRescheduleAhead_def chSysSwitch_def pick_next_def Let_def
    split: prod.split)

section \<open>Properties\<close>

text \<open>
  C19: creating a thread.  In memory where no thread lives the new thread is set up, entered at
  the end of the registry and can run at once with the given priority; the call returns it, keeps
  the kernel invariant and changes no other thread beyond what it expects.
\<close>

theorem thread_create_contract:
  assumes K: "kinvU s" and me: "me = currp s" and v: "vacant s tp" and pri: "0 < pri"
    and R: "is_queue (registry s) (rlist s) ts" and new: "tp \<notin> insert (rlist s) (set ts)"
    and n: "n = at (chThdCreateStatic tp pri s)"
  shows "safe me (\<lambda>t s'. t = tp \<and> returned me s s') s (chThdCreateStatic tp pri s) \<and>
    runnable (state_of n tp) \<and> prio n tp = pri \<and> is_queue (registry n) (rlist s) (ts @ [tp])"
proof -
  let ?s = "snd (thread_init tp pri s)"
  have e: "chThdCreateStatic tp pri s = rbind (chSchWakeupS tp RDY_OK ?s) (\<lambda>_ s'. Done tp s')"
    by (simp add: chThdCreateStatic_def chThdCreateI_def thread_init_def Let_def)
  have "kinv s" using K by (simp add: kinvU_def)
  then have ne: "tp \<noteq> currp ?s" using cur_state [of s] v by (auto simp: vacant_def thread_init_fields)
  have "is_queue (queue_insert tp (rlist s) (registry s)) (rlist s) (ts @ [tp])"
    using is_queue_insert_before [of "registry s" "rlist s" ts "[]" tp "rlist s"] R new
    by (simp add: queue_insert_before)
  then show ?thesis
    using chThdCreateStatic_safe [OF K me v pri] chSchWakeupS_at [OF ne, of RDY_OK]
      chSchWakeupS_frame(1) [OF ne, of RDY_OK tp] chSchWakeupS_frame(2) [of tp RDY_OK ?s]
    unfolding n e at_rbind_Done by (simp add: thread_init_fields)
qed

lemma sample_registry_queue: "is_queue (registry sample) (rlist sample) [4096, 8192, 12288, 16384, 20480, 24576, 28672]"
  by (simp add: sample_def sample_registry_def is_queue_def queue_insert_def queue_init_def Let_def)

theorem thread_create_contract_witness:
  "vacant sample 40960 \<and> runnable (state_of (at (chThdCreateStatic 40960 10 sample)) 40960)"
proof -
  have v: "vacant sample 40960" by (simp add: vacant_def sample_defs)
  then show ?thesis
    using thread_create_contract [OF sample_kinvU refl v, of 10, OF _ sample_registry_queue _ refl] by (simp add: sample_def)
qed

text \<open>
  C20: changing the own priority.  The call returns the old base priority and the caller runs on
  with the new one, the kernel invariant intact, unless its priority is its own and is replaced by one below that of a
  thread that waits for a mutex it owns: then the waiting thread's priority is not inherited, and
  priority inheritance is broken.
\<close>

theorem set_priority_contract:
  assumes K: "kinvU s" and me: "me = currp s" and pos: "0 < newprio"
  shows "if may_lower newprio s
    then safe me (\<lambda>old s'. old = p_realprio (thd s me) \<and> kinvU s' \<and> currp s' = me \<and>
      p_realprio (thd s' me) = newprio) s (chThdSetPriority newprio s)
    else \<not> inheritance (at (chThdSetPriority newprio s))"
proof (cases "may_lower newprio s")
  case True
  then show ?thesis using chThdSetPriority_safe [OF _ me True pos] K by (simp add: kinvU_L)
next
  case False
  let ?s = "reprioritized newprio s" and ?n = "at (chThdSetPriority newprio s)"
  have k: "kinv s" "places s" using K by (simp_all add: kinvU_def kinv_def kinv0_def)
  from False obtain m w where w: "prio s me = p_realprio (thd s me)" "m \<in> set (p_mtxlist (thd s me))"
      "w \<in> set (m_queue (mtx s m))" "newprio < prio s w"
    by (auto simp: may_lower_def Let_def me not_le)
  have "w \<noteq> me" using places_unqueued [OF k(2), of me "PMtx m"] cur_state [OF k(1)] w(3) me by (auto simp: place_ok_def)
  moreover have "prio ?s me = newprio" using w(1) by (simp add: me reprioritized_fields)
  ultimately have "prio ?n me < prio ?n w" "m \<in> set (p_mtxlist (thd ?n me))" "w \<in> set (m_queue (mtx ?n m))"
    using w me by (simp_all add: chThdSetPriority_eq at_reschedule_frame reprioritized_fields)
  then have "\<not> inherits ?n me" unfolding inherits_def by (meson not_le)
  moreover have "state_of ?n me \<noteq> THD_STATE_FINAL"
    using cur_state [OF k(1)] me by (simp add: chThdSetPriority_eq at_reschedule_frame reprioritized_fields)
  ultimately show ?thesis using False by (auto simp: inheritance_def)
qed

theorem set_priority_contract_witness:
  "may_lower 90 sample \<and> safe 4096 (\<lambda>old s'. old = 64 \<and> kinvU s' \<and> currp s' = 4096 \<and>
     p_realprio (thd s' 4096) = 90) sample (chThdSetPriority 90 sample)"
proof -
  have "may_lower 90 sample" "p_realprio (thd sample 4096) = 64" by (simp_all add: may_lower_def sample_defs)
  then show ?thesis using set_priority_contract [OF sample_kinvU, of 4096 90] by simp
qed

section \<open>Sleeping and terminating\<close>

lemma parked_none:
  assumes "kinv s" and "me = currp s" and "ns \<in> {THD_STATE_SLEEPING, THD_STATE_SUSPENDED}"
  shows "parked ns me PNone s s"
  using assms by (auto simp: parked_def attached_def place_ok_def kinv_def kinv0_def)

lemma chThdSleepS_safe:
  assumes K: "kinvL s" and me: "me = currp s" and ni: "me \<noteq> idle_thread s" and tm: "time \<noteq> TIME_IMMEDIATE"
  shows "safe me (\<lambda>_ s'. returned me s s') s (chThdSleepS time s)"
  unfolding chThdSleepS_def
  by (rule safe_mono [OF goSleepTimeout_returned [OF K me ni parked_none]])
    (use K me tm in \<open>auto simp: kinvL_def timed_def\<close>)

lemma sleep_timeout_eq:
  assumes "me = currp s"
  shows "\<exists>k. chSchGoSleepTimeoutS ns time s = Switch (pick_next (sleeping ns me (arm time me s))) k"
  using assms by (auto simp: chSchGoSleepTimeoutS_def chSchGoSleepS_eq arm_def Let_def)

lemma ticks_left_cong: "vts s' = vts s \<Longrightarrow> vtlist s' = vtlist s \<Longrightarrow> ticks_left s' = ticks_left s"
  by (rule ext) (simp add: ticks_left_def)

lemma pick_next_vt [simp]: "vts (pick_next s) = vts s" "vtlist (pick_next s) = vtlist s"
  by (simp_all add: pick_next_def Let_def split: prod.split)

lemma exit_wake_step:
  assumes "p_waiting (thd s tp) = w # ws"
  shows "exit_wake tp s = exit_wake tp (chSchReadyI w (upd_thd tp (\<lambda>t. t\<lparr>p_waiting := ws\<rparr>) s))"
  by (subst exit_wake.simps) (simp add: assms)

lemma exit_wake_iclass:
  assumes "kinv s"
  shows "iclass s (exit_wake tp s) \<and> p_waiting (thd (exit_wake tp s) tp) = [] \<and>
    (\<forall>x. thd (exit_wake tp s) x = (thd s x)\<lparr>p_state := if x \<in> set (p_waiting (thd s tp)) then THD_STATE_READY else state_of s x,
       p_waiting := if x = tp then [] else p_waiting (thd s x)\<rparr>) \<and>
    registry (exit_wake tp s) = registry s \<and> rlist (exit_wake tp s) = rlist s"
  using assms
proof (induction "length (p_waiting (thd s tp))" arbitrary: s)
  case 0
  then have "exit_wake tp s = s" by (subst exit_wake.simps) simp
  then show ?case using 0 by (auto simp: iclass_refl)
next
  case (Suc n)
  then obtain w ws where q: "p_waiting (thd s tp) = w # ws" by (cases "p_waiting (thd s tp)") auto
  let ?s1 = "upd_thd tp (\<lambda>t. t\<lparr>p_waiting := ws\<rparr>) s"
  have P: "places s" "sems_ok s" using Suc.prems by (simp_all add: kinv_def kinv0_def)
  have w: "w \<in> set (queue_of s (PExit tp))" using q by simp
  have wst: "state_of s w = THD_STATE_WTEXIT" using places_at [OF P(1) w] by (auto simp: place_ok_def split: tstate.splits)
  have dw: "distinct (w # ws)" using places_distinct [OF P(1), of "PExit tp"] q by simp
  have "queue_of ?s1 r = queue_of s r" if "r \<noteq> PExit tp" for r using that by (cases r) auto
  then have "detached w s ?s1" using q by (intro detachedI [OF P(1) w]) auto
  then have i: "iclass s (chSchReadyI w ?s1)"
    using P(2) wst by (intro iclass_ready [OF Suc.prems]) (auto simp: sems_ok_def)
  let ?s2 = "chSchReadyI w ?s1"
  have p2: "p_waiting (thd ?s2 tp) = ws" by simp
  have IH: "iclass ?s2 (exit_wake tp ?s2) \<and> p_waiting (thd (exit_wake tp ?s2) tp) = [] \<and>
    (\<forall>x. thd (exit_wake tp ?s2) x = (thd ?s2 x)\<lparr>p_state := if x \<in> set (p_waiting (thd ?s2 tp)) then THD_STATE_READY else state_of ?s2 x,
       p_waiting := if x = tp then [] else p_waiting (thd ?s2 x)\<rparr>) \<and>
    registry (exit_wake tp ?s2) = registry ?s2 \<and> rlist (exit_wake tp ?s2) = rlist ?s2"
    using Suc.hyps q i by (intro Suc.hyps(1)) (auto simp: iclass_def)
  have "thd (exit_wake tp ?s2) x = (thd s x)\<lparr>p_state := if x \<in> set (w # ws) then THD_STATE_READY else state_of s x,
       p_waiting := if x = tp then [] else p_waiting (thd s x)\<rparr>" for x
    using IH unfolding p2 by auto
  then show ?case
    using IH i unfolding exit_wake_step [OF q] q by (auto intro: iclass_trans)
qed

lemma chThdExitS_eq:
  assumes K: "kinvL s" and me: "me = currp s" and ni: "me \<noteq> idle_thread s" and ml: "p_mtxlist (thd s me) = []"
  obtains n where "chThdExitS msg s = Switch n (Done ())" and "kinvS n" and "guar me s n"
    and "state_of n me = THD_STATE_FINAL" and "p_u (thd n me) = msg"
    and "\<And>w. w \<in> set (p_waiting (thd s me)) \<Longrightarrow> runnable (state_of n w)"
    and "registry n = (if p_flags (thd s me) AND THD_MEM_MODE_MASK = THD_MEM_MODE_STATIC
      then snd (dequeue me (registry s)) else registry s)"
proof -
  define s1 where "s1 = upd_thd me (\<lambda>t. t\<lparr>p_u := msg\<rparr>) s"
  define s2 where "s2 = exit_wake me s1"
  define s3 where "s3 = (if p_flags (thd s2 me) AND THD_MEM_MODE_MASK = THD_MEM_MODE_STATIC then REG_REMOVE me s2 else s2)"
  have k: "kinv s" "\<not> chVTIsArmedI (OnStack me) s" using K me by (simp_all add: kinvL_def)
  have "queue_of s1 r = queue_of s r" for r by (cases r) (auto simp: s1_def)
  then have c1: "same_core s s1" using cur_state [OF k(1)] me by (auto simp: same_core_def s1_def)
  have k1: "kinv s1" using kinv_same_core [OF k(1) c1] k(1) by (simp add: kinv_def kinv0_def sems_ok_def s1_def)
  have me1: "me = currp s1" using me by (simp add: s1_def)
  have i2: "iclass s1 s2" and th: "\<And>x. thd s2 x = (thd s1 x)\<lparr>p_state := if x \<in> set (p_waiting (thd s1 me)) then THD_STATE_READY else state_of s1 x,
       p_waiting := if x = me then [] else p_waiting (thd s1 x)\<rparr>" and r2: "registry s2 = registry s1"
    using exit_wake_iclass [OF k1, of me] unfolding s2_def by blast+
  have kp: "kept me s1 s2" by (rule iclass_kept [OF i2 k1 me1])
  have k2: "kinv s2" "currp s2 = me" using i2 me1 by (simp_all add: iclass_def)
  have f3: "thd s3 = thd s2" "sem s3 = sem s2" "currp s3 = me" "idle_thread s3 = idle_thread s2" "vts s3 = vts s2"
    using k2 by (simp_all add: s3_def REG_REMOVE_def)
  have "queue_of s3 r = queue_of s2 r" for r by (cases r) (auto simp: s3_def REG_REMOVE_def)
  then have c3: "same_core s2 s3" by (auto simp: same_core_def REG_REMOVE_def s3_def)
  have k3: "kinv s3" using kinv_same_core [OF k2(1) c3] k2(1) by (simp add: kinv_def kinv0_def sems_ok_def f3)
  have g: "guar me s s3"
    by (rule guar_trans [OF guar_trans [OF same_core_guar [OF k(1) c1 me] iclass_guar [OF i2]]
      same_core_guar [OF k2(1) c3]]) (simp add: k2(2))
  have id: "me \<noteq> idle_thread s3" using kp ni by (simp add: kept_def f3 s1_def)
  have mw: "p_mtxlist (thd s3 me) = []" "p_waiting (thd s3 me) = []" "p_u (thd s3 me) = msg"
    using ml by (simp_all add: f3 th s1_def)
  have rl: "rely me s1 s2" using i2 by (simp add: iclass_def)
  have un: "\<not> chVTIsArmedI (OnStack me) s3"
  proof -
    have "state_of s1 me \<noteq> THD_STATE_FINAL" using cur_state [OF k1] unfolding me1 [symmetric] by simp
    then have "chVTIsArmedI (OnStack me) s2 \<longrightarrow> chVTIsArmedI (OnStack me) s1" using rl unfolding rely_def by blast
    then show ?thesis using k(2) by (simp add: f3 s1_def chVTIsArmedI_def)
  qed
  let ?n = "pick_next (sleeping THD_STATE_FINAL me s3)"
  have K3: "places s3" "sems_ok s3" "timers_ok s3" "vt_pos s3" using k3 by (simp_all add: kinv_def kinv0_def)
  have at: "attached me PNone s3 s3" by (simp add: attached_def)
  have n: "kinvS ?n" "guar me s3 ?n"
    by (rule sleep_ok [OF k3 _ id at]; use mw f3(3) un K3 timers_ok_sleeping [OF K3(3) un] in \<open>simp add: place_ok_def\<close>)+
  have o: "thd ?n me = thd (sleeping THD_STATE_FINAL me s3) me"
    using pick_next_other(1) [OF k3 _ , of PNone s3] f3(3) id at by simp
  have rest: "runnable (state_of ?n w)" if "w \<in> set (p_waiting (thd s me))" for w
  proof -
    have "w \<noteq> me"
      using that places_unqueued [of s me "PExit me"] k(1) cur_state [OF k(1)] me
      by (auto simp: kinv_def kinv0_def place_ok_def)
    moreover have "state_of s2 w = THD_STATE_READY" using that by (simp add: th s1_def)
    ultimately show ?thesis by (simp add: pick_next_def f3 Let_def split: prod.split)
  qed
  have rg: "registry ?n = (if p_flags (thd s me) AND THD_MEM_MODE_MASK = THD_MEM_MODE_STATIC
      then snd (dequeue me (registry s)) else registry s)"
    using r2 by (simp add: pick_next_def sleeping_def Let_def s3_def REG_REMOVE_def th s1_def split: prod.split)
  have "chThdExitS msg s = chSchGoSleepS THD_STATE_FINAL s3"
    unfolding chThdExitS_def Let_def me [symmetric] s3_def s2_def s1_def by (rule refl)
  then have "chThdExitS msg s = Switch ?n (Done ())" by (simp add: chSchGoSleepS_eq f3(3))
  then show thesis
    using that [of ?n] n guar_trans [OF g n(2)] o mw(3) rest rg by simp
qed

text \<open>
  C21: sleeping until a time.  The call returns at once when it is that time now.  Otherwise the
  thread sleeps, and is woken after exactly the number of ticks after which the 32-bit system
  time is the given one; but a time that has passed by one tick makes it sleep for ever, with no
  timer armed, since the difference is \<open>TIME_INFINITE\<close>.
\<close>

theorem sleep_until_deadline:
  assumes K: "kinvU s" and me: "me = currp s" and ni: "me \<noteq> idle_thread s"
  shows "safe me (\<lambda>_ s'. returned me s s') s (chThdSleepUntil time s) \<and>
    (if time = vt_systime s then chThdSleepUntil time s = Done () s
     else \<exists>n k. chThdSleepUntil time s = Switch n k \<and> state_of n me = THD_STATE_SLEEPING \<and>
       ticks_left n (OnStack me) =
         (if time = vt_systime s - 1 then None else Some (unat (time - vt_systime s))))"
proof -
  have L: "kinvL s" "kinv s" using K by (simp_all add: kinvU_L kinvL_def)
  have un: "\<not> chVTIsArmedI (OnStack me) s" using K me by (simp add: kinvU_def)
  have wf: "vt_wf s" using L(2) by (simp add: kinv_def kinv0_def timers_ok_def)
  show ?thesis
  proof (cases "time = vt_systime s")
    case True
    then have "chThdSleepUntil time s = Done () s" by (simp add: chThdSleepUntil_def chTimeNow_def)
    then show ?thesis using True K me by (auto simp: returned_def intro: safe_Done)
  next
    case False
    let ?d = "time - vt_systime s" and ?n = "pick_next (sleeping THD_STATE_SLEEPING me (arm (time - vt_systime s) me s))"
    have d: "?d \<noteq> 0" using False by simp
    then have e: "chThdSleepUntil time s = rbind (chThdSleepS ?d s) (\<lambda>_ s1. Done () s1)"
      by (simp add: chThdSleepUntil_def chTimeNow_def word_greater_zero_iff)
    then have sf: "safe me (\<lambda>_ s'. returned me s s') s (chThdSleepUntil time s)"
      using safe_rbind_Done [OF chThdSleepS_safe [OF L(1) me ni d], of "()"] by simp
    obtain k where "chThdSleepS ?d s = Switch ?n k"
      using sleep_timeout_eq [OF me, of THD_STATE_SLEEPING ?d] by (auto simp: chThdSleepS_def)
    then have sw: "chThdSleepUntil time s = Switch ?n (\<lambda>s'. rbind (k s') (\<lambda>_ s1. Done () s1))" by (simp add: e)
    have "queue_of (arm ?d me s) r = queue_of s r" for r by (cases r) (simp_all add: arm_def)
    moreover have "mtx (arm ?d me s) = mtx s" by (simp add: arm_def)
    ultimately have "attached me PNone s (arm ?d me s)" by (simp add: attached_def)
    then have st: "state_of ?n me = THD_STATE_SLEEPING"
      using pick_next_other(1) [OF L(2), of PNone "arm ?d me s" THD_STATE_SLEEPING] me ni by simp
    have nin: "OnStack me \<notin> set (vtlist s)" "distinct (vtlist s)" using wf un by (auto simp: vt_wf_def)
    have tl: "ticks_left ?n (OnStack me) = ticks_left (arm ?d me s) (OnStack me)"
      by (simp add: ticks_left_def sleeping_def)
    have inf: "?d = TIME_INFINITE \<longleftrightarrow> time = vt_systime s - 1" by (simp add: diff_eq_eq)
    have "ticks_left ?n (OnStack me) = (if time = vt_systime s - 1 then None else Some (unat ?d))"
      using nin chVTSetI_ticks_left [OF nin, of ?d Wakeup me] unfolding tl arm_def inf
      by (simp add: ticks_left_def)
    then show ?thesis unfolding if_not_P [OF False] using sf sw st by blast
  qed
qed

theorem sleep_until_deadline_witness:
  "ticks_left (at (chThdSleepUntil 130 sample)) (OnStack 4096) = Some 30"
  using sleep_until_deadline [OF sample_kinvU, of 4096 130] by (auto simp del: runnable_def)

end
