(* ===== verification/WordFacts.thy ===== *)
theory WordFacts
  imports Prelude
begin

text \<open>
  Arithmetic on machine words read as natural numbers, where nothing wraps around, and the
  order of words.
\<close>

named_theorems word_nat \<open>words as natural numbers\<close>

lemma u32_lt: "unat (x :: u32) < 4294967296"
  using unsigned_less [of x] by simp

lemma u8_lt: "unat (x :: u8) < 256"
  using unsigned_less [of x] by simp

lemma unat_add32: "unat a + unat b < 4294967296 \<Longrightarrow> unat (a + b :: u32) = unat a + unat b"
  by (simp add: unat_word_ariths)

lemma unat_sub_le: "b \<le> a \<Longrightarrow> unat (a - b) = unat a - unat b"
  by (rule unat_sub)

lemma unat_sub32: "unat b \<le> unat a \<Longrightarrow> unat (a - b :: u32) = unat a - unat b"
  by (simp add: unat_sub word_le_nat_alt)

lemma u32_eq_iff: "(a :: u32) = b \<longleftrightarrow> unat a = unat b"
  by (simp add: unsigned_word_eqI word_unat_eq_iff)

lemmas [word_nat] = word_less_nat_alt word_le_nat_alt

end
