(* ===== verification/Memory.thy ===== *)
theory Memory
  imports Threads WordFacts
begin

text \<open>
  Memory: the core allocator (\<^verbatim>\<open>os/kernel/src/chmemcore.c\<close>), memory pools
  (\<^verbatim>\<open>chmempools.c\<close>) and heaps (\<^verbatim>\<open>chheap.c\<close>).  The free lists are linked through the free
  memory itself: an explicit store of 32-bit cells.  A heap works with the kernel unlocked,
  under its own mutex; what it does while it owns the mutex is one step here, since no other
  thread looks at the free list of the heap meanwhile.
\<close>

section \<open>The core allocator\<close>

abbreviation (input) MEM_ALIGN_SIZE :: size_t where "MEM_ALIGN_SIZE \<equiv> 8"
abbreviation (input) MEM_ALIGN_MASK :: size_t where "MEM_ALIGN_MASK \<equiv> 7"

definition MEM_ALIGN_PREV :: "size_t \<Rightarrow> size_t" where
  "MEM_ALIGN_PREV p = p AND NOT MEM_ALIGN_MASK"

definition MEM_ALIGN_NEXT :: "size_t \<Rightarrow> size_t" where
  "MEM_ALIGN_NEXT p = MEM_ALIGN_PREV (p + MEM_ALIGN_MASK)"

definition MEM_IS_ALIGNED :: "size_t \<Rightarrow> bool" where
  "MEM_IS_ALIGNED p \<longleftrightarrow> p AND MEM_ALIGN_MASK = 0"

definition core_init :: "addr \<Rightarrow> addr \<Rightarrow> kstate \<Rightarrow> kstate" where
  "core_init heap_base heap_end s = s\<lparr>nextmem := MEM_ALIGN_NEXT heap_base, endmem := MEM_ALIGN_PREV heap_end\<rparr>"

definition chCoreAllocI :: "size_t \<Rightarrow> kstate \<Rightarrow> addr \<times> kstate" where
  "chCoreAllocI sz s =
     (let sz = MEM_ALIGN_NEXT sz
      in if endmem s - nextmem s < sz then (NULL, s)
         else (nextmem s, s\<lparr>nextmem := nextmem s + sz\<rparr>))"

definition chCoreAlloc :: "size_t \<Rightarrow> kstate \<Rightarrow> addr \<times> kstate" where
  "chCoreAlloc sz s = chCoreAllocI sz s"

definition chCoreStatus :: "kstate \<Rightarrow> size_t" where
  "chCoreStatus s = endmem s - nextmem s"

text \<open>A call through a pointer to a memory provider; those of the application are a parameter.\<close>

definition call_provider ::
  "(addr \<Rightarrow> size_t \<Rightarrow> kstate \<Rightarrow> addr \<times> kstate) \<Rightarrow> memgetfunc \<Rightarrow> size_t \<Rightarrow> kstate \<Rightarrow> addr \<times> kstate" where
  "call_provider user f sz s =
     (case f of
        CoreAlloc \<Rightarrow> chCoreAlloc sz s
      | CoreAllocI \<Rightarrow> chCoreAllocI sz s
      | UserAlloc a \<Rightarrow> user a sz s)"

section \<open>Memory pools\<close>

definition upd_pool :: "addr \<Rightarrow> (MemoryPool \<Rightarrow> MemoryPool) \<Rightarrow> kstate \<Rightarrow> kstate" where
  [simp]: "upd_pool a f s = s\<lparr>pools := (pools s)(a := f (pools s a))\<rparr>"

definition ph_next :: "kstate \<Rightarrow> addr \<Rightarrow> addr" where
  "ph_next s a = mem32 s a"

definition chPoolInit :: "addr \<Rightarrow> size_t \<Rightarrow> memgetfunc option \<Rightarrow> kstate \<Rightarrow> kstate" where
  "chPoolInit mp sz provider s =
     upd_pool mp (\<lambda>_. \<lparr>mp_next = NULL, mp_object_size = sz, mp_provider = provider\<rparr>) s"

definition chPoolAllocI ::
  "(addr \<Rightarrow> size_t \<Rightarrow> kstate \<Rightarrow> addr \<times> kstate) \<Rightarrow> addr \<Rightarrow> kstate \<Rightarrow> addr \<times> kstate" where
  "chPoolAllocI user mp s =
     (let objp = mp_next (pools s mp)
      in if objp \<noteq> NULL then (objp, upd_pool mp (\<lambda>p. p\<lparr>mp_next := ph_next s (mp_next p)\<rparr>) s)
         else case mp_provider (pools s mp) of
                Some f \<Rightarrow> call_provider user f (mp_object_size (pools s mp)) s
              | None \<Rightarrow> (objp, s))"

definition chPoolAlloc ::
  "(addr \<Rightarrow> size_t \<Rightarrow> kstate \<Rightarrow> addr \<times> kstate) \<Rightarrow> addr \<Rightarrow> kstate \<Rightarrow> addr \<times> kstate" where
  "chPoolAlloc user mp s = chPoolAllocI user mp s"

definition chPoolFreeI :: "addr \<Rightarrow> addr \<Rightarrow> kstate \<Rightarrow> kstate" where
  "chPoolFreeI mp objp s =
     upd_pool mp (\<lambda>p. p\<lparr>mp_next := objp\<rparr>) (set32 objp (mp_next (pools s mp)) s)"

definition chPoolFree :: "addr \<Rightarrow> addr \<Rightarrow> kstate \<Rightarrow> kstate" where
  "chPoolFree mp objp s = chPoolFreeI mp objp s"

definition chPoolAdd :: "addr \<Rightarrow> addr \<Rightarrow> kstate \<Rightarrow> kstate" where
  "chPoolAdd mp objp s = chPoolFree mp objp s"

definition chPoolAddI :: "addr \<Rightarrow> addr \<Rightarrow> kstate \<Rightarrow> kstate" where
  "chPoolAddI mp objp s = chPoolFreeI mp objp s"

fun pool_load_loop :: "addr \<Rightarrow> addr \<Rightarrow> nat \<Rightarrow> kstate \<Rightarrow> kstate" where
  "pool_load_loop mp p 0 s = s"
| "pool_load_loop mp p (Suc n) s =
     (let s1 = chPoolAdd mp p s
      in pool_load_loop mp (p + mp_object_size (pools s1 mp)) n s1)"

definition chPoolLoadArray :: "addr \<Rightarrow> addr \<Rightarrow> size_t \<Rightarrow> kstate \<Rightarrow> kstate" where
  "chPoolLoadArray mp p n s = pool_load_loop mp p (unat n) s"

section \<open>Heaps\<close>

text \<open>
  A block header is eight bytes: the link to the next free block, or to the heap of an allocated
  block, and the size of the block behind it.  A heap descriptor holds such a header, \<open>h_free\<close>.
\<close>

abbreviation (input) HEADER :: size_t where "HEADER \<equiv> 8"

definition h_next :: "kstate \<Rightarrow> addr \<Rightarrow> addr" where
  "h_next s a = mem32 s a"

definition h_size :: "kstate \<Rightarrow> addr \<Rightarrow> size_t" where
  "h_size s a = mem32 s (a + 4)"

definition set_next_block :: "addr \<Rightarrow> addr \<Rightarrow> kstate \<Rightarrow> kstate" where
  "set_next_block a v s = set32 a v s"

definition set_size :: "addr \<Rightarrow> size_t \<Rightarrow> kstate \<Rightarrow> kstate" where
  "set_size a v s = set32 (a + 4) v s"

definition h_free :: "addr \<Rightarrow> addr" where "h_free heapp = heapp + 8"
definition h_mtx :: "addr \<Rightarrow> addr" where "h_mtx heapp = heapp + 16"

definition heap_init :: "kstate \<Rightarrow> kstate" where
  "heap_init s =
     (let h = default_heap s;
          s1 = s\<lparr>h_provider := (h_provider s)(h := Some CoreAlloc)\<rparr>
      in chMtxInit (h_mtx h) (set_size (h_free h) 0 (set_next_block (h_free h) NULL s1)))"

definition chHeapInit :: "addr \<Rightarrow> addr \<Rightarrow> size_t \<Rightarrow> kstate \<Rightarrow> kstate" where
  "chHeapInit heapp buf sz s =
     (let s1 = s\<lparr>h_provider := (h_provider s)(heapp := None)\<rparr>;
          s2 = set_size (h_free heapp) 0 (set_next_block (h_free heapp) buf s1);
          s3 = set_size buf (sz - HEADER) (set_next_block buf NULL s2)
      in chMtxInit (h_mtx heapp) s3)"

text \<open>A loop that never ends, with the kernel unlocked.\<close>

primcorec spin :: "kstate \<Rightarrow> 'a run" where
  "spin s = Unlock s spin"

text \<open>The first free block that is big enough, and the header that links it.\<close>

partial_function (option) heap_find :: "kstate \<Rightarrow> size_t \<Rightarrow> addr \<Rightarrow> (addr \<times> addr) option" where
  "heap_find s sz qp =
     (let hp = h_next s qp
      in if hp = NULL then Some (qp, NULL)
         else if h_size s hp \<ge> sz then Some (qp, hp)
         else heap_find s sz hp)"

definition heap_take :: "addr \<Rightarrow> size_t \<Rightarrow> addr \<Rightarrow> addr \<Rightarrow> kstate \<Rightarrow> kstate" where
  "heap_take heapp sz qp hp s =
     (let s1 = (if h_size s hp < sz + HEADER then set_next_block qp (h_next s hp) s
                else let fp = hp + HEADER + sz;
                         s2 = set_next_block fp (h_next s hp) s;
                         s3 = set_size fp (h_size s2 hp - HEADER - sz) s2;
                         s4 = set_next_block qp fp s3
                     in set_size hp sz s4)
      in set_next_block hp heapp s1)"

text \<open>What an allocation does while it owns the mutex; a null address if no block is big enough.\<close>

definition heap_alloc_locked :: "addr \<Rightarrow> size_t \<Rightarrow> kstate \<Rightarrow> (addr \<times> kstate) option" where
  "heap_alloc_locked heapp sz s =
     (case heap_find s sz (h_free heapp) of
        None \<Rightarrow> None
      | Some (qp, hp) \<Rightarrow> Some (hp, if hp \<noteq> NULL then heap_take heapp sz qp hp s else s))"

text \<open>Memory from the provider of the heap, if it has one.\<close>

definition heap_more ::
  "(addr \<Rightarrow> size_t \<Rightarrow> kstate \<Rightarrow> addr \<times> kstate) \<Rightarrow> addr \<Rightarrow> size_t \<Rightarrow> kstate \<Rightarrow> addr run" where
  "heap_more user heapp sz s =
     (case h_provider s heapp of
        None \<Rightarrow> Done NULL s
      | Some f \<Rightarrow>
          (let (hp, s1) = call_provider user f (sz + HEADER) s
           in if hp \<noteq> NULL then Done (hp + HEADER) (set_size hp sz (set_next_block hp heapp s1))
              else Done NULL s1))"

definition chHeapAlloc ::
  "(addr \<Rightarrow> size_t \<Rightarrow> kstate \<Rightarrow> addr \<times> kstate) \<Rightarrow> addr \<Rightarrow> size_t \<Rightarrow> kstate \<Rightarrow> addr run" where
  "chHeapAlloc user heapp sz s =
     (let heapp = (if heapp = NULL then default_heap s else heapp);
          sz = MEM_ALIGN_NEXT sz
      in rbind (chMtxLock (h_mtx heapp) s) (\<lambda>_ s1. Unlock s1 (\<lambda>s2.
           case heap_alloc_locked heapp sz s2 of
             None \<Rightarrow> spin s2
           | Some (hp, s3) \<Rightarrow> rbind (chMtxUnlock s3) (\<lambda>_ s4.
               if hp \<noteq> NULL then Done (hp + HEADER) s4
               else Unlock s4 (heap_more user heapp sz)))))"

definition LIMIT :: "kstate \<Rightarrow> addr \<Rightarrow> addr" where
  "LIMIT s p = p + HEADER + h_size s p"

text \<open>The header after which a block is inserted.\<close>

partial_function (option) heap_place :: "kstate \<Rightarrow> addr \<Rightarrow> addr \<Rightarrow> addr \<Rightarrow> addr option" where
  "heap_place s hdr hp qp =
     (if (qp = hdr \<or> hp > qp) \<and> (h_next s qp = NULL \<or> hp < h_next s qp) then Some qp
      else heap_place s hdr hp (h_next s qp))"

definition heap_insert :: "addr \<Rightarrow> addr \<Rightarrow> kstate \<Rightarrow> kstate" where
  "heap_insert qp hp s =
     (let s1 = set_next_block qp hp (set_next_block hp (h_next s qp) s);
          s2 = (if LIMIT s1 hp = h_next s1 hp
                then let s' = set_size hp (h_size s1 hp + (h_size s1 (h_next s1 hp) + HEADER)) s1
                     in set_next_block hp (h_next s' (h_next s' hp)) s'
                else s1)
      in if LIMIT s2 qp = hp
         then let s' = set_size qp (h_size s2 qp + (h_size s2 hp + HEADER)) s2
              in set_next_block qp (h_next s' hp) s'
         else s2)"

definition heap_free_locked :: "addr \<Rightarrow> addr \<Rightarrow> kstate \<Rightarrow> kstate option" where
  "heap_free_locked heapp hp s =
     (case heap_place s (h_free heapp) hp (h_free heapp) of
        None \<Rightarrow> None
      | Some qp \<Rightarrow> Some (heap_insert qp hp s))"

definition chHeapFree :: "addr \<Rightarrow> kstate \<Rightarrow> unit run" where
  "chHeapFree p s =
     (let hp = p - HEADER;
          heapp = h_next s hp
      in rbind (chMtxLock (h_mtx heapp) s) (\<lambda>_ s1. Unlock s1 (\<lambda>s2.
           case heap_free_locked heapp hp s2 of
             None \<Rightarrow> spin s2
           | Some s3 \<Rightarrow> rbind (chMtxUnlock s3) (\<lambda>_ s4. Done () s4))))"

partial_function (option) heap_count :: "kstate \<Rightarrow> addr \<Rightarrow> size_t \<Rightarrow> size_t \<Rightarrow> (size_t \<times> size_t) option" where
  "heap_count s qp n tot =
     (if h_next s qp \<noteq> NULL then heap_count s (h_next s qp) (n + 1) (tot + h_size s (h_next s qp))
      else Some (n, tot))"

definition chHeapStatus :: "addr \<Rightarrow> addr \<Rightarrow> kstate \<Rightarrow> size_t run" where
  "chHeapStatus heapp sizep s =
     (let heapp = (if heapp = NULL then default_heap s else heapp)
      in rbind (chMtxLock (h_mtx heapp) s) (\<lambda>_ s1. Unlock s1 (\<lambda>s2.
           case heap_count s2 (h_free heapp) 0 0 of
             None \<Rightarrow> spin s2
           | Some (n, tot) \<Rightarrow>
               rbind (chMtxUnlock (if sizep \<noteq> NULL then set32 sizep tot s2 else s2)) (\<lambda>_ s3. Done n s3))))"

section \<open>Alignment\<close>

lemma align_prev_bits: "MEM_ALIGN_PREV p = push_bit 3 (drop_bit 3 p)"
proof -
  have m: "(7 :: size_t) = mask 3" by (simp add: mask_eq_decr_exp numeral_eq_Suc)
  show ?thesis
    unfolding MEM_ALIGN_PREV_def m
    by (rule bit_eqI) (auto simp: bit_and_iff bit_not_iff bit_mask_iff bit_push_bit_iff bit_drop_bit_eq)
qed

lemma unat_align_prev: "unat (MEM_ALIGN_PREV p) = 8 * (unat p div 8)"
proof -
  have lt: "8 * (unat p div 8) < 4294967296" using u32_lt [of p] by linarith
  have "MEM_ALIGN_PREV p = 8 * (p div 8)"
    by (simp add: align_prev_bits push_bit_eq_mult drop_bit_eq_div mult.commute)
  moreover have "unat (p div 8) = unat p div 8" by (simp add: unat_div)
  ultimately show ?thesis using lt by (simp add: unat_word_ariths(2))
qed

text \<open>Rounding up goes wrong for the seven greatest sizes: it gives zero.\<close>

lemma unat_align_next:
  "unat (MEM_ALIGN_NEXT p) = (if unat p \<le> 4294967288 then 8 * ((unat p + 7) div 8) else 0)"
proof (cases "unat p \<le> 4294967288")
  case True
  then have "unat (p + 7) = unat p + 7" by (simp add: unat_add32)
  then show ?thesis using True by (simp add: MEM_ALIGN_NEXT_def unat_align_prev)
next
  case False
  have "unat (p + 7) = (unat p + 7) mod 4294967296" by (simp add: unat_word_ariths)
  also have "\<dots> = unat p + 7 - 4294967296" using False u32_lt [of p] by (simp add: le_mod_geq)
  finally have "unat (p + 7) = unat p + 7 - 4294967296" .
  moreover have "(unat p + 7 - 4294967296) div 8 = 0" using u32_lt [of p] by (intro div_less) simp
  ultimately show ?thesis unfolding MEM_ALIGN_NEXT_def unat_align_prev if_not_P [OF False] by (simp only: mult_0_right)
qed

section \<open>Properties of the core allocator\<close>

definition core_ok :: "kstate \<Rightarrow> bool" where
  "core_ok s \<longleftrightarrow> nextmem s \<le> endmem s \<and> unat (nextmem s) mod 8 = 0 \<and> unat (endmem s) mod 8 = 0"

lemma core_alloc_rounded:
  assumes ok: "core_ok s" and r: "chCoreAllocI sz s = (p, s')" and n: "n = unat (MEM_ALIGN_NEXT sz)"
  shows "core_ok s'"
    and "if n \<le> unat (chCoreStatus s)
      then p = nextmem s \<and> unat p mod 8 = 0 \<and> unat p + n \<le> unat (endmem s) \<and>
        s' = s\<lparr>nextmem := p + of_nat n\<rparr> \<and> unat (chCoreStatus s') = unat (chCoreStatus s) - n
      else p = NULL \<and> s' = s"
proof -
  have le: "nextmem s \<le> endmem s" and al: "unat (nextmem s) mod 8 = 0" "unat (endmem s) mod 8 = 0"
    using ok by (simp_all add: core_ok_def)
  have st: "unat (chCoreStatus s) = unat (endmem s) - unat (nextmem s)" using le by (simp add: chCoreStatus_def unat_sub)
  have nn: "MEM_ALIGN_NEXT sz = of_nat n" by (simp add: n)
  have un: "unat (of_nat n :: size_t) = n" by (simp add: nn [symmetric] n)
  have e: "chCoreAllocI sz s = (if unat (chCoreStatus s) < n then (NULL, s) else (nextmem s, s\<lparr>nextmem := nextmem s + of_nat n\<rparr>))"
    unfolding chCoreAllocI_def Let_def word_less_nat_alt n [symmetric] chCoreStatus_def [symmetric] nn un by simp
  have "core_ok s' \<and> (if n \<le> unat (chCoreStatus s)
      then p = nextmem s \<and> unat p mod 8 = 0 \<and> unat p + n \<le> unat (endmem s) \<and>
        s' = s\<lparr>nextmem := p + of_nat n\<rparr> \<and> unat (chCoreStatus s') = unat (chCoreStatus s) - n
      else p = NULL \<and> s' = s)"
  proof (cases "n \<le> unat (chCoreStatus s)")
    case False
    then show ?thesis using r ok unfolding e by simp
  next
    case True
    then have p: "p = nextmem s" "s' = s\<lparr>nextmem := nextmem s + of_nat n\<rparr>" using r unfolding e by auto
    have sum: "unat (nextmem s) + n \<le> unat (endmem s)" using True st le by (simp add: word_nat)
    have u: "unat (nextmem s + of_nat n) = unat (nextmem s) + n"
      using u32_lt [of "endmem s"] sum un by (subst unat_add32) simp_all
    have n8: "n mod 8 = 0" unfolding n unat_align_next by simp
    have "(unat (nextmem s) + n) mod 8 = 0" using al n8 by (simp add: mod_add_eq [symmetric])
    then have "core_ok s'" using sum u al by (simp add: p core_ok_def word_nat)
    moreover have "unat (chCoreStatus s') = unat (chCoreStatus s) - n"
      using u sum st by (simp add: p chCoreStatus_def unat_sub word_nat)
    ultimately show ?thesis using True p sum al by simp
  qed
  then show "core_ok s'" "if n \<le> unat (chCoreStatus s)
      then p = nextmem s \<and> unat p mod 8 = 0 \<and> unat p + n \<le> unat (endmem s) \<and>
        s' = s\<lparr>nextmem := p + of_nat n\<rparr> \<and> unat (chCoreStatus s') = unat (chCoreStatus s) - n
      else p = NULL \<and> s' = s" by blast+
qed

text \<open>
  C22: the core allocator.  A request of at most \<open>4294967288 = 2^32 - 8\<close> bytes is granted exactly when its size,
  rounded up to a multiple of eight, fits into the memory left; the block is then the first part
  of that memory, aligned, and the memory left shrinks by exactly the block; a refused request
  changes nothing.  A greater request, which no memory can satisfy, is not refused: its rounded
  size wraps around to zero, and the address of a block of no bytes is returned.
\<close>

theorem core_alloc_exact:
  assumes ok: "core_ok s" and r: "chCoreAllocI sz s = (p, s')"
  shows "core_ok s' \<and>
    (if unat sz \<le> 4294967288
     then let need = 8 * ((unat sz + 7) div 8)
          in if need \<le> unat (chCoreStatus s)
             then p = nextmem s \<and> unat p mod 8 = 0 \<and> unat p + need \<le> unat (endmem s) \<and>
               s' = s\<lparr>nextmem := p + of_nat need\<rparr> \<and> unat (chCoreStatus s') = unat (chCoreStatus s) - need
             else p = NULL \<and> s' = s
     else p = nextmem s \<and> s' = s)"
proof (cases "unat sz \<le> 4294967288")
  case True
  then have n: "8 * ((unat sz + 7) div 8) = unat (MEM_ALIGN_NEXT sz)" unfolding unat_align_next by simp
  show ?thesis unfolding Let_def n if_P [OF True] using core_alloc_rounded [OF ok r refl] by blast
next
  case False
  then have "0 = unat (MEM_ALIGN_NEXT sz)" unfolding unat_align_next by simp
  from core_alloc_rounded [OF ok r this] show ?thesis unfolding if_not_P [OF False] by simp
qed

theorem core_alloc_exact_witness:
  "core_ok sample \<and> fst (chCoreAllocI 13 sample) = 32768 \<and> nextmem (snd (chCoreAllocI 13 sample)) = 32784"
proof -
  have c: "chCoreStatus sample = 4096" "nextmem sample = 32768" "endmem sample = 36864"
    by (simp_all add: chCoreStatus_def sample_def)
  then have ok: "core_ok sample" by (simp add: core_ok_def)
  obtain p s' where r: "chCoreAllocI 13 sample = (p, s')" by force
  have "p = 32768 \<and> s' = sample\<lparr>nextmem := p + 16\<rparr>"
    using core_alloc_exact [OF ok r] unfolding c Let_def by simp
  then have "fst (chCoreAllocI 13 sample) = 32768" "nextmem (snd (chCoreAllocI 13 sample)) = 32784"
    unfolding r by simp_all
  then show ?thesis using ok by blast
qed

section \<open>Free lists\<close>

type_synonym block = "addr \<times> size_t"

text \<open>
  \<open>hseg m q bs e\<close>: from the header \<open>q\<close> the links lead through the blocks \<open>bs\<close>, which have the
  sizes given, to \<open>e\<close>.
\<close>

fun first_of :: "block list \<Rightarrow> addr \<Rightarrow> addr" where
  "first_of [] e = e"
| "first_of ((a, n) # bs) e = a"

fun seg :: "(addr \<Rightarrow> u32) \<Rightarrow> block list \<Rightarrow> addr \<Rightarrow> bool" where
  "seg m [] e \<longleftrightarrow> True"
| "seg m ((a, n) # bs) e \<longleftrightarrow> a \<noteq> NULL \<and> m (a + 4) = n \<and> m a = first_of bs e \<and> seg m bs e"

definition hseg :: "(addr \<Rightarrow> u32) \<Rightarrow> addr \<Rightarrow> block list \<Rightarrow> addr \<Rightarrow> bool" where
  "hseg m q bs e \<longleftrightarrow> m q = first_of bs e \<and> seg m bs e"

definition lnk :: "addr \<Rightarrow> block list \<Rightarrow> addr" where
  "lnk q bs = (if bs = [] then q else fst (last bs))"

fun cells :: "block list \<Rightarrow> addr set" where
  "cells [] = {}"
| "cells ((a, n) # bs) = {a, a + 4} \<union> cells bs"

lemma first_of_append: "first_of (xs @ ys) e = first_of xs (first_of ys e)"
  by (induction xs rule: cells.induct) auto

lemma seg_append: "seg m (xs @ ys) e \<longleftrightarrow> seg m xs (first_of ys e) \<and> seg m ys e"
  by (induction xs arbitrary: e rule: cells.induct) (auto simp: first_of_append)

lemma hseg_append: "hseg m q (xs @ ys) e \<longleftrightarrow> hseg m q xs (first_of ys e) \<and> seg m ys e"
  by (auto simp: hseg_def first_of_append seg_append)

lemma cells_append [simp]: "cells (xs @ ys) = cells xs \<union> cells ys"
  by (induction xs rule: cells.induct) auto

lemma seg_frame: "(\<And>x. x \<in> cells bs \<Longrightarrow> m' x = m x) \<Longrightarrow> seg m' bs e = seg m bs e"
  by (induction bs rule: cells.induct) auto

lemma hseg_frame: "(\<And>x. x \<in> insert q (cells bs) \<Longrightarrow> m' x = m x) \<Longrightarrow> hseg m' q bs e = hseg m q bs e"
  using seg_frame [of bs m' m] by (auto simp: hseg_def)

text \<open>Two headers do not overlap.\<close>

definition apart :: "addr \<Rightarrow> block list \<Rightarrow> bool" where
  "apart q bs \<longleftrightarrow> {q, q + 4} \<inter> cells bs = {}"

fun aparts :: "block list \<Rightarrow> bool" where
  "aparts [] \<longleftrightarrow> True"
| "aparts ((a, n) # bs) \<longleftrightarrow> apart a bs \<and> aparts bs"

lemma aparts_append:
  "aparts (xs @ ys) \<longleftrightarrow> aparts xs \<and> aparts ys \<and> cells xs \<inter> cells ys = {}"
  by (induction xs rule: cells.induct) (auto simp: apart_def)

lemma lnk_cell: "bs \<noteq> [] \<Longrightarrow> lnk q bs \<in> cells bs"
proof (cases bs rule: rev_cases)
  case (snoc ys y)
  then show ?thesis by (cases y) (simp add: lnk_def)
qed simp

lemma hseg_relink:
  assumes "hseg m q bs e" and "apart q bs" and "aparts bs"
  shows "hseg (m(lnk q bs := e')) q bs e'"
proof (cases bs rule: rev_cases)
  case Nil
  then show ?thesis by (simp add: hseg_def lnk_def)
next
  case (snoc ys y)
  obtain b k where y: "y = (b, k)" by force
  have "q \<noteq> b" "b \<notin> cells ys" "b + 4 \<noteq> b"
    using assms snoc y by (auto simp: apart_def aparts_append)
  moreover from this have "seg (m(b := e')) ys x = seg m ys x" for x by (intro seg_frame) auto
  moreover have "first_of ys x = first_of ys x'" if "ys \<noteq> []" for x x' using that by (cases ys) auto
  ultimately show ?thesis
    using assms(1) snoc y by (cases ys rule: cells.cases) (simp_all add: hseg_def lnk_def seg_append first_of_append)
qed

section \<open>The walks\<close>

lemma heap_find_hseg:
  assumes "hseg (mem32 s) q bs NULL"
  shows "heap_find s sz q = Some (lnk q (takeWhile (\<lambda>b. snd b < sz) bs), first_of (dropWhile (\<lambda>b. snd b < sz) bs) NULL)"
  using assms
proof (induction bs arbitrary: q rule: cells.induct)
  case 1
  then show ?case by (subst heap_find.simps) (simp add: hseg_def h_next_def lnk_def)
next
  case (2 a n bs)
  have h: "mem32 s q = a" "a \<noteq> NULL" "mem32 s (a + 4) = n" "hseg (mem32 s) a bs NULL"
    using "2.prems" by (auto simp: hseg_def)
  show ?case
  proof (cases "n < sz")
    case True
    then have "\<not> sz \<le> n" by simp
    then have "heap_find s sz q = heap_find s sz a"
      using h by (subst heap_find.simps) (simp add: h_next_def h_size_def Let_def)
    then show ?thesis using True "2.IH" [OF h(4)] by (auto simp: lnk_def)
  next
    case False
    then have "sz \<le> n" by simp
    then have "heap_find s sz q = Some (q, a)"
      using h by (subst heap_find.simps) (simp add: h_next_def h_size_def Let_def)
    then show ?thesis using False by (simp add: lnk_def)
  qed
qed

lemma heap_place_hseg:
  assumes "hseg (mem32 s) q bs NULL" and "q = hdr \<or> q < hp"
    and "sorted_wrt (<) (map fst bs)" and "hp \<notin> fst ` set bs"
  shows "heap_place s hdr hp q = Some (lnk q (takeWhile (\<lambda>b. fst b < hp) bs))"
  using assms
proof (induction bs arbitrary: q rule: cells.induct)
  case 1
  then show ?case by (subst heap_place.simps) (auto simp: hseg_def h_next_def lnk_def)
next
  case (2 a n bs)
  have h: "mem32 s q = a" "a \<noteq> NULL" "hseg (mem32 s) a bs NULL"
    using "2.prems" by (auto simp: hseg_def)
  have so: "sorted_wrt (<) (map fst bs)" "hp \<notin> fst ` set bs" "a \<noteq> hp" using "2.prems" by auto
  have nx: "h_next s q = a" using h(1) by (simp add: h_next_def)
  show ?case
  proof (cases "a < hp")
    case True
    then have "\<not> hp < a" by simp
    then have "heap_place s hdr hp q = heap_place s hdr hp a"
      by (subst heap_place.simps) (simp add: nx h(2))
    also have "\<dots> = Some (lnk a (takeWhile (\<lambda>b. fst b < hp) bs))"
      by (rule "2.IH" [OF h(3) _ so(1,2)]) (simp add: True)
    finally show ?thesis using True by (simp add: lnk_def)
  next
    case False
    then have "hp < a" using so(3) by simp
    then have "heap_place s hdr hp q = Some q"
      using "2.prems"(2) by (subst heap_place.simps) (simp add: nx)
    then show ?thesis using False by (simp add: lnk_def)
  qed
qed

section \<open>Well-formed free lists\<close>

text \<open>
  Blocks are aligned, end below \<open>2^32\<close>, and lie in increasing order with a gap between any two,
  since adjacent free blocks are merged.  The header of the heap, with the mutex behind it, is
  in no block.
\<close>

fun block_ok :: "block \<Rightarrow> bool" where
  "block_ok (a, n) \<longleftrightarrow> a \<noteq> NULL \<and> unat a mod 8 = 0 \<and> unat n mod 8 = 0 \<and> unat a + 8 + unat n < 4294967296"

fun before :: "block \<Rightarrow> block \<Rightarrow> bool" where
  "before (a, n) (b, k) \<longleftrightarrow> unat a + 8 + unat n < unat b"

fun clear_of :: "addr \<Rightarrow> block \<Rightarrow> bool" where
  "clear_of hdr (a, n) \<longleftrightarrow> unat hdr + 8 < unat a \<or> unat a + 8 + unat n \<le> unat hdr"

definition spaced :: "block list \<Rightarrow> bool" where
  "spaced bs \<longleftrightarrow> (\<forall>b\<in>set bs. block_ok b) \<and> sorted_wrt before bs"

definition free_list :: "addr \<Rightarrow> (addr \<Rightarrow> u32) \<Rightarrow> block list \<Rightarrow> bool" where
  "free_list heapp m bs \<longleftrightarrow> hseg m (h_free heapp) bs NULL \<and> m (h_free heapp + 4) = 0 \<and> spaced bs \<and>
     (\<forall>b\<in>set bs. clear_of (h_free heapp) b) \<and> unat (h_free heapp) + 8 < 4294967296"

lemma unat_plus4: "unat a + 8 + k < 4294967296 \<Longrightarrow> unat (a + 4 :: addr) = unat a + 4"
  by (subst unat_add32) simp_all

lemma cells_block:
  assumes "x \<in> cells bs" and "\<forall>b\<in>set bs. block_ok b"
  obtains a n where "(a, n) \<in> set bs" and "unat x = unat a \<or> unat x = unat a + 4"
  using assms
proof (induction bs arbitrary: thesis rule: cells.induct)
  case (2 a n bs)
  show ?case
  proof (cases "x \<in> cells bs")
    case True
    then show ?thesis using "2.IH" "2.prems" by auto
  next
    case False
    then have "x = a \<or> x = a + 4" using "2.prems" by auto
    then have "unat x = unat a \<or> unat x = unat a + 4" using "2.prems"(3) unat_plus4 [of a "unat n"] by auto
    then show ?thesis using "2.prems"(1) [of a n] by simp
  qed
qed simp

text \<open>No header of a list of blocks lies within a block that is disjoint from them all.\<close>

fun disjoint :: "block \<Rightarrow> block \<Rightarrow> bool" where
  "disjoint (a, n) (b, k) \<longleftrightarrow> unat a + 8 + unat n \<le> unat b \<or> unat b + 8 + unat k \<le> unat a"

lemma cells_disjoint:
  assumes "\<forall>b\<in>set bs. block_ok b \<and> disjoint (a, n) b" and "unat a \<le> unat x" and "unat x < unat a + 8 + unat n"
  shows "x \<notin> cells bs"
proof
  assume "x \<in> cells bs"
  then obtain b k where b: "(b, k) \<in> set bs" "unat x = unat b \<or> unat x = unat b + 4"
    using assms(1) by (elim cells_block) auto
  then have "disjoint (a, n) (b, k)" using assms(1) by blast
  then show False using b(2) assms(2,3) by auto
qed

lemma before_disjoint: "before x y \<Longrightarrow> disjoint x y" "before x y \<Longrightarrow> disjoint y x"
  by (cases x; cases y; auto)+

lemma apart_disjoint:
  assumes ok: "block_ok (a, n)" and d: "\<forall>b\<in>set bs. block_ok b \<and> disjoint (a, n) b"
  shows "apart a bs"
proof -
  have "unat (a + 4) = unat a + 4" using ok unat_plus4 [of a "unat n"] by simp
  then show ?thesis using cells_disjoint [OF d, of a] cells_disjoint [OF d, of "a + 4"] by (simp add: apart_def)
qed

lemma spaced_Cons: "spaced (x # bs) \<longleftrightarrow> block_ok x \<and> (\<forall>b\<in>set bs. before x b) \<and> spaced bs"
  by (auto simp: spaced_def)

lemma spaced_append:
  "spaced (xs @ ys) \<longleftrightarrow> spaced xs \<and> spaced ys \<and> (\<forall>x\<in>set xs. \<forall>y\<in>set ys. before x y)"
  by (auto simp: spaced_def sorted_wrt_append)

lemma spaced_aparts: "spaced bs \<Longrightarrow> aparts bs"
proof (induction bs rule: cells.induct)
  case (2 a n bs)
  then have "\<forall>b\<in>set bs. block_ok b \<and> disjoint (a, n) b"
    by (auto simp: spaced_Cons spaced_def intro: before_disjoint simp del: before.simps disjoint.simps)
  then show ?case using 2 apart_disjoint [of a n bs] by (simp add: spaced_Cons del: block_ok.simps)
qed simp

lemma hdr_apart:
  assumes "\<forall>b\<in>set bs. block_ok b \<and> clear_of hdr b" and "unat hdr + 8 < 4294967296"
  shows "apart hdr bs"
proof -
  have u: "unat (hdr + 4) = unat hdr + 4" using assms(2) unat_plus4 [of hdr 0] by simp
  have "\<forall>b\<in>set bs. block_ok b \<and> disjoint (hdr, 0) b"
  proof
    fix b assume b: "b \<in> set bs"
    obtain a n where ab: "b = (a, n)" by force
    have "block_ok b" "clear_of hdr b" using assms(1) b by blast+
    then show "block_ok b \<and> disjoint (hdr, 0) b" unfolding ab by auto
  qed
  from cells_disjoint [OF this, of hdr] cells_disjoint [OF this, of "hdr + 4"] show ?thesis
    by (simp add: apart_def u)
qed

lemma spaced_sorted: "spaced bs \<Longrightarrow> sorted_wrt (<) (map fst bs)"
proof (induction bs rule: cells.induct)
  case (2 a n bs)
  have "a < fst b" if "b \<in> set bs" for b
  proof -
    have "before (a, n) b" using 2 that by (simp add: spaced_Cons del: before.simps)
    then show ?thesis by (cases b) (simp add: word_nat)
  qed
  then show ?case using 2 by (simp add: spaced_Cons)
qed simp

lemma lnk_in: "lnk q bs \<in> insert q (cells bs)"
  using lnk_cell [of bs q] by (cases "bs = []") (auto simp: lnk_def)

section \<open>Allocation\<close>

text \<open>First fit: the block that is taken, and the list without it or with what is left of it.\<close>

definition alloc_blocks :: "size_t \<Rightarrow> block list \<Rightarrow> (block \<times> block list) option" where
  "alloc_blocks sz bs =
     (let pre = takeWhile (\<lambda>b. snd b < sz) bs
      in case dropWhile (\<lambda>b. snd b < sz) bs of
           [] \<Rightarrow> None
         | (a, n) # post \<Rightarrow>
             Some (if unat n < unat sz + 8 then ((a, n), pre @ post)
                   else ((a, sz), pre @ (a + 8 + sz, n - 8 - sz) # post)))"

lemma heap_take_whole:
  assumes h: "hseg m q (pre @ (a, n) # post) NULL" and ap: "apart q (pre @ (a, n) # post)"
    and aps: "aparts (pre @ (a, n) # post)" and m: "m' = m(lnk q pre := m a, a := heapp)"
  shows "hseg m' q (pre @ post) NULL" and "m' (a + 4) = n" and "m' (q + 4) = m (q + 4)"
    and "\<And>x. x \<notin> insert q (cells (pre @ (a, n) # post)) \<Longrightarrow> m' x = m x"
proof -
  have hs: "hseg m q pre a" "seg m post NULL" "m a = first_of post NULL" "m (a + 4) = n"
    using h by (simp_all add: hseg_append)
  have out: "a \<notin> cells pre" "a \<notin> cells post" "a + 4 \<notin> cells pre" "cells pre \<inter> cells post = {}"
    and qa: "q \<noteq> a" "q \<notin> cells pre" "q \<notin> cells post" "q \<noteq> a + 4" "q + 4 \<noteq> a" "q + 4 \<notin> cells pre"
    using ap aps by (auto simp: aparts_append apart_def)
  have l: "lnk q pre \<in> insert q (cells pre)" by (rule lnk_in)
  have r: "hseg (m(lnk q pre := m a)) q pre (m a)"
    using hs(1) ap aps by (intro hseg_relink) (auto simp: aparts_append apart_def)
  have "m' x = (m(lnk q pre := m a)) x" if "x \<in> insert q (cells pre)" for x
    using that out(1) qa(1) unfolding m by auto
  then have "hseg m' q pre (m a) = hseg (m(lnk q pre := m a)) q pre (m a)" by (rule hseg_frame)
  with r have "hseg m' q pre (m a)" by simp
  moreover have "m' x = m x" if "x \<in> cells post" for x
    using that out qa l unfolding m by auto
  then have "seg m' post NULL = seg m post NULL" by (rule seg_frame)
  ultimately show "hseg m' q (pre @ post) NULL" by (simp add: hseg_append hs(2,3))
  show "m' (a + 4) = n" using m hs(4) out qa l by auto
  show "m' (q + 4) = m (q + 4)" using m l qa by auto
  show "m' x = m x" if "x \<notin> insert q (cells (pre @ (a, n) # post))" for x
    using that m l by auto
qed

lemma heap_take_split:
  assumes h: "hseg m q (pre @ (a, n) # post) NULL" and ap: "apart q (pre @ (a, n) # post)"
    and aps: "aparts (pre @ (a, n) # post)"
    and fp: "{fp, fp + 4} \<inter> ({q, q + 4} \<union> cells (pre @ (a, n) # post)) = {}" "fp \<noteq> NULL"
    and m: "m' = m(fp := m a, fp + 4 := k, lnk q pre := fp, a + 4 := sz, a := heapp)"
  shows "hseg m' q (pre @ (fp, k) # post) NULL" and "m' (a + 4) = sz" and "m' (q + 4) = m (q + 4)"
    and "\<And>x. x \<notin> insert q (cells (pre @ (a, n) # post) \<union> {fp, fp + 4}) \<Longrightarrow> m' x = m x"
proof -
  have hs: "hseg m q pre a" "seg m post NULL" "m a = first_of post NULL" "m (a + 4) = n"
    using h by (simp_all add: hseg_append)
  have out: "a \<notin> cells pre" "a \<notin> cells post" "a + 4 \<notin> cells pre" "a + 4 \<notin> cells post" "cells pre \<inter> cells post = {}"
    and qa: "q \<noteq> a" "q \<notin> cells pre" "q \<notin> cells post" "q \<noteq> a + 4" "q + 4 \<noteq> a" "q + 4 \<notin> cells pre" "q + 4 \<noteq> a + 4"
    using ap aps by (auto simp: aparts_append apart_def)
  have l: "lnk q pre \<in> insert q (cells pre)" by (rule lnk_in)
  have r: "hseg (m(lnk q pre := fp)) q pre fp"
    using hs(1) ap aps by (intro hseg_relink) (auto simp: aparts_append apart_def)
  have "m' x = (m(lnk q pre := fp)) x" if "x \<in> insert q (cells pre)" for x
    using that out qa fp unfolding m by auto
  then have "hseg m' q pre fp = hseg (m(lnk q pre := fp)) q pre fp" by (rule hseg_frame)
  with r have "hseg m' q pre fp" by simp
  moreover have "m' x = m x" if "x \<in> cells post" for x
    using that out qa l fp unfolding m by auto
  then have "seg m' post NULL = seg m post NULL" by (rule seg_frame)
  moreover have "m' fp = m a" "m' (fp + 4) = k" using m l out qa fp by auto
  ultimately show "hseg m' q (pre @ (fp, k) # post) NULL" using fp(2) by (simp add: hseg_append hs(2,3))
  show "m' (a + 4) = sz" using m out qa l by auto
  show "m' (q + 4) = m (q + 4)" using m l qa fp by auto
  show "m' x = m x" if "x \<notin> insert q (cells (pre @ (a, n) # post) \<union> {fp, fp + 4})" for x
    using that m l by auto
qed

lemma free_list_apart:
  assumes "free_list heapp m bs"
  shows "apart (h_free heapp) bs" "aparts bs"
  using assms hdr_apart [of bs "h_free heapp"] spaced_aparts [of bs] by (auto simp: free_list_def spaced_def)

text \<open>What is left of a block that is split.\<close>

lemma split_block:
  assumes ok: "block_ok (a, n)" and al: "unat sz mod 8 = 0" and ge: "unat sz + 8 \<le> unat n"
  shows "unat (a + 8 + sz) = unat a + 8 + unat sz" "unat (n - 8 - sz) = unat n - 8 - unat sz"
    "block_ok (a + 8 + sz, n - 8 - sz)" "a + 8 + sz \<noteq> NULL" "block_ok (a, sz)"
proof -
  have b: "unat a mod 8 = 0" "unat n mod 8 = 0" "unat a + 8 + unat n < 4294967296" "a \<noteq> NULL" using ok by simp_all
  have a8: "unat (a + 8) = unat a + 8" using b(3) by (subst unat_add32) simp_all
  show f: "unat (a + 8 + sz) = unat a + 8 + unat sz" using b(3) ge a8 by (subst unat_add32) simp_all
  have n8: "unat (n - 8) = unat n - 8" using ge by (subst unat_sub32) simp_all
  show k: "unat (n - 8 - sz) = unat n - 8 - unat sz" using ge n8 by (subst unat_sub32) simp_all
  show nz: "a + 8 + sz \<noteq> NULL" using f by (auto simp: u32_eq_iff)
  have "(unat n - 8 - unat sz) mod 8 = 0" using b(2) al ge by presburger
  moreover have "(unat a + 8 + unat sz) mod 8 = 0" using b(1) al by presburger
  ultimately show "block_ok (a + 8 + sz, n - 8 - sz)"
    using nz b(3) ge unfolding block_ok.simps f k by simp
  show "block_ok (a, sz)" using b al ge by simp
qed

lemma heap_alloc_locked_spec:
  assumes F: "free_list heapp (mem32 s) bs" and al: "unat sz mod 8 = 0" and r: "alloc_blocks sz bs = Some ((a, n), bs')"
  shows "\<exists>m'. heap_alloc_locked heapp sz s = Some (a, s\<lparr>mem32 := m'\<rparr>) \<and> free_list heapp m' bs' \<and> sz \<le> n \<and>
    block_ok (a, n) \<and> (\<forall>b\<in>set bs'. disjoint (a, n) b) \<and> clear_of (h_free heapp) (a, n) \<and>
    m' a = heapp \<and> m' (a + 4) = n \<and>
    (\<forall>x. x \<notin> insert (h_free heapp) (cells bs \<union> cells bs') \<longrightarrow> m' x = mem32 s x)"
proof -
  let ?q = "h_free heapp" and ?P = "\<lambda>b :: block. snd b < sz" and ?m = "mem32 s"
  define pre where "pre = takeWhile ?P bs"
  obtain a0 n0 post where dr: "dropWhile ?P bs = (a0, n0) # post"
    using r by (auto simp: alloc_blocks_def Let_def split: list.splits)
  have a0: "a0 = a" and res: "if unat n0 < unat sz + 8 then n = n0 \<and> bs' = pre @ post
      else n = sz \<and> bs' = pre @ (a + 8 + sz, n0 - 8 - sz) # post"
    using r dr by (auto simp: alloc_blocks_def Let_def pre_def split: if_splits)
  have bs: "bs = pre @ (a, n0) # post" using takeWhile_dropWhile_id [of ?P bs] dr a0 by (simp add: pre_def)
  have ge: "sz \<le> n0" using dr hd_dropWhile [of ?P bs] by auto
  have fs: "hseg ?m ?q bs NULL" "?m (?q + 4) = 0" "spaced bs" "\<forall>b\<in>set bs. clear_of ?q b" "unat ?q + 8 < 4294967296"
    using F by (simp_all add: free_list_def)
  have ap: "apart ?q bs" "aparts bs" using free_list_apart [OF F] .
  have ok: "block_ok (a, n0)" "clear_of ?q (a, n0)" "a \<noteq> NULL" using fs(3,4) bs by (auto simp: spaced_append spaced_Cons)
  have sz: "unat a + 8 + unat n0 < 4294967296" using ok by simp
  have fnd: "heap_find s sz ?q = Some (lnk ?q pre, a)" using heap_find_hseg [OF fs(1), of sz] dr a0 by (simp add: pre_def)
  have hs: "?m (a + 4) = n0" using fs(1) bs by (simp add: hseg_append)
  have dis: "\<forall>b\<in>set (pre @ post). disjoint (a, n0) b"
    using fs(3) bs by (auto simp: spaced_append spaced_Cons simp del: before.simps disjoint.simps intro: before_disjoint)
  have sp: "spaced (pre @ post)" using fs(3) bs by (simp add: spaced_append spaced_Cons)
  have w8: "unat (sz + 8) = unat sz + 8" using ge sz by (subst unat_add32) (simp_all add: word_nat)
  show ?thesis
  proof (cases "unat n0 < unat sz + 8")
    case True
    let ?m' = "?m(lnk ?q pre := ?m a, a := heapp)"
    have "heap_alloc_locked heapp sz s = Some (a, s\<lparr>mem32 := ?m'\<rparr>)"
      using fnd ok(3) True w8 hs by (simp add: heap_alloc_locked_def heap_take_def set_next_block_def h_size_def h_next_def word_nat)
    moreover note T = heap_take_whole [OF fs(1) [unfolded bs] ap(1) [unfolded bs] ap(2) [unfolded bs] refl, where heapp = heapp]
    have "free_list heapp ?m' bs'"
      using T(1,3) fs sp res True bs by (simp add: free_list_def)
    ultimately show ?thesis
      using T(2) T(4) [folded bs] res True ge ok dis
      by (intro exI [of _ ?m']) (auto simp del: clear_of.simps disjoint.simps block_ok.simps)
  next
    case False
    let ?fp = "a + 8 + sz" and ?k = "n0 - 8 - sz"
    let ?m' = "?m(?fp := ?m a, ?fp + 4 := ?k, lnk ?q pre := ?fp, a + 4 := sz, a := heapp)"
    have g8: "unat sz + 8 \<le> unat n0" using False by simp
    note S = split_block [OF ok(1) al g8]
    have f4: "unat (?fp + 4) = unat ?fp + 4" using S(3) unat_plus4 [of ?fp "unat ?k"] by simp
    have bok: "\<forall>b\<in>set (pre @ post). block_ok b \<and> disjoint (a, n0) b" using dis sp unfolding spaced_def by blast
    have a4: "unat (a + 4) = unat a + 4" and q4: "unat (?q + 4) = unat ?q + 4"
      using sz fs(5) unat_plus4 [of a "unat n0"] unat_plus4 [of ?q 0] by simp_all
    have fc: "x \<notin> {?q, ?q + 4} \<union> cells bs" if x: "x \<in> {?fp, ?fp + 4}" for x
    proof -
      have r: "unat a + 8 \<le> unat x" "unat x < unat a + 8 + unat n0" using x f4 S(1) g8 by auto
      then have "x \<notin> cells (pre @ post)" using cells_disjoint [OF bok, of x] by simp
      moreover have "x \<noteq> a" "x \<noteq> a + 4" using r a4 by (auto simp: u32_eq_iff)
      moreover have "x \<noteq> ?q" "x \<noteq> ?q + 4" using r q4 ok(2) by (auto simp: u32_eq_iff)
      ultimately show ?thesis by (simp add: bs)
    qed
    then have fd: "{?fp, ?fp + 4} \<inter> ({?q, ?q + 4} \<union> cells (pre @ (a, n0) # post)) = {}" unfolding bs by blast
    have "?fp \<noteq> a + 4" "?fp \<noteq> a" using fc by (auto simp: bs)
    then have "heap_alloc_locked heapp sz s = Some (a, s\<lparr>mem32 := ?m'\<rparr>)"
      using fnd ok(3) False w8 hs
      by (simp add: heap_alloc_locked_def heap_take_def set_next_block_def set_size_def h_size_def h_next_def word_nat Let_def)
    moreover note T = heap_take_split [OF fs(1) [unfolded bs] ap(1) [unfolded bs] ap(2) [unfolded bs] fd S(4) refl, where k = ?k and sz = sz and heapp = heapp]
    have new: "spaced (pre @ (?fp, ?k) # post)" "clear_of ?q (?fp, ?k)" "\<forall>b\<in>set (pre @ post). disjoint (a, sz) b"
    proof -
      have "before b (?fp, ?k)" if "b \<in> set pre" for b
      proof -
        have "before b (a, n0)" using fs(3) bs that by (simp add: spaced_append del: before.simps)
        then show ?thesis using S(1) by (cases b) simp
      qed
      moreover have "before (?fp, ?k) b" if "b \<in> set post" for b
      proof -
        have "before (a, n0) b" using fs(3) bs that by (simp add: spaced_append spaced_Cons del: before.simps)
        then show ?thesis using S(1,2) g8 by (cases b) simp
      qed
      ultimately show "spaced (pre @ (?fp, ?k) # post)"
        using sp S(3) by (auto simp: spaced_append spaced_Cons simp del: before.simps block_ok.simps)
      show "clear_of ?q (?fp, ?k)" using ok(2) S(1,2) g8 by auto
      show "\<forall>b\<in>set (pre @ post). disjoint (a, sz) b"
      proof
        fix b assume "b \<in> set (pre @ post)"
        then have "disjoint (a, n0) b" using dis by blast
        then show "disjoint (a, sz) b" using ge by (cases b) (auto simp: word_nat)
      qed
    qed
    have "free_list heapp ?m' (pre @ (?fp, ?k) # post)"
      using T(1,3) fs new bs by (auto simp: free_list_def simp del: clear_of.simps)
    moreover have "disjoint (a, sz) (?fp, ?k)" "clear_of ?q (a, sz)" using S(1) ok(2) ge by (auto simp: word_nat)
    moreover have "\<forall>x. x \<notin> insert ?q (cells bs \<union> cells (pre @ (?fp, ?k) # post)) \<longrightarrow> ?m' x = ?m x"
      using T(4) unfolding bs by (metis (no_types, lifting) T(4) Un_iff cells.simps(2) cells_append insert_iff)
    ultimately show ?thesis
      using T(2) res False new(3) S(5) by (intro exI [of _ ?m']) (auto simp del: clear_of.simps disjoint.simps block_ok.simps)
  qed
qed

section \<open>Release\<close>

text \<open>A block is merged with the one that follows when there is no gap between them.\<close>

fun merge_next :: "block \<Rightarrow> block list \<Rightarrow> block list" where
  "merge_next (a, n) [] = [(a, n)]"
| "merge_next (a, n) ((b, k) # bs) = (if a + 8 + n = b then (a, n + (k + 8)) # bs else (a, n) # (b, k) # bs)"

definition release_block :: "block \<Rightarrow> block list \<Rightarrow> block list" where
  "release_block x bs =
     (let pre = takeWhile (\<lambda>b. fst b < fst x) bs; post = dropWhile (\<lambda>b. fst b < fst x) bs
      in if pre = [] then merge_next x post
         else butlast pre @ merge_next (last pre) (merge_next x post))"

definition merge_step :: "addr \<Rightarrow> kstate \<Rightarrow> kstate" where
  "merge_step a s =
     (if LIMIT s a = h_next s a
      then let s' = set_size a (h_size s a + (h_size s (h_next s a) + HEADER)) s
           in set_next_block a (h_next s' (h_next s' a)) s'
      else s)"

lemma merge_step_seg:
  assumes s: "seg (mem32 s) ((a, n) # bs) NULL" and ap: "aparts ((a, n) # bs)" and nz: "a + 8 + n \<noteq> NULL"
  shows "seg (mem32 (merge_step a s)) (merge_next (a, n) bs) NULL"
    and "\<And>x. x \<notin> {a, a + 4} \<Longrightarrow> mem32 (merge_step a s) x = mem32 s x"
    and "merge_step a s = s\<lparr>mem32 := mem32 (merge_step a s)\<rparr>"
proof -
  let ?m = "mem32 s"
  have m: "?m (a + 4) = n" "?m a = first_of bs NULL" "a \<noteq> NULL" "seg ?m bs NULL" using s by simp_all
  have step: "merge_step a s = (if a + 8 + n = first_of bs NULL
      then s\<lparr>mem32 := ?m(a + 4 := n + (?m (first_of bs NULL + 4) + 8), a := (?m(a + 4 := n + (?m (first_of bs NULL + 4) + 8))) (first_of bs NULL))\<rparr>
      else s)"
    using m by (simp add: merge_step_def LIMIT_def h_next_def h_size_def set_size_def set_next_block_def Let_def)
  show "mem32 (merge_step a s) x = ?m x" if "x \<notin> {a, a + 4}" for x using that by (simp add: step)
  show "merge_step a s = s\<lparr>mem32 := mem32 (merge_step a s)\<rparr>" by (simp add: step)
  show "seg (mem32 (merge_step a s)) (merge_next (a, n) bs) NULL"
  proof (cases bs)
    case Nil
    then show ?thesis using nz m by (simp add: step)
  next
    case (Cons x cs)
    obtain b k where x: "x = (b, k)" by force
    have d: "b \<noteq> a" "b \<noteq> a + 4" "a \<notin> cells cs" "a + 4 \<notin> cells cs"
      using ap Cons x by (auto simp: apart_def)
    have c: "?m (b + 4) = k" "?m b = first_of cs NULL" "seg ?m cs NULL" using m(4) Cons x by simp_all
    show ?thesis
    proof (cases "a + 8 + n = b")
      case True
      let ?m' = "?m(a + 4 := n + (k + 8), a := first_of cs NULL)"
      have e: "mem32 (merge_step a s) = ?m'" using True Cons x d c by (simp add: step)
      have "seg ?m' cs NULL = seg ?m cs NULL" by (rule seg_frame) (use d in auto)
      then show ?thesis using True Cons x m(3) c(3) by (simp add: e)
    next
      case False
      then show ?thesis using s Cons x by (simp add: step)
    qed
  qed
qed

lemma merge_next_first: "first_of (merge_next (a, n) bs) e = a"
  by (cases bs) (auto split: if_splits)

lemma merge_next_cells: "cells (merge_next (a, n) bs) \<subseteq> cells ((a, n) # bs)"
  by (cases bs) (auto split: if_splits)

text \<open>Merging keeps the order, the gaps but the one closed, and the number of free bytes.\<close>

definition bytes :: "block list \<Rightarrow> nat" where
  "bytes bs = (\<Sum>b\<leftarrow>bs. 8 + unat (snd b))"

fun adjacent_ok :: "block \<Rightarrow> block list \<Rightarrow> bool" where
  "adjacent_ok x [] \<longleftrightarrow> True"
| "adjacent_ok (a, n) (b # bs) \<longleftrightarrow> unat a + 8 + unat n \<le> unat (fst b)"

lemma merge_next_spaced:
  assumes ok: "block_ok (a, n)" and sp: "spaced bs" and adj: "adjacent_ok (a, n) bs"
  shows "spaced (merge_next (a, n) bs)" and "bytes (merge_next (a, n) bs) = 8 + unat n + bytes bs"
    and "\<forall>y\<in>set (merge_next (a, n) bs). unat a \<le> unat (fst y)"
    and "\<forall>y\<in>set (merge_next (a, n) bs). \<exists>z\<in>set ((a, n) # bs). fst y = fst z"
    and "(\<forall>b\<in>set ((a, n) # bs). clear_of hdr b) \<Longrightarrow> \<forall>b\<in>set (merge_next (a, n) bs). clear_of hdr b"
proof -
  have "spaced (merge_next (a, n) bs) \<and> bytes (merge_next (a, n) bs) = 8 + unat n + bytes bs \<and>
    (\<forall>y\<in>set (merge_next (a, n) bs). unat a \<le> unat (fst y)) \<and>
    (\<forall>y\<in>set (merge_next (a, n) bs). \<exists>z\<in>set ((a, n) # bs). fst y = fst z) \<and>
    ((\<forall>b\<in>set ((a, n) # bs). clear_of hdr b) \<longrightarrow> (\<forall>b\<in>set (merge_next (a, n) bs). clear_of hdr b))"
  proof (cases bs)
    case Nil
    then show ?thesis using ok by (simp add: spaced_def bytes_def)
  next
    case (Cons x cs)
    obtain b k where x: "x = (b, k)" by force
    have bok: "block_ok (b, k)" "spaced cs" "\<forall>c\<in>set cs. before (b, k) c" using sp Cons x by (simp_all add: spaced_Cons)
    have le: "unat a + 8 + unat n \<le> unat b" using adj Cons x by simp
    have un: "unat (a + 8 + n) = unat a + 8 + unat n"
    proof -
      have "unat (a + 8) = unat a + 8" using ok by (subst unat_add32) simp_all
      then show ?thesis using ok by (subst unat_add32) simp_all
    qed
    have far: "unat a \<le> unat (fst c)" if "c \<in> set cs" for c
    proof -
      have "before (b, k) c" using bok(3) that by blast
      then show ?thesis using le by (cases c) simp
    qed
    show ?thesis
    proof (cases "a + 8 + n = b")
      case True
      then have b: "unat b = unat a + 8 + unat n" using un by simp
      have nk: "unat (n + (k + 8)) = unat n + (unat k + 8)"
      proof -
        have "unat (k + 8) = unat k + 8" using bok(1) by (subst unat_add32) simp_all
        then show ?thesis using bok(1) b by (subst unat_add32) simp_all
      qed
      have "unat n mod 8 = 0" "unat k mod 8 = 0" using ok bok(1) by simp_all
      then have "(unat n + (unat k + 8)) mod 8 = 0" by presburger
      then have o: "block_ok (a, n + (k + 8))" using ok bok(1) b nk by simp
      have "before (a, n + (k + 8)) c" if "c \<in> set cs" for c
      proof -
        have "before (b, k) c" using bok(3) that by blast
        then show ?thesis using nk b by (cases c) simp
      qed
      then have "spaced ((a, n + (k + 8)) # cs)" using o bok(2) by (simp add: spaced_Cons del: block_ok.simps before.simps)
      moreover have "clear_of hdr (a, n + (k + 8))" if "clear_of hdr (a, n)" "clear_of hdr (b, k)"
        using that nk b by auto
      ultimately show ?thesis using True Cons x nk far
        by (auto simp: bytes_def simp del: clear_of.simps)
    next
      case False
      then have "unat a + 8 + unat n < unat b" using le un by (auto simp: u32_eq_iff)
      then have "before (a, n) c" if "c \<in> set ((b, k) # cs)" for c
      proof (cases "c = (b, k)")
        case False
        then have "before (b, k) c" using bok(3) that by auto
        then show ?thesis using le by (cases c) simp
      qed simp
      then show ?thesis
        using False Cons x ok sp far le by (auto simp: spaced_Cons bytes_def simp del: before.simps block_ok.simps clear_of.simps)
    qed
  qed
  then show "spaced (merge_next (a, n) bs)" "bytes (merge_next (a, n) bs) = 8 + unat n + bytes bs"
    "\<forall>y\<in>set (merge_next (a, n) bs). unat a \<le> unat (fst y)"
    "\<forall>y\<in>set (merge_next (a, n) bs). \<exists>z\<in>set ((a, n) # bs). fst y = fst z"
    "(\<forall>b\<in>set ((a, n) # bs). clear_of hdr b) \<Longrightarrow> \<forall>b\<in>set (merge_next (a, n) bs). clear_of hdr b"
    by blast+
qed

lemma hseg_lnk: "hseg m q bs e \<Longrightarrow> m (lnk q bs) = e"
proof (cases bs rule: rev_cases)
  case (snoc ys y)
  moreover assume "hseg m q bs e"
  ultimately show ?thesis by (cases y) (simp add: lnk_def hseg_append)
qed (simp add: hseg_def lnk_def)

lemma hseg_same:
  "hseg m q bs e \<Longrightarrow> (\<And>x. x \<notin> C \<Longrightarrow> m' x = m x) \<Longrightarrow> C \<inter> insert q (cells bs) = {} \<Longrightarrow> hseg m' q bs e"
  using hseg_frame [of q bs m' m e] by blast

lemma heap_insert_steps:
  assumes "mem32 (merge_step hp (set_next_block qp hp (set_next_block hp (h_next s qp) s))) qp = hp"
  shows "heap_insert qp hp s =
    merge_step qp (merge_step hp (set_next_block qp hp (set_next_block hp (h_next s qp) s)))"
proof -
  let ?s2 = "merge_step hp (set_next_block qp hp (set_next_block hp (h_next s qp) s))"
  have "h_next ?s2 qp = hp" using assms by (simp add: h_next_def)
  moreover have "h_next (set_size qp v ?s2) qp = h_next ?s2 qp" for v
    by (simp add: h_next_def set_size_def)
  ultimately show ?thesis
    unfolding heap_insert_def merge_step_def [of qp] by (simp add: merge_step_def [of hp] Let_def)
qed

text \<open>The free blocks below and above the one that is released.\<close>

lemma release_split:
  assumes sp: "spaced bs" and ok: "block_ok (hp, n)" and d: "\<forall>b\<in>set bs. disjoint (hp, n) b"
  defines "pre \<equiv> takeWhile (\<lambda>b. fst b < hp) bs" and "post \<equiv> dropWhile (\<lambda>b. fst b < hp) bs"
  shows "bs = pre @ post" and "\<And>b k. (b, k) \<in> set pre \<Longrightarrow> unat b + 8 + unat k \<le> unat hp"
    and "\<And>b k. (b, k) \<in> set post \<Longrightarrow> unat hp + 8 + unat n \<le> unat b" and "hp \<notin> fst ` set bs"
proof -
  show bs: "bs = pre @ post" by (simp add: pre_def post_def)
  have dj: "unat hp + 8 + unat n \<le> unat b \<or> unat b + 8 + unat k \<le> unat hp" if "(b, k) \<in> set bs" for b k
    using d that by force
  show "unat b + 8 + unat k \<le> unat hp" if "(b, k) \<in> set pre" for b k
  proof -
    have "b < hp" using set_takeWhileD [of "(b, k)" "\<lambda>b. fst b < hp" bs] that by (simp add: pre_def)
    moreover have "(b, k) \<in> set bs" using that bs by simp
    ultimately show ?thesis using dj by (fastforce simp: word_nat)
  qed
  show "unat hp + 8 + unat n \<le> unat b" if b: "(b, k) \<in> set post" for b k
  proof -
    obtain c j cs where post: "post = (c, j) # cs" using b by (cases post) auto
    have "\<not> fst (hd post) < hp" using post hd_dropWhile [of "\<lambda>b. fst b < hp" bs] by (simp add: post_def)
    then have "unat hp \<le> unat c" using post by (simp add: word_nat)
    moreover have "unat c \<le> unat b"
    proof (cases "(b, k) = (c, j)")
      case False
      then have "before (c, j) (b, k)" using sp b post unfolding bs by (auto simp: spaced_append spaced_Cons simp del: before.simps)
      then show ?thesis by simp
    qed simp
    moreover have "(b, k) \<in> set bs" using b bs by simp
    ultimately show ?thesis using dj [of b k] by linarith
  qed
  show "hp \<notin> fst ` set bs" using dj by force
qed

lemma heap_free_locked_spec:
  assumes F: "free_list heapp (mem32 s) bs" and ok: "block_ok (hp, n)" and sz: "mem32 s (hp + 4) = n"
    and d: "\<forall>b\<in>set bs. disjoint (hp, n) b" and cl: "clear_of (h_free heapp) (hp, n)"
  shows "\<exists>m'. heap_free_locked heapp hp s = Some (s\<lparr>mem32 := m'\<rparr>) \<and> free_list heapp m' (release_block (hp, n) bs) \<and>
    bytes (release_block (hp, n) bs) = bytes bs + 8 + unat n"
proof -
  let ?q = "h_free heapp" and ?m = "mem32 s"
  define pre where "pre = takeWhile (\<lambda>b. fst b < hp) bs"
  define post where "post = dropWhile (\<lambda>b. fst b < hp) bs"
  have fs: "hseg ?m ?q bs NULL" "?m (?q + 4) = 0" "spaced bs" "\<forall>b\<in>set bs. clear_of ?q b" "unat ?q + 8 < 4294967296"
    using F by (simp_all add: free_list_def)
  note sp = release_split [OF fs(3) ok d, folded pre_def post_def]
  have bs: "bs = pre @ post" by (rule sp(1))
  have ap: "apart ?q bs" "aparts bs" using free_list_apart [OF F] .
  have bok: "\<forall>b\<in>set bs. block_ok b" using fs(3) by (simp add: spaced_def)
  have ah: "apart hp bs" using apart_disjoint [OF ok] bok d by blast
  have aq: "apart ?q ((hp, n) # bs)" using hdr_apart [of "(hp, n) # bs" ?q] bok fs(4,5) ok cl by simp
  let ?qp = "lnk ?q pre"
  have qp: "?qp \<in> insert ?q (cells pre)" by (rule lnk_in)
  have pl: "heap_place s ?q hp ?q = Some ?qp"
    unfolding pre_def by (rule heap_place_hseg [OF fs(1) _ spaced_sorted [OF fs(3)] sp(4)]) simp
  have hs: "hseg ?m ?q pre (first_of post NULL)" "seg ?m post NULL" using fs(1) by (simp_all add: bs hseg_append)
  define s1 where "s1 = set_next_block ?qp hp (set_next_block hp (h_next s ?qp) s)"
  have m1: "mem32 s1 = ?m(hp := first_of post NULL, ?qp := hp)"
    using hseg_lnk [OF hs(1)] by (simp add: s1_def set_next_block_def h_next_def)
  have o: "hp \<notin> cells pre" "hp + 4 \<notin> cells pre" "hp \<notin> cells post" "hp + 4 \<notin> cells post"
      "?q \<noteq> hp" "?q \<noteq> hp + 4" "?q + 4 \<noteq> hp" "?q + 4 \<noteq> hp + 4" "?q \<notin> cells pre" "?q \<notin> cells post" "?q + 4 \<notin> cells pre"
      "cells pre \<inter> cells post = {}" "aparts pre" "aparts post"
    using ah aq ap(2) by (auto simp: apart_def bs aparts_append)
  have h1: "hseg (mem32 s1) ?q pre hp"
  proof -
    have "hseg (?m(?qp := hp)) ?q pre hp" using hs(1) o by (intro hseg_relink) (auto simp: apart_def)
    moreover have "hseg (mem32 s1) ?q pre hp = hseg (?m(?qp := hp)) ?q pre hp"
      by (rule hseg_frame) (use o in \<open>auto simp: m1\<close>)
    ultimately show ?thesis by simp
  qed
  have "hp \<noteq> ?qp" "hp + 4 \<noteq> ?qp" using qp o by auto
  moreover have "seg (mem32 s1) post NULL = seg ?m post NULL"
    by (rule seg_frame) (use o qp in \<open>auto simp: m1\<close>)
  ultimately have g1: "seg (mem32 s1) ((hp, n) # post) NULL" using hs(2) sz ok by (simp add: m1)
  have apn: "aparts ((hp, n) # post)" using o by (simp add: apart_def)
  have nz: "hp + 8 + n \<noteq> NULL"
  proof -
    have "unat (hp + 8) = unat hp + 8" using ok by (subst unat_add32) simp_all
    then have "unat (hp + 8 + n) = unat hp + 8 + unat n" using ok by (subst unat_add32) simp_all
    then show ?thesis by (auto simp: u32_eq_iff)
  qed
  define s2 where "s2 = merge_step hp s1"
  note M = merge_step_seg [OF g1 apn nz, folded s2_def]
  let ?L = "merge_next (hp, n) post"
  have h2: "hseg (mem32 s2) ?q pre hp"
    by (rule hseg_same [OF h1, where C = "{hp, hp + 4}"]) (use o M(2) in auto)
  have "mem32 s2 ?qp = hp" using hseg_lnk [OF h2] .
  then have ins: "heap_insert ?qp hp s = merge_step ?qp s2"
    using heap_insert_steps [of hp ?qp s] by (simp add: s1_def s2_def)
  have z2: "mem32 s2 (?q + 4) = 0" using M(2) o qp fs(2) by (auto simp: m1)
  have spost: "spaced post" "spaced pre" using fs(3) by (simp_all add: bs spaced_append)
  have adj: "adjacent_ok (hp, n) post"
  proof (cases post)
    case (Cons x xs)
    then show ?thesis using sp(3) [of "fst x" "snd x"] by simp
  qed simp
  have clp: "\<forall>b\<in>set ((hp, n) # post). clear_of ?q b" using fs(4) cl by (simp add: bs)
  note N = merge_next_spaced [OF ok spost(1) adj]
  have es2: "s2 = s\<lparr>mem32 := mem32 s2\<rparr>" using M(3) by (simp add: s1_def set_next_block_def)
  have fr: "heap_free_locked heapp hp s = Some (merge_step ?qp s2)" using pl ins by (simp add: heap_free_locked_def)
  show ?thesis
  proof (cases pre rule: rev_cases)
    case Nil
    have "unat (?q + 8) = unat ?q + 8" using fs(5) by (subst unat_add32) simp_all
    then have "?q + 8 \<noteq> hp" using cl by (auto simp: u32_eq_iff)
    then have "merge_step ?qp s2 = s2"
      using Nil z2 h2 by (simp add: lnk_def merge_step_def LIMIT_def h_size_def h_next_def hseg_def)
    moreover have "release_block (hp, n) bs = ?L" using Nil by (simp add: release_block_def pre_def post_def)
    moreover have "free_list heapp (mem32 s2) ?L"
      using h2 M(1) Nil z2 fs(5) N(1) N(5) [OF clp] by (simp add: free_list_def hseg_def merge_next_first)
    ultimately show ?thesis using fr es2 N(2) Nil bs by (intro exI [of _ "mem32 s2"]) simp
  next
    case (snoc ys y)
    obtain c j where y: "y = (c, j)" by force
    have qc: "?qp = c" using snoc y by (simp add: lnk_def)
    have cok: "block_ok (c, j)" "spaced ys" "\<forall>z\<in>set ys. before z (c, j)"
      using spost(2) by (simp_all add: snoc y spaced_append spaced_Cons)
    have hy: "hseg (mem32 s2) ?q ys c" "mem32 s2 (c + 4) = j" "mem32 s2 c = hp" "c \<noteq> NULL"
      using h2 by (simp_all add: snoc y hseg_append)
    have sg: "seg (mem32 s2) ((c, j) # ?L) NULL" using hy M(1) by (simp add: merge_next_first)
    have apc: "aparts ((c, j) # ?L)"
      using merge_next_cells [of hp n post] o ah spaced_aparts [OF N(1)] by (auto simp: apart_def bs snoc y aparts_append)
    have lim: "unat c + 8 + unat j \<le> unat hp" using sp(2) [of c j] by (simp add: snoc y)
    have "unat (c + 8) = unat c + 8" using cok(1) by (subst unat_add32) simp_all
    then have "unat (c + 8 + j) = unat c + 8 + unat j" using cok(1) by (subst unat_add32) simp_all
    then have "c + 8 + j \<noteq> NULL" by (auto simp: u32_eq_iff)
    note Q = merge_step_seg [OF sg apc this]
    have "c \<notin> cells ys" "c + 4 \<notin> cells ys" "?q \<noteq> c" "?q \<noteq> c + 4" "?q + 4 \<noteq> c" "?q + 4 \<noteq> c + 4"
      using o(9,11,13) aq by (auto simp: snoc y aparts_append apart_def bs)
    then have "hseg (mem32 (merge_step c s2)) ?q ys c" "mem32 (merge_step c s2) (?q + 4) = 0"
      using hseg_same [OF hy(1), where C = "{c, c + 4}", OF Q(2)] Q(2) z2 by auto
    then have hq: "hseg (mem32 (merge_step c s2)) ?q (ys @ merge_next (c, j) ?L) NULL"
        "mem32 (merge_step c s2) (?q + 4) = 0"
      using Q(1) by (simp_all add: hseg_append merge_next_first)
    have adj2: "adjacent_ok (c, j) ?L" using lim by (cases post) auto
    note R = merge_next_spaced [OF cok(1) N(1) adj2]
    have clL: "\<forall>b\<in>set ((c, j) # ?L). clear_of ?q b" using N(5) [OF clp] fs(4) by (simp add: bs snoc y)
    have "before z b" if "z \<in> set ys" "b \<in> set (merge_next (c, j) ?L)" for z b
    proof -
      have "before z (c, j)" "unat c \<le> unat (fst b)" using cok(3) R(3) that by blast+
      then show ?thesis by (cases z; cases b) simp
    qed
    then have "spaced (ys @ merge_next (c, j) ?L)" using cok(2) R(1) by (simp add: spaced_append)
    moreover have "\<forall>b\<in>set (ys @ merge_next (c, j) ?L). clear_of ?q b" using R(5) [OF clL] fs(4) by (auto simp: bs snoc)
    ultimately have "free_list heapp (mem32 (merge_step c s2)) (ys @ merge_next (c, j) ?L)"
      using hq fs(5) by (simp add: free_list_def)
    moreover have "release_block (hp, n) bs = ys @ merge_next (c, j) ?L"
    proof -
      have "takeWhile (\<lambda>b. fst b < hp) bs = ys @ [(c, j)]" using snoc y by (simp add: pre_def)
      then show ?thesis by (simp add: release_block_def Let_def post_def [symmetric])
    qed
    moreover have "bytes (ys @ merge_next (c, j) ?L) = bytes bs + 8 + unat n"
      using R(2) N(2) by (simp add: bytes_def bs snoc y)
    ultimately show ?thesis
      using fr Q(3) es2 qc by (intro exI [of _ "mem32 (merge_step c s2)"]) (metis kstate.update_convs(17) kstate.surjective)
  qed
qed

lemma alloc_release_inverse:
  assumes sp: "spaced bs" and al: "unat sz mod 8 = 0" and r: "alloc_blocks sz bs = Some ((a, n), bs')"
  shows "release_block (a, n) bs' = bs"
proof -
  let ?P = "\<lambda>b :: block. snd b < sz"
  define pre where "pre = takeWhile ?P bs"
  obtain a0 n0 post where dr: "dropWhile ?P bs = (a0, n0) # post"
    using r by (auto simp: alloc_blocks_def Let_def split: list.splits)
  have a0: "a0 = a" and res: "if unat n0 < unat sz + 8 then n = n0 \<and> bs' = pre @ post
      else n = sz \<and> bs' = pre @ (a + 8 + sz, n0 - 8 - sz) # post"
    using r dr by (auto simp: alloc_blocks_def Let_def pre_def split: if_splits)
  have bs: "bs = pre @ (a, n0) # post" using takeWhile_dropWhile_id [of ?P bs] dr a0 by (simp add: pre_def)
  have ok: "block_ok (a, n0)" using sp bs by (simp add: spaced_append spaced_Cons)
  have un: "unat (a + 8 + n0) = unat a + 8 + unat n0"
  proof -
    have "unat (a + 8) = unat a + 8" using ok by (subst unat_add32) simp_all
    then show ?thesis using ok by (subst unat_add32) simp_all
  qed
  have lo: "fst b < a" if "b \<in> set pre" for b
  proof -
    have "before b (a, n0)" using sp that unfolding bs by (simp add: spaced_append spaced_Cons del: before.simps)
    then show ?thesis by (cases b) (simp add: word_nat)
  qed
  have hi: "\<not> fst b < a" "fst b \<noteq> a + 8 + n0" if "b \<in> set post" for b
  proof -
    have "before (a, n0) b" using sp that unfolding bs by (simp add: spaced_append spaced_Cons del: before.simps)
    then show "\<not> fst b < a" "fst b \<noteq> a + 8 + n0" using un by (cases b; auto simp: word_nat u32_eq_iff)+
  qed
  have t: "takeWhile (\<lambda>b. fst b < a) (pre @ xs) = pre \<and> dropWhile (\<lambda>b. fst b < a) (pre @ xs) = xs"
    if "xs = [] \<or> \<not> fst (hd xs) < a" for xs
    using lo that by (cases xs) (simp_all add: takeWhile_append2 dropWhile_append2)
  have rest: "merge_next (a, n) (dropWhile (\<lambda>b. fst b < a) bs') = (a, n0) # post \<and> takeWhile (\<lambda>b. fst b < a) bs' = pre"
  proof (cases "unat n0 < unat sz + 8")
    case True
    then have e: "n = n0" "bs' = pre @ post" using res by simp_all
    have "post = [] \<or> \<not> fst (hd post) < a" using hi(1) [of "hd post"] by (cases post) auto
    moreover have "merge_next (a, n0) post = (a, n0) # post"
    proof (cases post)
      case (Cons x xs)
      then show ?thesis using hi(2) [of x] by (cases x) auto
    qed simp
    ultimately show ?thesis using t [of post] e by simp
  next
    case False
    then have e: "n = sz" "bs' = pre @ (a + 8 + sz, n0 - 8 - sz) # post" using res by simp_all
    have "unat (a + 8 + sz) = unat a + 8 + unat sz" using split_block(1) [OF ok al] False by simp
    then have "\<not> a + 8 + sz < a" by (simp add: word_nat)
    then show ?thesis using t [of "(a + 8 + sz, n0 - 8 - sz) # post"] e by simp
  qed
  show ?thesis
  proof (cases pre rule: rev_cases)
    case Nil
    then show ?thesis using rest by (simp add: release_block_def bs)
  next
    case (snoc ys y)
    obtain c j where y: "y = (c, j)" by force
    have c: "block_ok (c, j)" "before (c, j) (a, n0)"
      using sp unfolding bs snoc y by (simp_all add: spaced_append spaced_Cons del: before.simps)
    have "unat (c + 8) = unat c + 8" using c(1) by (subst unat_add32) simp_all
    then have "unat (c + 8 + j) = unat c + 8 + unat j" using c(1) by (subst unat_add32) simp_all
    then have "c + 8 + j \<noteq> a" using c(2) by (auto simp: u32_eq_iff)
    then show ?thesis using rest snoc y by (simp add: release_block_def bs Let_def)
  qed
qed

section \<open>Properties of the heap\<close>

lemma granted_size:
  assumes "alloc_blocks (MEM_ALIGN_NEXT sz) bs = Some ((a, n), bs')"
  shows "if unat sz \<le> 4294967288 then unat sz \<le> unat n else unat n < 8"
proof -
  let ?sz = "MEM_ALIGN_NEXT sz"
  obtain n0 post where d: "dropWhile (\<lambda>b. snd b < ?sz) bs = (a, n0) # post"
      and n: "if unat n0 < unat ?sz + 8 then n = n0 else n = ?sz"
    using assms by (auto simp: alloc_blocks_def Let_def split: list.splits if_splits)
  have "\<not> n0 < ?sz" using hd_dropWhile [of "\<lambda>b. snd b < ?sz" bs] d by simp
  then have "unat ?sz \<le> unat n" using n by (auto simp: word_less_nat_alt split: if_splits)
  moreover have "unat n < unat ?sz + 8" using n by (auto split: if_splits)
  ultimately show ?thesis using unat_align_next [of sz] by (auto split: if_splits)
qed

text \<open>
  C23: allocation from a heap.  A thread that finds the heap free takes its mutex; its search of
  the free list ends.  If some free block has the size asked for, rounded up to a multiple of
  eight, the call returns the first such block
  behind its header: aligned, disjoint from every block that
  stays free; what is left of the block, if a header fits, stays in the list, which is well formed again.
  The block is at least as big as asked for if that is at most \<open>4294967288 = 2^32 - 8\<close> bytes; for a
  greater request, which no memory can satisfy, the rounded size wraps around to zero and a block
  of less than eight bytes is granted if there is any free block.
  If none is, the list is unchanged and, without a memory provider, the call returns a null
  pointer.
\<close>

theorem heap_alloc_first_fit:
  assumes h: "heapp \<noteq> NULL" and free: "m_owner (mtx s (h_mtx heapp)) = NULL"
    and F: "free_list heapp (mem32 s2) bs"
  shows "\<exists>s1 k. chHeapAlloc user heapp sz s = Unlock s1 k \<and>
    (case alloc_blocks (MEM_ALIGN_NEXT sz) bs of
       None \<Rightarrow> k s2 = rbind (chMtxUnlock s2) (\<lambda>_ s3. Unlock s3 (heap_more user heapp (MEM_ALIGN_NEXT sz))) \<and>
         (\<forall>s4. h_provider s4 heapp = None \<longrightarrow> heap_more user heapp (MEM_ALIGN_NEXT sz) s4 = Done NULL s4)
     | Some ((a, n), bs') \<Rightarrow> \<exists>m'. k s2 = rbind (chMtxUnlock (s2\<lparr>mem32 := m'\<rparr>)) (\<lambda>_ s3. Done (a + 8) s3) \<and>
         free_list heapp m' bs' \<and> MEM_ALIGN_NEXT sz \<le> n \<and> unat (a + 8) mod 8 = 0 \<and>
         (if unat sz \<le> 4294967288 then unat sz \<le> unat n else unat n < 8) \<and>
         (\<forall>b\<in>set bs'. disjoint (a, n) b) \<and> m' a = heapp \<and> m' (a + 4) = n)"
proof -
  let ?sz = "MEM_ALIGN_NEXT sz"
  have al: "unat ?sz mod 8 = 0" unfolding unat_align_next by simp
  let ?k = "\<lambda>s2. case heap_alloc_locked heapp ?sz s2 of
      None \<Rightarrow> spin s2
    | Some (hp, s3) \<Rightarrow> rbind (chMtxUnlock s3) (\<lambda>_ s4.
        if hp \<noteq> NULL then Done (hp + 8) s4 else Unlock s4 (heap_more user heapp ?sz))"
  have "chMtxLock (h_mtx heapp) s = Done () (take_mutex (h_mtx heapp) s)"
    using free by (simp add: chMtxLock_def chMtxLockS_def take_mutex_def Let_def)
  then have e: "chHeapAlloc user heapp sz s = Unlock (take_mutex (h_mtx heapp) s) ?k"
    using h by (simp add: chHeapAlloc_def Let_def)
  show ?thesis
  proof (cases "alloc_blocks ?sz bs")
    case None
    then have d: "dropWhile (\<lambda>b. snd b < ?sz) bs = []" by (auto simp: alloc_blocks_def Let_def split: list.splits)
    have "hseg (mem32 s2) (h_free heapp) bs NULL" using F by (simp add: free_list_def)
    from heap_find_hseg [OF this, of ?sz] have "heap_alloc_locked heapp ?sz s2 = Some (NULL, s2)"
      unfolding d by (simp add: heap_alloc_locked_def)
    then show ?thesis using None e by (intro exI [of _ "take_mutex (h_mtx heapp) s"] exI [of _ ?k]) (simp add: heap_more_def)
  next
    case (Some x)
    obtain a n bs' where x: "x = ((a, n), bs')" by (metis prod.exhaust)
    from heap_alloc_locked_spec [OF F al Some [unfolded x]] obtain m' where
      m: "heap_alloc_locked heapp ?sz s2 = Some (a, s2\<lparr>mem32 := m'\<rparr>)" "free_list heapp m' bs'" "?sz \<le> n"
        "block_ok (a, n)" "\<forall>b\<in>set bs'. disjoint (a, n) b" "m' a = heapp" "m' (a + 4) = n"
      by blast
    have "unat (a + 8) = unat a + 8" using m(4) by (subst unat_add32) simp_all
    moreover have "unat a mod 8 = 0" "a \<noteq> NULL" using m(4) by simp_all
    moreover note granted_size [OF Some [unfolded x]]
    ultimately show ?thesis
      using Some x e m by (intro exI [of _ "take_mutex (h_mtx heapp) s"] exI [of _ ?k]) (auto simp del: disjoint.simps)
  qed
qed

definition sample_heap :: "addr \<Rightarrow> u32" where
  "sample_heap = (\<lambda>_. 0)(1032 := 2048, 1036 := 0, 2048 := 3072, 2052 := 64, 3072 := 0, 3076 := 128)"

lemma sample_free_list: "free_list 1024 sample_heap [(2048, 64), (3072, 128)]"
  by (simp add: free_list_def h_free_def hseg_def sample_heap_def spaced_def)

theorem heap_alloc_first_fit_witness:
  "\<exists>s1 k m'. chHeapAlloc (\<lambda>_ _ s. (NULL, s)) 1024 100 sample = Unlock s1 k \<and>
     k (sample\<lparr>mem32 := sample_heap\<rparr>) = rbind (chMtxUnlock (sample\<lparr>mem32 := m'\<rparr>)) (\<lambda>_ s3. Done 3080 s3) \<and>
     free_list 1024 m' [(2048, 64), (3184, 16)]"
proof -
  have n: "MEM_ALIGN_NEXT 100 = 104" by (simp add: MEM_ALIGN_NEXT_def MEM_ALIGN_PREV_def)
  have a: "alloc_blocks 104 [(2048, 64), (3072, 128)] = Some ((3072, 104), [(2048, 64), (3184, 16)])"
    by (simp add: alloc_blocks_def)
  have f: "free_list 1024 (mem32 (sample\<lparr>mem32 := sample_heap\<rparr>)) [(2048, 64), (3072, 128)]"
    using sample_free_list by simp
  have o: "m_owner (mtx sample (h_mtx 1024)) = NULL" by (simp add: h_mtx_def)
  from heap_alloc_first_fit [OF _ o f, of "\<lambda>_ _ s. (NULL, s)" 100] show ?thesis
    unfolding n a by auto
qed

text \<open>
  C24: release into a heap.  The search for the place of an allocated block ends; afterwards the
  free list is the old one with the block in its place, merged with the blocks it touches: well
  formed again, with no two adjacent blocks, and with exactly the bytes of the block and its
  header more.
\<close>

theorem heap_free_coalesces:
  assumes "free_list heapp (mem32 s) bs" and "block_ok (hp, n)" and "mem32 s (hp + 4) = n"
    and "\<forall>b\<in>set bs. disjoint (hp, n) b" and "clear_of (h_free heapp) (hp, n)"
  shows "\<exists>m'. heap_free_locked heapp hp s = Some (s\<lparr>mem32 := m'\<rparr>) \<and> free_list heapp m' (release_block (hp, n) bs) \<and>
    bytes (release_block (hp, n) bs) = bytes bs + 8 + unat n"
  by (rule heap_free_locked_spec [OF assms])

theorem heap_free_coalesces_witness:
  "\<exists>m'. heap_free_locked 1024 2120 (sample\<lparr>mem32 := sample_heap(2124 := 944)\<rparr>) = Some (sample\<lparr>mem32 := m'\<rparr>) \<and>
     free_list 1024 m' [(2048, 1152)]"
proof -
  let ?s = "sample\<lparr>mem32 := sample_heap(2124 := 944)\<rparr>"
  have f: "free_list 1024 (mem32 ?s) [(2048, 64), (3072, 128)]"
    by (simp add: free_list_def h_free_def hseg_def sample_heap_def spaced_def)
  have r: "release_block (2120, 944) [(2048, 64), (3072, 128)] = [(2048, 1152)]" by (simp add: release_block_def)
  show ?thesis
    using heap_free_coalesces [OF f, of 2120 944] unfolding r by (auto simp: h_free_def sample_heap_def)
qed

text \<open>
  Releasing a block that was just allocated restores the free list exactly, whether the block
  was split off or taken whole.
\<close>

theorem heap_alloc_free_roundtrip:
  assumes F: "free_list heapp (mem32 s) bs" and al: "unat sz mod 8 = 0"
    and r: "heap_alloc_locked heapp sz s = Some (hp, s1)" and nn: "hp \<noteq> NULL"
  shows "\<exists>m'. heap_free_locked heapp hp s1 = Some (s\<lparr>mem32 := m'\<rparr>) \<and> free_list heapp m' bs"
proof (cases "alloc_blocks sz bs")
  case None
  then have d: "dropWhile (\<lambda>b. snd b < sz) bs = []" by (auto simp: alloc_blocks_def Let_def split: list.splits)
  have "hseg (mem32 s) (h_free heapp) bs NULL" using F by (simp add: free_list_def)
  from heap_find_hseg [OF this, of sz] have "hp = NULL" using r unfolding d by (simp add: heap_alloc_locked_def)
  then show ?thesis using nn by simp
next
  case (Some x)
  obtain a n bs' where x: "x = ((a, n), bs')" by (metis prod.exhaust)
  from heap_alloc_locked_spec [OF F al Some [unfolded x]] obtain m' where
    m: "heap_alloc_locked heapp sz s = Some (a, s\<lparr>mem32 := m'\<rparr>)" "free_list heapp m' bs'" "block_ok (a, n)"
      "\<forall>b\<in>set bs'. disjoint (a, n) b" "clear_of (h_free heapp) (a, n)" "m' (a + 4) = n"
    by blast
  have e: "hp = a" "s1 = s\<lparr>mem32 := m'\<rparr>" using r m(1) by simp_all
  have "free_list heapp (mem32 s1) bs'" "mem32 s1 (a + 4) = n" using m e by simp_all
  from heap_free_locked_spec [OF this(1) m(3) this(2) m(4,5)] show ?thesis
    using alloc_release_inverse [OF _ al Some [unfolded x]] F e by (auto simp: free_list_def)
qed

theorem heap_alloc_free_roundtrip_witness:
  "\<exists>s1 m'. heap_alloc_locked 1024 104 (sample\<lparr>mem32 := sample_heap\<rparr>) = Some (3072, s1) \<and>
     heap_free_locked 1024 3072 s1 = Some (sample\<lparr>mem32 := m'\<rparr>) \<and> free_list 1024 m' [(2048, 64), (3072, 128)]"
proof -
  have a: "alloc_blocks 104 [(2048, 64), (3072, 128)] = Some ((3072, 104), [(2048, 64), (3184, 16)])"
    by (simp add: alloc_blocks_def)
  have f: "free_list 1024 (mem32 (sample\<lparr>mem32 := sample_heap\<rparr>)) [(2048, 64), (3072, 128)]"
    using sample_free_list by simp
  obtain s1 where s1: "heap_alloc_locked 1024 104 (sample\<lparr>mem32 := sample_heap\<rparr>) = Some (3072, s1)"
    using heap_alloc_locked_spec [OF f _ a] by auto
  show ?thesis using heap_alloc_free_roundtrip [OF f _ s1] s1 by auto
qed

section \<open>Properties of memory pools\<close>

fun pool_chain :: "(addr \<Rightarrow> u32) \<Rightarrow> addr \<Rightarrow> addr list \<Rightarrow> bool" where
  "pool_chain m p [] \<longleftrightarrow> p = NULL"
| "pool_chain m p (x # xs) \<longleftrightarrow> p = x \<and> x \<noteq> NULL \<and> pool_chain m (m x) xs"

definition pool_has :: "addr \<Rightarrow> kstate \<Rightarrow> addr list \<Rightarrow> bool" where
  "pool_has mp s xs \<longleftrightarrow> pool_chain (mem32 s) (mp_next (pools s mp)) xs \<and> distinct xs"

lemma pool_chain_frame: "a \<notin> set xs \<Longrightarrow> pool_chain (m(a := v)) p xs = pool_chain m p xs"
  by (induction xs arbitrary: p) auto

lemma pool_has_free:
  assumes "pool_has mp s xs" and "x \<noteq> NULL" and "x \<notin> set xs"
  shows "pool_has mp (chPoolFreeI mp x s) (x # xs)"
  using assms by (simp add: pool_has_def chPoolFreeI_def pool_chain_frame)

text \<open>The objects of an array.\<close>

fun objects :: "addr \<Rightarrow> size_t \<Rightarrow> nat \<Rightarrow> addr list" where
  "objects p k 0 = []"
| "objects p k (Suc n) = p # objects (p + k) k n"

lemma pool_load_objects:
  assumes "pool_has mp s xs" and "mp_object_size (pools s mp) = k"
    and "distinct (objects p k n)" and "NULL \<notin> set (objects p k n)" and "set (objects p k n) \<inter> set xs = {}"
  shows "pool_has mp (pool_load_loop mp p n s) (rev (objects p k n) @ xs)"
  using assms
proof (induction n arbitrary: p s xs)
  case (Suc n)
  let ?s = "chPoolAdd mp p s"
  have "pool_has mp ?s (p # xs)"
    using pool_has_free [OF Suc.prems(1), of p] Suc.prems by (auto simp: chPoolAdd_def chPoolFree_def)
  moreover have "mp_object_size (pools ?s mp) = k"
    using Suc.prems by (simp add: chPoolAdd_def chPoolFree_def chPoolFreeI_def)
  ultimately show ?case using Suc.IH [of ?s "p # xs" "p + k"] Suc.prems by (simp add: Let_def)
qed simp

text \<open>
  C25: a memory pool hands out exactly the objects it was loaded with.  Loading an array adds each
  of its objects once; an allocation takes an object that is in the pool out of it; a released object is the
  next to be handed out; an empty pool that may not grow gives a null pointer and does not change.
\<close>

theorem pool_objects_exact:
  assumes P: "pool_has mp s xs"
  shows "(\<forall>p n. distinct (objects p (mp_object_size (pools s mp)) (unat n)) \<longrightarrow>
      set (objects p (mp_object_size (pools s mp)) (unat n)) \<inter> insert NULL (set xs) = {} \<longrightarrow>
      pool_has mp (chPoolLoadArray mp p n s) (rev (objects p (mp_object_size (pools s mp)) (unat n)) @ xs)) \<and>
    (\<forall>x. x \<noteq> NULL \<longrightarrow> x \<notin> set xs \<longrightarrow> pool_has mp (chPoolFreeI mp x s) (x # xs) \<and>
       fst (chPoolAllocI user mp (chPoolFreeI mp x s)) = x) \<and>
    (case xs of
       [] \<Rightarrow> mp_provider (pools s mp) = None \<longrightarrow> chPoolAllocI user mp s = (NULL, s)
     | x # ys \<Rightarrow> x \<noteq> NULL \<and> fst (chPoolAllocI user mp s) = x \<and> pool_has mp (snd (chPoolAllocI user mp s)) ys)"
proof (intro conjI allI impI)
  fix p :: addr and n :: size_t
  let ?o = "objects p (mp_object_size (pools s mp)) (unat n)"
  assume "distinct ?o" and "set ?o \<inter> insert NULL (set xs) = {}"
  then show "pool_has mp (chPoolLoadArray mp p n s) (rev ?o @ xs)"
    unfolding chPoolLoadArray_def by (intro pool_load_objects [OF P refl]) auto
next
  fix x assume "x \<noteq> NULL" and "x \<notin> set xs"
  then show "pool_has mp (chPoolFreeI mp x s) (x # xs)" "fst (chPoolAllocI user mp (chPoolFreeI mp x s)) = x"
    using pool_has_free [OF P] by (simp_all add: chPoolAllocI_def chPoolFreeI_def)
next
  show "case xs of
       [] \<Rightarrow> mp_provider (pools s mp) = None \<longrightarrow> chPoolAllocI user mp s = (NULL, s)
     | x # ys \<Rightarrow> x \<noteq> NULL \<and> fst (chPoolAllocI user mp s) = x \<and> pool_has mp (snd (chPoolAllocI user mp s)) ys"
    using P by (cases xs) (auto simp: pool_has_def chPoolAllocI_def Let_def ph_next_def)
qed

theorem pool_objects_exact_witness:
  "pool_has 4 sample [] \<and> pool_has 4 (chPoolLoadArray 4 64 2 sample) [128, 64]"
proof -
  have p: "pool_has 4 sample []" "mp_object_size (pools sample 4) = 64" by (simp_all add: pool_has_def sample_def)
  have "unat (2 :: size_t) = Suc (Suc 0)" by simp
  then have o: "objects 64 64 (unat (2 :: size_t)) = [64, 128]" by (simp only: objects.simps) simp
  show ?thesis
    using pool_objects_exact [OF p(1), THEN conjunct1, rule_format, where p = 64 and n = 2] p(1) unfolding p(2) o by simp
qed

end
