(* ===== verification/Dynamic.thy ===== *)
theory Dynamic
  imports Memory
begin

text \<open>
  Threads with dynamic memory (\<^verbatim>\<open>os/kernel/src/chdynamic.c\<close>), the registry of threads
  (\<^verbatim>\<open>chregistry.c\<close>) and waiting for the end of a thread (\<open>chThdWait\<close> of \<^verbatim>\<open>chthreads.c\<close>).
  A reference that is released last gives the memory of the thread back with the kernel
  unlocked: other threads may run between any two of its steps.
\<close>

section \<open>References\<close>

definition chThdAddRef :: "addr \<Rightarrow> kstate \<Rightarrow> addr \<times> kstate" where
  "chThdAddRef tp s = (tp, upd_thd tp (\<lambda>t. t\<lparr>p_refs := p_refs t + 1\<rparr>) s)"

text \<open>The two assignments of \<open>REG_REMOVE\<close>, where the kernel is not locked around them.\<close>

definition reg_unlink_newer :: "addr \<Rightarrow> kstate \<Rightarrow> kstate" where
  "reg_unlink_newer tp s =
     s\<lparr>registry := set_next (p_prev (registry s) tp) (p_next (registry s) tp) (registry s)\<rparr>"

definition reg_unlink_older :: "addr \<Rightarrow> kstate \<Rightarrow> kstate" where
  "reg_unlink_older tp s =
     s\<lparr>registry := set_prev (p_next (registry s) tp) (p_prev (registry s) tp) (registry s)\<rparr>"

definition chThdRelease :: "addr \<Rightarrow> kstate \<Rightarrow> unit run" where
  "chThdRelease tp s =
     (let s1 = upd_thd tp (\<lambda>t. t\<lparr>p_refs := p_refs t - 1\<rparr>) s;
          refs = p_refs (thd s1 tp)
      in Unlock s1 (\<lambda>s2.
           if refs = 0 \<and> state_of s2 tp = THD_STATE_FINAL
           then if p_flags (thd s2 tp) AND THD_MEM_MODE_MASK = THD_MEM_MODE_HEAP
                then Unlock (reg_unlink_newer tp s2) (\<lambda>s3.
                     Unlock (reg_unlink_older tp s3) (\<lambda>s4. chHeapFree tp s4))
                else if p_flags (thd s2 tp) AND THD_MEM_MODE_MASK = THD_MEM_MODE_MEMPOOL
                then Unlock (reg_unlink_newer tp s2) (\<lambda>s3.
                     Unlock (reg_unlink_older tp s3) (\<lambda>s4.
                       Done () (chPoolFree (p_mpool (thd s4 tp)) tp s4)))
                else Done () s2
           else Done () s2))"

section \<open>Creation\<close>

definition chThdCreateFromHeap ::
  "(addr \<Rightarrow> size_t \<Rightarrow> kstate \<Rightarrow> addr \<times> kstate) \<Rightarrow> addr \<Rightarrow> size_t \<Rightarrow> tprio_t \<Rightarrow> kstate \<Rightarrow> addr run" where
  "chThdCreateFromHeap user heapp sz pri s =
     rbind (chHeapAlloc user heapp sz s) (\<lambda>wsp s1.
       if wsp = NULL then Done NULL s1
       else Unlock s1 (\<lambda>s2.
              let (tp, s3) = chThdCreateI wsp pri s2;
                  s4 = upd_thd tp (\<lambda>t. t\<lparr>p_flags := THD_MEM_MODE_HEAP\<rparr>) s3
              in rbind (chSchWakeupS tp RDY_OK s4) (\<lambda>_ s5. Done tp s5)))"

definition chThdCreateFromMemoryPool ::
  "(addr \<Rightarrow> size_t \<Rightarrow> kstate \<Rightarrow> addr \<times> kstate) \<Rightarrow> addr \<Rightarrow> tprio_t \<Rightarrow> kstate \<Rightarrow> addr run" where
  "chThdCreateFromMemoryPool user mp pri s =
     (let (wsp, s1) = chPoolAlloc user mp s
      in if wsp = NULL then Done NULL s1
         else Unlock s1 (\<lambda>s2.
                let (tp, s3) = chThdCreateI wsp pri s2;
                    s4 = upd_thd tp (\<lambda>t. t\<lparr>p_flags := THD_MEM_MODE_MEMPOOL, p_mpool := mp\<rparr>) s3
                in rbind (chSchWakeupS tp RDY_OK s4) (\<lambda>_ s5. Done tp s5)))"

section \<open>The registry\<close>

definition chRegSetThreadName :: "addr \<Rightarrow> kstate \<Rightarrow> kstate" where
  "chRegSetThreadName p s = upd_thd (currp s) (\<lambda>t. t\<lparr>p_name := p\<rparr>) s"

definition chRegGetThreadName :: "addr \<Rightarrow> kstate \<Rightarrow> addr" where
  "chRegGetThreadName tp s = p_name (thd s tp)"

definition chRegFirstThread :: "kstate \<Rightarrow> addr \<times> kstate" where
  "chRegFirstThread s =
     (let tp = p_next (registry s) (rlist s)
      in (tp, upd_thd tp (\<lambda>t. t\<lparr>p_refs := p_refs t + 1\<rparr>) s))"

definition chRegNextThread :: "addr \<Rightarrow> kstate \<Rightarrow> addr run" where
  "chRegNextThread tp s =
     (let ntp = p_next (registry s) tp;
          (ntp, s1) = (if ntp = rlist s then (NULL, s)
                       else (ntp, upd_thd ntp (\<lambda>t. t\<lparr>p_refs := p_refs t + 1\<rparr>) s))
      in Unlock s1 (\<lambda>s2. rbind (chThdRelease tp s2) (\<lambda>_ s3. Done ntp s3)))"

section \<open>Waiting for the end of a thread\<close>

definition chThdWait :: "addr \<Rightarrow> kstate \<Rightarrow> msg_t run" where
  "chThdWait tp s =
     rbind (if state_of s tp \<noteq> THD_STATE_FINAL
            then chSchGoSleepS THD_STATE_WTEXIT (upd_thd tp (\<lambda>t. t\<lparr>p_waiting := currp s # p_waiting t\<rparr>) s)
            else Done () s)
       (\<lambda>_ s1. let msg = p_u (thd s1 tp)
               in Unlock s1 (\<lambda>s2. rbind (chThdRelease tp s2) (\<lambda>_ s3. Done msg s3)))"

section \<open>Properties\<close>

lemma reg_remove_halves:
  "reg_unlink_older tp (reg_unlink_newer tp s) = REG_REMOVE tp s"
  by (simp add: reg_unlink_older_def reg_unlink_newer_def REG_REMOVE_def dequeue_def Let_def)

text \<open>
  C26: the registry.  Adding a thread appends it; removing one keeps the others in their order;
  a walk visits the threads from the oldest to the newest and ends with a null pointer.
  But \<open>chThdRelease\<close> removes a thread with the kernel unlocked: if the thread registered
  behind it is removed between the two assignments, the older neighbour keeps a link to that thread,
  which is no longer registered.
\<close>

theorem registry_walk_and_race:
  assumes R: "is_queue (registry s) (rlist s) (xs @ tp # ys)"
  shows "is_queue (registry (REG_REMOVE tp s)) (rlist s) (xs @ ys) \<and>
    (\<forall>t. t \<notin> insert (rlist s) (set (xs @ tp # ys)) \<longrightarrow>
       is_queue (registry (REG_INSERT t s)) (rlist s) ((xs @ tp # ys) @ [t])) \<and>
    fst (chRegFirstThread s) = hd (xs @ [tp]) \<and>
    (\<exists>s1. chRegNextThread tp s = Unlock s1 (\<lambda>s2. rbind (chThdRelease tp s2)
       (\<lambda>_ s3. Done (case ys of [] \<Rightarrow> NULL | y # _ \<Rightarrow> y) s3))) \<and>
    (\<forall>y zs. ys = y # zs \<longrightarrow>
       p_next (registry (reg_unlink_older tp (REG_REMOVE y (reg_unlink_newer tp s)))) (last (rlist s # xs)) = y)"
proof (intro conjI allI impI)
  let ?r = "registry s" and ?l = "rlist s"
  have d: "distinct (?l # xs @ tp # ys)" and g: "dseg ?r ?l xs tp" "dseg ?r tp ys ?l"
    using R by (simp_all add: is_queue_def dseg_append)
  show "is_queue (registry (REG_REMOVE tp s)) ?l (xs @ ys)"
    using is_queue_dequeue [OF R] by (simp add: REG_REMOVE_def)
  show "is_queue (registry (REG_INSERT t s)) ?l ((xs @ tp # ys) @ [t])"
    if "t \<notin> insert ?l (set (xs @ tp # ys))" for t
    using is_queue_insert_before [of ?r ?l "xs @ tp # ys" "[]" t ?l] R that
    by (simp add: REG_INSERT_def queue_insert_before)
  show "fst (chRegFirstThread s) = hd (xs @ [tp])"
    using dseg_first [OF g(1)] by (cases xs) (simp_all add: chRegFirstThread_def Let_def)
  have n: "p_next ?r tp = (case ys of [] \<Rightarrow> ?l | y # _ \<Rightarrow> y)" by (rule dseg_first [OF g(2)])
  show "\<exists>s1. chRegNextThread tp s = Unlock s1 (\<lambda>s2. rbind (chThdRelease tp s2)
       (\<lambda>_ s3. Done (case ys of [] \<Rightarrow> NULL | y # _ \<Rightarrow> y) s3))"
    using n d by (cases ys) (auto simp: chRegNextThread_def Let_def)
  fix y zs assume y: "ys = y # zs"
  have p: "p_prev ?r tp = last (?l # xs)" using dseg_last [OF g(1)] by simp
  have e: "p_next ?r tp = y" "p_prev ?r y = tp" using g(2) y by simp_all
  have ne: "last (?l # xs) \<noteq> tp" "y \<noteq> tp" using d y by (auto split: if_splits)
  show "p_next (registry (reg_unlink_older tp (REG_REMOVE y (reg_unlink_newer tp s)))) (last (?l # xs)) = y"
    using p e ne by (simp add: reg_unlink_older_def REG_REMOVE_def reg_unlink_newer_def dequeue_def Let_def)
qed

theorem registry_walk_and_race_witness:
  "is_queue (registry (REG_REMOVE 12288 sample)) (rlist sample) [4096, 8192, 16384, 20480, 24576, 28672]"
  using registry_walk_and_race [of sample "[4096, 8192]" 12288 "[16384, 20480, 24576, 28672]"] sample_registry_queue
  by simp

text \<open>
  C27: the end of a thread and those who wait for it.  A thread that calls \<open>chThdWait\<close> for a thread
  that is not terminated gives up the processor, queued with those who wait for it, with the kernel invariant intact.  When that
  thread exits, having released its mutexes, every one who waits can run, the next thread of the
  highest priority runs, and the exit code is what \<open>chThdWait\<close> returns, as long as
  the terminated thread is not touched; a thread that has terminated is not waited for.
\<close>

theorem thread_exit_wait_roundtrip:
  assumes K: "kinvU s" and me: "me = currp s" and ni: "me \<noteq> idle_thread s" and tp: "tp \<noteq> me"
  shows "if state_of s tp = THD_STATE_FINAL
    then chThdWait tp s = Unlock s (\<lambda>s2. rbind (chThdRelease tp s2) (\<lambda>_ s3. Done (p_u (thd s tp)) s3))
    else \<exists>n k. chThdWait tp s = Switch n k \<and> kinvS n \<and> guar me s n \<and> me \<in> set (p_waiting (thd n tp)) \<and>
      (\<forall>s1 msg. kinvU s1 \<longrightarrow> currp s1 = tp \<longrightarrow> tp \<noteq> idle_thread s1 \<longrightarrow> p_mtxlist (thd s1 tp) = [] \<longrightarrow>
         me \<in> set (p_waiting (thd s1 tp)) \<longrightarrow>
         (\<exists>m j. chThdExit msg s1 = Switch m j \<and> kinvS m \<and> state_of m tp = THD_STATE_FINAL \<and>
            runnable (state_of m me) \<and>
            (\<forall>s'. thd s' tp = thd m tp \<longrightarrow>
               k s' = Unlock s' (\<lambda>s2. rbind (chThdRelease tp s2) (\<lambda>_ s3. Done msg s3)))))"
proof (cases "state_of s tp = THD_STATE_FINAL")
  case True
  then show ?thesis by (simp add: chThdWait_def)
next
  case False
  define s0 where "s0 = upd_thd tp (\<lambda>t. t\<lparr>p_waiting := me # p_waiting t\<rparr>) s"
  define n where "n = pick_next (sleeping THD_STATE_WTEXIT me s0)"
  let ?k = "\<lambda>s1. Unlock s1 (\<lambda>s2. rbind (chThdRelease tp s2) (\<lambda>_ s3. Done (p_u (thd s1 tp)) s3))"
  have L: "kinvL s" "kinv s" using K by (simp_all add: kinvU_L kinvL_def)
  have P: "places s" "sems_ok s" using L(2) by (simp_all add: kinv_def kinv0_def)
  have q: "queue_of s0 r = (if r = PExit tp then me # queue_of s r else queue_of s r)" for r
    by (cases r) (auto simp: s0_def)
  have nq: "me \<notin> set (queue_of s r)" for r
    by (rule places_unqueued [OF P(1)]) (simp add: place_ok_def me cur_state [OF L(2)])
  have "attached me (PExit tp) s s0"
    using nq [of "PExit tp"] places_distinct [OF P(1), of "PExit tp"] q by (auto simp: attached_def s0_def)
  then have pk: "parked THD_STATE_WTEXIT me (PExit tp) s s0"
    using False P(2) by (auto simp: parked_def place_ok_def sems_ok_def s0_def)
  have sl: "kinvS n" "guar me s n" unfolding n_def by (rule parked_sleep [OF L(1) me ni pk])+
  have "p_waiting (thd n tp) = me # p_waiting (thd s tp)"
    by (simp add: n_def pick_next_def s0_def sleeping_def Let_def split: prod.split)
  moreover have e: "chThdWait tp s = Switch n ?k"
    using False me by (simp add: chThdWait_def chSchGoSleepS_eq n_def s0_def)
  moreover have "\<exists>m j. chThdExit msg s1 = Switch m j \<and> kinvS m \<and> state_of m tp = THD_STATE_FINAL \<and>
      runnable (state_of m me) \<and> (\<forall>s'. thd s' tp = thd m tp \<longrightarrow>
        ?k s' = Unlock s' (\<lambda>s2. rbind (chThdRelease tp s2) (\<lambda>_ s3. Done msg s3)))"
    if a: "kinvU s1" "currp s1 = tp" "tp \<noteq> idle_thread s1" "p_mtxlist (thd s1 tp) = []" "me \<in> set (p_waiting (thd s1 tp))"
    for s1 msg
  proof -
    have "kinvL s1" using a(1) by (simp add: kinvU_L)
    from chThdExitS_eq [OF this a(2) [symmetric] a(3,4), of msg] show ?thesis
      using a(5) unfolding chThdExit_def by metis
  qed
  ultimately show ?thesis using False sl by (intro if_not_P [THEN iffD2] exI [of _ n] exI [of _ ?k]) auto
qed

theorem thread_exit_wait_roundtrip_witness:
  "\<exists>n k. chThdWait 20480 sample = Switch n k \<and> kinvS n \<and> 4096 \<in> set (p_waiting (thd n 20480))"
proof -
  have "state_of sample 20480 \<noteq> THD_STATE_FINAL" by (simp add: sample_defs)
  then show ?thesis using thread_exit_wait_roundtrip [OF sample_kinvU, of 4096 20480] by auto
qed

end
