(* ===== verification/CircularBuffers.thy ===== *)
theory CircularBuffers
  imports WordFacts
begin

text \<open>
  Circular buffers.  Mailboxes and I/O queues keep a buffer of \<open>n\<close> cells of \<open>k\<close> bytes with a
  read and a write pointer that wrap around at its top.  The contents of such a buffer are a
  list; the locale says what moving a pointer and writing a cell do to that list, for any memory
  whose cells are independent of each other.
\<close>

section \<open>Pointers into a buffer\<close>

definition cell :: "u32 \<Rightarrow> nat \<Rightarrow> nat \<Rightarrow> u32" where
  "cell b k j = b + of_nat (k * j)"

definition room :: "u32 \<Rightarrow> nat \<Rightarrow> nat \<Rightarrow> bool" where
  "room b k n \<longleftrightarrow> 0 < k \<and> 0 < n \<and> k \<le> unat b \<and> unat b + k * n < 4294967296"

text \<open>\<^verbatim>\<open>if (++p >= top) p = buffer\<close> and \<^verbatim>\<open>if (--p < buffer) p = top - 1\<close>\<close>

definition advance :: "nat \<Rightarrow> u32 \<Rightarrow> u32 \<Rightarrow> u32 \<Rightarrow> u32" where
  "advance k b lim p = (if p + of_nat k \<ge> lim then b else p + of_nat k)"

definition retreat :: "nat \<Rightarrow> u32 \<Rightarrow> u32 \<Rightarrow> u32 \<Rightarrow> u32" where
  "retreat k b lim p = (if p - of_nat k < b then lim - of_nat k else p - of_nat k)"

lemma cell_unat:
  assumes "room b k n" and "j \<le> n" shows "unat (cell b k j) = unat b + k * j"
proof -
  have le: "k * j \<le> k * n" using assms(2) by simp
  then have "k * j < 4294967296" using assms(1) unfolding room_def by linarith
  then have "unat (of_nat (k * j) :: u32) = k * j" by (simp add: unat_of_nat del: of_nat_mult)
  then show ?thesis using assms(1) le unfolding cell_def room_def by (subst unat_add32) linarith+
qed

lemma cell_inj:
  assumes "room b k n" and "i \<le> n" and "j \<le> n" shows "cell b k i = cell b k j \<longleftrightarrow> i = j"
  using assms cell_unat [OF assms(1)] by (auto simp: u32_eq_iff room_def)

lemma cell_0 [simp]: "cell b k 0 = b"
  by (simp add: cell_def)

lemma cell_next: "cell b k j + of_nat k = cell b k (Suc j)"
  by (simp add: cell_def algebra_simps)

lemma cell_prev: "0 < j \<Longrightarrow> cell b k j - of_nat k = cell b k (j - 1)"
  using cell_next [of b k "j - 1"] by (simp add: algebra_simps)

lemma advance_cell:
  assumes "room b k n" and "j < n"
  shows "advance k b (cell b k n) (cell b k j) = cell b k (Suc j mod n)"
proof -
  have "cell b k n \<le> cell b k (Suc j) \<longleftrightarrow> Suc j = n"
    using assms cell_unat [OF assms(1), of n] cell_unat [OF assms(1), of "Suc j"]
    by (auto simp: word_le_nat_alt room_def simp flip: mult_Suc_right)
  then show ?thesis using assms(2) by (auto simp: advance_def cell_next)
qed

lemma retreat_cell:
  assumes "room b k n" and "j < n"
  shows "retreat k b (cell b k n) (cell b k j) = cell b k ((j + n - 1) mod n)"
proof (cases "j = 0")
  case True
  have "unat (of_nat k :: u32) = k" using assms(1) by (simp add: room_def unat_of_nat)
  then have "unat (b - of_nat k) = unat b - k" using assms(1) by (subst unat_sub32) (simp_all add: room_def)
  then have "b - of_nat k < b" using assms(1) by (simp add: word_less_nat_alt room_def)
  then show ?thesis using True assms cell_prev [of n b k] by (simp add: retreat_def)
next
  case False
  then have "(j + n - 1) mod n = j - 1" using assms(2) by (simp add: mod_if)
  moreover have "\<not> cell b k (j - 1) < b"
    using cell_unat [OF assms(1), of "j - 1"] assms(2) by (simp add: word_less_nat_alt)
  ultimately show ?thesis using False cell_prev [of j b k] by (simp add: retreat_def)
qed

section \<open>Contents\<close>

definition ring_list :: "('s \<Rightarrow> u32 \<Rightarrow> 'v) \<Rightarrow> u32 \<Rightarrow> nat \<Rightarrow> nat \<Rightarrow> 's \<Rightarrow> nat \<Rightarrow> nat \<Rightarrow> 'v list" where
  "ring_list rd b k n s i c = map (\<lambda>j. rd s (cell b k ((i + j) mod n))) [0..<c]"

text \<open>
  The buffer from \<open>b\<close> to \<open>lim\<close> with the write pointer \<open>w\<close> and the read pointer \<open>r\<close> has the
  contents \<open>xs\<close>.
\<close>

definition ring_holds ::
  "('s \<Rightarrow> u32 \<Rightarrow> 'v) \<Rightarrow> nat \<Rightarrow> nat \<Rightarrow> u32 \<Rightarrow> u32 \<Rightarrow> u32 \<Rightarrow> u32 \<Rightarrow> 's \<Rightarrow> 'v list \<Rightarrow> bool" where
  "ring_holds rd k n b lim w r s xs \<longleftrightarrow>
     room b k n \<and> lim = cell b k n \<and> length xs \<le> n \<and>
     (\<exists>i<n. r = cell b k i \<and> w = cell b k ((i + length xs) mod n) \<and> xs = ring_list rd b k n s i (length xs))"

lemma ring_list_length [simp]: "length (ring_list rd b k n s i c) = c"
  by (simp add: ring_list_def)

lemma ring_list_frame:
  assumes "0 < n" and "\<And>j. j < n \<Longrightarrow> rd s' (cell b k j) = rd s (cell b k j)"
  shows "ring_list rd b k n s' i c = ring_list rd b k n s i c"
  using assms by (simp add: ring_list_def)

lemma ring_holds_frame_cells:
  assumes "\<And>j. j < n \<Longrightarrow> rd s' (cell b k j) = rd s (cell b k j)"
  shows "ring_holds rd k n b lim w r s' xs \<longleftrightarrow> ring_holds rd k n b lim w r s xs"
  using ring_list_frame [where rd = rd and s' = s' and s = s and n = n and b = b and k = k, OF _ assms]
  by (auto simp: ring_holds_def room_def)

lemma ring_holds_frame:
  assumes "\<And>a. rd s' a = rd s a"
  shows "ring_holds rd k n b lim w r s' xs \<longleftrightarrow> ring_holds rd k n b lim w r s xs"
  by (rule ring_holds_frame_cells) (simp add: assms)

lemma ring_full_or_empty:
  assumes "ring_holds rd k n b lim w r s xs" shows "w = r \<longleftrightarrow> xs = [] \<or> length xs = n"
proof -
  from assms obtain i where i: "room b k n" "i < n" "r = cell b k i" "w = cell b k ((i + length xs) mod n)" "length xs \<le> n"
    unfolding ring_holds_def by blast
  have "w = r \<longleftrightarrow> (i + length xs) mod n = i"
    using i(2) by (simp add: i(3,4) cell_inj [OF i(1)])
  then show ?thesis using i(2,5) by (auto simp: mod_if split: if_splits)
qed

lemma ring_empty: "room b k n \<Longrightarrow> ring_holds rd k n b (cell b k n) b b s []"
  by (auto simp: ring_holds_def ring_list_def room_def intro: exI [of _ 0])

lemma mod_add_neq:
  assumes "j < n" and "c < n" and "j \<noteq> c" shows "(i + j) mod n \<noteq> (i + c) mod (n :: nat)"
proof -
  have "(i + j) mod n \<noteq> (i + c) mod n" if "j < c" "c < n" for j c
  proof
    assume "(i + j) mod n = (i + c) mod n"
    then have "n dvd (i + c) - (i + j)" using that by (intro mod_eq_dvd_iff_nat [THEN iffD1]) auto
    then show False using that by (auto dest: dvd_imp_le)
  qed
  then show ?thesis using assms by (metis linorder_neqE_nat)
qed

lemma ring_list_Suc:
  assumes "i < n"
  shows "ring_list rd b k n s i (Suc c) = rd s (cell b k i) # ring_list rd b k n s (Suc i mod n) c"
proof -
  have "[0..<Suc c] = 0 # map Suc [0..<c]" by (metis map_Suc_upt upt_conv_Cons zero_less_Suc)
  then show ?thesis using assms by (simp add: ring_list_def mod_add_left_eq del: upt_Suc)
qed

section \<open>Clients\<close>

locale cell_memory =
  fixes rd :: "'s \<Rightarrow> u32 \<Rightarrow> 'v" and wr :: "u32 \<Rightarrow> 'v \<Rightarrow> 's \<Rightarrow> 's"
  assumes rd_wr: "rd (wr a v s) a' = (if a' = a then v else rd s a')"
begin

lemma put_last:
  assumes "ring_holds rd k n b lim w r s xs" and "length xs < n"
  shows "ring_holds rd k n b lim (advance k b lim w) r (wr w v s) (xs @ [v])"
proof -
  from assms(1) obtain i where i: "room b k n" "lim = cell b k n" "i < n" "r = cell b k i"
      "w = cell b k ((i + length xs) mod n)" and xs: "xs = ring_list rd b k n s i (length xs)"
    unfolding ring_holds_def by blast
  have n: "0 < n" using i(3) by simp
  have keep: "rd (wr w v s) (cell b k ((i + j) mod n)) = rd s (cell b k ((i + j) mod n))" if "j < length xs" for j
  proof -
    have "(i + j) mod n \<noteq> (i + length xs) mod n" using that assms(2) by (intro mod_add_neq) auto
    then show ?thesis using n by (simp add: rd_wr i(5) cell_inj [OF i(1)])
  qed
  have "ring_list rd b k n (wr w v s) i (length xs) = ring_list rd b k n s i (length xs)"
    by (simp add: ring_list_def keep)
  then have "ring_list rd b k n (wr w v s) i (Suc (length xs)) = xs @ [v]"
    using xs unfolding ring_list_def by (simp add: rd_wr i(5) [symmetric])
  moreover have "advance k b lim w = cell b k ((i + Suc (length xs)) mod n)"
    using advance_cell [OF i(1), of "(i + length xs) mod n"] n by (simp add: i(2,5) mod_Suc_eq)
  ultimately show ?thesis using i assms(2) unfolding ring_holds_def by auto
qed

lemma take_first:
  assumes "ring_holds rd k n b lim w r s (x # xs)"
  shows "rd s r = x" and "ring_holds rd k n b lim w (advance k b lim r) s xs"
proof -
  from assms obtain i where i: "room b k n" "lim = cell b k n" "i < n" "r = cell b k i"
      "w = cell b k ((i + Suc (length xs)) mod n)" and xs: "x # xs = ring_list rd b k n s i (Suc (length xs))"
      and le: "Suc (length xs) \<le> n"
    unfolding ring_holds_def by auto
  have e: "x = rd s (cell b k i)" "xs = ring_list rd b k n s (Suc i mod n) (length xs)"
    using xs [unfolded ring_list_Suc [OF i(3)]] by blast+
  then show "rd s r = x" by (simp add: i(4))
  have "advance k b lim r = cell b k (Suc i mod n)" using advance_cell [OF i(1,3)] by (simp add: i(2,4))
  moreover have "w = cell b k ((Suc i mod n + length xs) mod n)" by (simp add: i(5) mod_add_left_eq)
  ultimately show "ring_holds rd k n b lim w (advance k b lim r) s xs"
    using i(1,2,3) le e(2) unfolding ring_holds_def by (intro conjI exI [of _ "Suc i mod n"]) auto
qed

lemma put_first:
  assumes "ring_holds rd k n b lim w r s xs" and "length xs < n"
  shows "ring_holds rd k n b lim w (retreat k b lim r) (wr (retreat k b lim r) v s) (v # xs)"
proof -
  from assms(1) obtain i where i: "room b k n" "lim = cell b k n" "i < n" "r = cell b k i"
      "w = cell b k ((i + length xs) mod n)" and xs: "xs = ring_list rd b k n s i (length xs)"
    unfolding ring_holds_def by blast
  define p where "p = (i + n - 1) mod n"
  have p: "p < n" and rp: "retreat k b lim r = cell b k p"
    using i(3) retreat_cell [OF i(1,3)] by (simp_all add: p_def i(2,4))
  have "Suc p mod n = (i + n - 1 + 1) mod n" unfolding p_def by (simp add: mod_Suc_eq)
  then have sp: "Suc p mod n = i" using i(3) by simp
  have "rd (wr (cell b k p) v s) (cell b k ((i + j) mod n)) = rd s (cell b k ((i + j) mod n))" if "j < length xs" for j
  proof -
    have "(i + j) mod n \<noteq> (i + (n - 1)) mod n" using that assms(2) by (intro mod_add_neq) auto
    then show ?thesis using i(3) p by (simp add: rd_wr cell_inj [OF i(1)] p_def)
  qed
  then have "ring_list rd b k n (wr (cell b k p) v s) i (length xs) = xs"
    by (subst (2) xs) (simp add: ring_list_def)
  then have "v # xs = ring_list rd b k n (wr (cell b k p) v s) p (Suc (length xs))"
    unfolding ring_list_Suc [OF p] sp by (simp add: rd_wr)
  moreover have "w = cell b k ((p + Suc (length xs)) mod n)"
    using sp mod_add_left_eq [of "Suc p" n "length xs"] by (simp add: i(5))
  ultimately show ?thesis unfolding rp
    using i(1,2) p assms(2) unfolding ring_holds_def by (intro conjI exI [of _ p]) auto
qed

end

end
