(* ===== verification/Mailboxes.thy ===== *)
theory Mailboxes
  imports Semaphores SampleSystem CircularBuffers
begin

text \<open>
  Mailboxes (\<^verbatim>\<open>os/kernel/src/chmboxes.c\<close>, \<^verbatim>\<open>chmboxes.h\<close>): a circular buffer of messages
  with one semaphore for its free and one for its used cells.  A fetched message, which the
  source stores through a pointer, is part of the result.
\<close>

section \<open>The buffer\<close>

text \<open>\<^verbatim>\<open>*mbp->mb_wrptr++ = msg\<close> and the wrap-around, and the same for the other pointer.\<close>

definition mb_write :: "addr \<Rightarrow> msg_t \<Rightarrow> kstate \<Rightarrow> kstate" where
  "mb_write mbp msg s =
     (let mb = mbx s mbp;
          s1 = set32 (mb_wrptr mb) msg s;
          w = mb_wrptr mb + 4
      in upd_mbx mbp (\<lambda>x. x\<lparr>mb_wrptr := if w \<ge> mb_top x then mb_buffer x else w\<rparr>) s1)"

definition mb_write_ahead :: "addr \<Rightarrow> msg_t \<Rightarrow> kstate \<Rightarrow> kstate" where
  "mb_write_ahead mbp msg s =
     (let mb = mbx s mbp;
          r = mb_rdptr mb - 4;
          r = (if r < mb_buffer mb then mb_top mb - 4 else r);
          s1 = upd_mbx mbp (\<lambda>x. x\<lparr>mb_rdptr := r\<rparr>) s
      in set32 r msg s1)"

definition mb_read :: "addr \<Rightarrow> kstate \<Rightarrow> msg_t \<times> kstate" where
  "mb_read mbp s =
     (let mb = mbx s mbp;
          r = mb_rdptr mb + 4
      in (mem32 s (mb_rdptr mb),
          upd_mbx mbp (\<lambda>x. x\<lparr>mb_rdptr := if r \<ge> mb_top x then mb_buffer x else r\<rparr>) s))"

section \<open>The operations\<close>

definition chMBInit :: "addr \<Rightarrow> addr \<Rightarrow> cnt_t \<Rightarrow> kstate \<Rightarrow> kstate" where
  "chMBInit mbp buf n s =
     (let s1 = upd_mbx mbp (\<lambda>x. x\<lparr>mb_buffer := buf, mb_wrptr := buf, mb_rdptr := buf, mb_top := buf + 4 * n\<rparr>) s
      in chSemInit (mb_fullsem mbp) 0 (chSemInit (mb_emptysem mbp) n s1))"

definition chMBSizeI :: "addr \<Rightarrow> kstate \<Rightarrow> cnt_t" where
  "chMBSizeI mbp s = (mb_top (mbx s mbp) - mb_buffer (mbx s mbp)) div 4"

definition chMBGetFreeCountI :: "addr \<Rightarrow> kstate \<Rightarrow> cnt_t" where
  "chMBGetFreeCountI mbp s = chSemGetCounterI (mb_emptysem mbp) s"

definition chMBGetUsedCountI :: "addr \<Rightarrow> kstate \<Rightarrow> cnt_t" where
  "chMBGetUsedCountI mbp s = chSemGetCounterI (mb_fullsem mbp) s"

definition chMBPeekI :: "addr \<Rightarrow> kstate \<Rightarrow> msg_t" where
  "chMBPeekI mbp s = mem32 s (mb_rdptr (mbx s mbp))"

definition chMBReset :: "addr \<Rightarrow> kstate \<Rightarrow> unit run" where
  "chMBReset mbp s =
     (let s1 = upd_mbx mbp (\<lambda>x. x\<lparr>mb_wrptr := mb_buffer x, mb_rdptr := mb_buffer x\<rparr>) s;
          s2 = chSemResetI (mb_emptysem mbp) ((mb_top (mbx s1 mbp) - mb_buffer (mbx s1 mbp)) div 4) s1
      in chSchRescheduleS (chSemResetI (mb_fullsem mbp) 0 s2))"

definition chMBPostS :: "addr \<Rightarrow> msg_t \<Rightarrow> systime_t \<Rightarrow> kstate \<Rightarrow> msg_t run" where
  "chMBPostS mbp msg time s =
     rbind (chSemWaitTimeoutS (mb_emptysem mbp) time s) (\<lambda>rdymsg s1.
       if rdymsg = RDY_OK
       then rbind (chSchRescheduleS (chSemSignalI (mb_fullsem mbp) (mb_write mbp msg s1))) (\<lambda>_ s2. Done rdymsg s2)
       else Done rdymsg s1)"

definition chMBPost :: "addr \<Rightarrow> msg_t \<Rightarrow> systime_t \<Rightarrow> kstate \<Rightarrow> msg_t run" where
  "chMBPost mbp msg time s = chMBPostS mbp msg time s"

definition chMBPostI :: "addr \<Rightarrow> msg_t \<Rightarrow> kstate \<Rightarrow> msg_t \<times> kstate" where
  "chMBPostI mbp msg s =
     (if sint (chSemGetCounterI (mb_emptysem mbp) s) \<le> 0 then (RDY_TIMEOUT, s)
      else (RDY_OK, chSemSignalI (mb_fullsem mbp) (mb_write mbp msg (chSemFastWaitI (mb_emptysem mbp) s))))"

definition chMBPostAheadS :: "addr \<Rightarrow> msg_t \<Rightarrow> systime_t \<Rightarrow> kstate \<Rightarrow> msg_t run" where
  "chMBPostAheadS mbp msg time s =
     rbind (chSemWaitTimeoutS (mb_emptysem mbp) time s) (\<lambda>rdymsg s1.
       if rdymsg = RDY_OK
       then rbind (chSchRescheduleS (chSemSignalI (mb_fullsem mbp) (mb_write_ahead mbp msg s1))) (\<lambda>_ s2. Done rdymsg s2)
       else Done rdymsg s1)"

definition chMBPostAhead :: "addr \<Rightarrow> msg_t \<Rightarrow> systime_t \<Rightarrow> kstate \<Rightarrow> msg_t run" where
  "chMBPostAhead mbp msg time s = chMBPostAheadS mbp msg time s"

definition chMBPostAheadI :: "addr \<Rightarrow> msg_t \<Rightarrow> kstate \<Rightarrow> msg_t \<times> kstate" where
  "chMBPostAheadI mbp msg s =
     (if sint (chSemGetCounterI (mb_emptysem mbp) s) \<le> 0 then (RDY_TIMEOUT, s)
      else (RDY_OK, chSemSignalI (mb_fullsem mbp) (mb_write_ahead mbp msg (chSemFastWaitI (mb_emptysem mbp) s))))"

definition chMBFetchS :: "addr \<Rightarrow> systime_t \<Rightarrow> kstate \<Rightarrow> (msg_t \<times> msg_t option) run" where
  "chMBFetchS mbp time s =
     rbind (chSemWaitTimeoutS (mb_fullsem mbp) time s) (\<lambda>rdymsg s1.
       if rdymsg = RDY_OK
       then let (msg, s2) = mb_read mbp s1
            in rbind (chSchRescheduleS (chSemSignalI (mb_emptysem mbp) s2)) (\<lambda>_ s3. Done (rdymsg, Some msg) s3)
       else Done (rdymsg, None) s1)"

definition chMBFetch :: "addr \<Rightarrow> systime_t \<Rightarrow> kstate \<Rightarrow> (msg_t \<times> msg_t option) run" where
  "chMBFetch mbp time s = chMBFetchS mbp time s"

definition chMBFetchI :: "addr \<Rightarrow> kstate \<Rightarrow> (msg_t \<times> msg_t option) \<times> kstate" where
  "chMBFetchI mbp s =
     (if sint (chSemGetCounterI (mb_fullsem mbp) s) \<le> 0 then ((RDY_TIMEOUT, None), s)
      else let (msg, s1) = mb_read mbp (chSemFastWaitI (mb_fullsem mbp) s)
           in ((RDY_OK, Some msg), chSemSignalI (mb_emptysem mbp) s1))"

section \<open>The contents of a mailbox\<close>

interpretation words: cell_memory mem32 set32
  by unfold_locales simp

text \<open>
  A mailbox of \<open>n\<close> cells holds the messages \<open>xs\<close>.  The counters may be below the numbers of free
  and used cells: a cell is taken from its counter before it is accessed, and waiting threads
  make a counter negative.
\<close>

definition mb_ring :: "addr \<Rightarrow> nat \<Rightarrow> kstate \<Rightarrow> msg_t list \<Rightarrow> bool" where
  "mb_ring mbp n s xs \<longleftrightarrow>
     ring_holds mem32 4 n (mb_buffer (mbx s mbp)) (mb_top (mbx s mbp)) (mb_wrptr (mbx s mbp)) (mb_rdptr (mbx s mbp)) s xs"

definition mbox_holds :: "addr \<Rightarrow> nat \<Rightarrow> kstate \<Rightarrow> msg_t list \<Rightarrow> bool" where
  "mbox_holds mbp n s xs \<longleftrightarrow> mb_ring mbp n s xs \<and>
     sint (chMBGetFreeCountI mbp s) + int (length xs) \<le> int n \<and>
     sint (chMBGetUsedCountI mbp s) \<le> int (length xs)"

lemma mb_sems_distinct [simp]: "mb_emptysem mbp \<noteq> mb_fullsem mbp" "mb_fullsem mbp \<noteq> mb_emptysem mbp"
  by (simp_all add: mb_emptysem_def mb_fullsem_def)

lemma mb_ring_bound: "mb_ring mbp n s xs \<Longrightarrow> 0 < n \<and> n < 1073741824 \<and> length xs \<le> n"
  by (auto simp: mb_ring_def ring_holds_def room_def)

lemma mb_ring_frame:
  assumes "mbx s' mbp = mbx s mbp" and "mem32 s' = mem32 s"
  shows "mb_ring mbp n s' xs \<longleftrightarrow> mb_ring mbp n s xs"
  unfolding mb_ring_def assms(1) by (rule ring_holds_frame) (simp add: assms(2))

lemma advance_word: "advance 4 b t p = (if p + 4 \<ge> t then b else p + 4)"
  by (auto simp: advance_def)

lemma retreat_word: "retreat 4 b t p = (if p - 4 < b then t - 4 else p - 4)"
  by (auto simp: retreat_def)

lemma mb_write_ring:
  assumes "mb_ring mbp n s xs" and "length xs < n"
  shows "mb_ring mbp n (mb_write mbp msg s) (xs @ [msg])"
proof -
  let ?b = "mb_buffer (mbx s mbp)" and ?t = "mb_top (mbx s mbp)" and ?w = "mb_wrptr (mbx s mbp)"
  have "ring_holds mem32 4 n ?b ?t (advance 4 ?b ?t ?w) (mb_rdptr (mbx s mbp)) (set32 ?w msg s) (xs @ [msg])"
    by (rule words.put_last) (use assms in \<open>simp_all add: mb_ring_def\<close>)
  then show ?thesis
    unfolding mb_ring_def by (subst ring_holds_frame [where s = "set32 ?w msg s"])
      (simp_all add: mb_write_def Let_def advance_word split: if_splits)
qed

lemma mb_write_ahead_ring:
  assumes "mb_ring mbp n s xs" and "length xs < n"
  shows "mb_ring mbp n (mb_write_ahead mbp msg s) (msg # xs)"
proof -
  let ?b = "mb_buffer (mbx s mbp)" and ?t = "mb_top (mbx s mbp)" and ?r = "mb_rdptr (mbx s mbp)"
  have "ring_holds mem32 4 n ?b ?t (mb_wrptr (mbx s mbp)) (retreat 4 ?b ?t ?r) (set32 (retreat 4 ?b ?t ?r) msg s) (msg # xs)"
    by (rule words.put_first) (use assms in \<open>simp_all add: mb_ring_def\<close>)
  then show ?thesis
    unfolding mb_ring_def by (subst ring_holds_frame [where s = "set32 (retreat 4 ?b ?t ?r) msg s"])
      (simp_all add: mb_write_ahead_def Let_def retreat_word)
qed

lemma mb_read_ring:
  assumes "mb_ring mbp n s (x # xs)"
  shows "fst (mb_read mbp s) = x" and "mb_ring mbp n (snd (mb_read mbp s)) xs"
proof -
  let ?b = "mb_buffer (mbx s mbp)" and ?t = "mb_top (mbx s mbp)" and ?r = "mb_rdptr (mbx s mbp)"
  note R = words.take_first [OF assms [unfolded mb_ring_def]]
  show "fst (mb_read mbp s) = x" using R(1) by (simp add: mb_read_def Let_def)
  show "mb_ring mbp n (snd (mb_read mbp s)) xs"
    unfolding mb_ring_def by (subst ring_holds_frame [where s = s])
      (use R(2) in \<open>simp_all add: mb_read_def Let_def advance_word\<close>)
qed

section \<open>Frames\<close>

lemma chSemSignalI_frame [simp]:
  "mbx (chSemSignalI a s) = mbx s" "mem32 (chSemSignalI a s) = mem32 s" "mem8 (chSemSignalI a s) = mem8 s"
  "b \<noteq> a \<Longrightarrow> sem (chSemSignalI a s) b = sem s b"
  by (simp_all add: chSemSignalI_def chSchReadyI_def sem_fifo_remove_def Let_def split: prod.splits)

lemma mb_access_sem [simp]:
  "sem (mb_write mbp msg s) = sem s" "sem (mb_write_ahead mbp msg s) = sem s" "sem (snd (mb_read mbp s)) = sem s"
  by (simp_all add: mb_write_def mb_write_ahead_def mb_read_def Let_def)

lemma mb_ring_signal [simp]: "mb_ring mbp n (chSemSignalI a s) xs \<longleftrightarrow> mb_ring mbp n s xs"
  by (rule mb_ring_frame) simp_all

lemma mb_ring_take [simp]: "mb_ring mbp n (chSemFastWaitI a s) xs \<longleftrightarrow> mb_ring mbp n s xs"
  by (rule mb_ring_frame) (simp_all add: chSemFastWaitI_def)

lemmas mb_counts = chMBGetFreeCountI_def chMBGetUsedCountI_def chSemGetCounterI_def

lemma sint_up: "sint (x :: cnt_t) \<le> 1073741824 \<Longrightarrow> sint (x + 1) = sint x + 1"
  by (rule sint_inc) simp

lemma sint_down: "0 < sint (x :: cnt_t) \<Longrightarrow> sint (x - 1) = sint x - 1"
  by (rule sint_dec) simp

text \<open>What the two counters are when one unit has moved from the semaphore \<open>a\<close> to \<open>b\<close>.\<close>

lemma move_unit:
  assumes "a \<noteq> b" and "sem s1 = sem (chSemFastWaitI a s)"
  shows "s_cnt (sem (chSemSignalI b s1) a) = s_cnt (sem s a) - 1"
    and "s_cnt (sem (chSemSignalI b s1) b) = s_cnt (sem s b) + 1"
  using assms by (simp_all add: chSemFastWaitI_def)

lemma post_holds:
  assumes M: "mbox_holds mbp n s xs" and pos: "0 < sint (chMBGetFreeCountI mbp s)"
    and sm: "sem s1 = sem (chSemFastWaitI (mb_emptysem mbp) s)" and R: "mb_ring mbp n s1 ys" and l: "length ys = Suc (length xs)"
  shows "mbox_holds mbp n (chSemSignalI (mb_fullsem mbp) s1) ys"
proof -
  have b: "n < 1073741824" "length xs \<le> n" using M mb_ring_bound by (auto simp: mbox_holds_def)
  let ?t = "chSemSignalI (mb_fullsem mbp) s1"
  have "chMBGetFreeCountI mbp ?t = chMBGetFreeCountI mbp s - 1" "chMBGetUsedCountI mbp ?t = chMBGetUsedCountI mbp s + 1"
    unfolding mb_counts by (rule move_unit [OF mb_sems_distinct(1) sm])+
  then show ?thesis using M pos R l b by (simp add: mbox_holds_def sint_up sint_down)
qed

lemma fetch_holds:
  assumes M: "mbox_holds mbp n s (x # xs)" and pos: "0 < sint (chMBGetUsedCountI mbp s)"
    and sm: "sem s1 = sem (chSemFastWaitI (mb_fullsem mbp) s)" and R: "mb_ring mbp n s1 xs"
  shows "mbox_holds mbp n (chSemSignalI (mb_emptysem mbp) s1) xs"
proof -
  have b: "n < 1073741824" "length xs \<le> n" using M mb_ring_bound [of mbp n s "x # xs"] by (auto simp: mbox_holds_def)
  let ?t = "chSemSignalI (mb_emptysem mbp) s1"
  have "chMBGetUsedCountI mbp ?t = chMBGetUsedCountI mbp s - 1" "chMBGetFreeCountI mbp ?t = chMBGetFreeCountI mbp s + 1"
    unfolding mb_counts by (rule move_unit [OF mb_sems_distinct(2) sm])+
  then show ?thesis using M pos R b by (simp add: mbox_holds_def sint_up sint_down)
qed

lemma sem_wait_now:
  assumes "0 < sint (s_cnt (sem s a))"
  shows "chSemWaitTimeoutS a time s = Done RDY_OK (chSemFastWaitI a s)"
  using assms by (simp add: chSemWaitTimeoutS_def chSemFastWaitI_def sint_down Let_def)

lemma sem_wait_never:
  assumes "kinv0 s" and "sint (s_cnt (sem s a)) \<le> 0"
  shows "chSemWaitTimeoutS a TIME_IMMEDIATE s = Done RDY_TIMEOUT s"
  using sem_cnt_dec_neg [OF assms(1), of a] assms(2) upd_sem_idem [OF refl, where s = s and sp = a]
  by (simp add: chSemWaitTimeoutS_def Let_def)

section \<open>Properties\<close>

text \<open>
  C28: a mailbox is a bounded double-ended queue.  Posting appends the message, posting ahead
  prepends it, fetching takes the first one, which is also what peeking shows; the calls
  from threads do the same as those from interrupt handlers and then reschedule.  When no cell is
  free, or none is used, a call that may not wait fails with \<open>RDY_TIMEOUT\<close> and changes nothing.
\<close>

theorem mailbox_fifo:
  assumes K: "kinvU s" and M: "mbox_holds mbp n s xs"
  shows "(if 0 < sint (chMBGetFreeCountI mbp s)
      then length xs < n \<and>
        fst (chMBPostI mbp msg s) = RDY_OK \<and> mbox_holds mbp n (snd (chMBPostI mbp msg s)) (xs @ [msg]) \<and>
        fst (chMBPostAheadI mbp msg s) = RDY_OK \<and> mbox_holds mbp n (snd (chMBPostAheadI mbp msg s)) (msg # xs) \<and>
        chMBPost mbp msg time s = rbind (chSchRescheduleS (snd (chMBPostI mbp msg s))) (\<lambda>_ s'. Done RDY_OK s') \<and>
        chMBPostAhead mbp msg time s = rbind (chSchRescheduleS (snd (chMBPostAheadI mbp msg s))) (\<lambda>_ s'. Done RDY_OK s')
      else chMBPostI mbp msg s = (RDY_TIMEOUT, s) \<and> chMBPostAheadI mbp msg s = (RDY_TIMEOUT, s) \<and>
        chMBPost mbp msg TIME_IMMEDIATE s = Done RDY_TIMEOUT s \<and>
        chMBPostAhead mbp msg TIME_IMMEDIATE s = Done RDY_TIMEOUT s) \<and>
    (if 0 < sint (chMBGetUsedCountI mbp s)
      then xs \<noteq> [] \<and> chMBPeekI mbp s = hd xs \<and>
        fst (chMBFetchI mbp s) = (RDY_OK, Some (hd xs)) \<and> mbox_holds mbp n (snd (chMBFetchI mbp s)) (tl xs) \<and>
        chMBFetch mbp time s = rbind (chSchRescheduleS (snd (chMBFetchI mbp s))) (\<lambda>_ s'. Done (RDY_OK, Some (hd xs)) s')
      else chMBFetchI mbp s = ((RDY_TIMEOUT, None), s) \<and> chMBFetch mbp TIME_IMMEDIATE s = Done (RDY_TIMEOUT, None) s)"
    (is "?post \<and> ?fetch")
proof
  have K0: "kinv0 s" using K by (simp add: kinvU_def kinv_def)
  have R: "mb_ring mbp n s xs" using M by (simp add: mbox_holds_def)
  show ?post
  proof (cases "0 < sint (chMBGetFreeCountI mbp s)")
    case True
    then have l: "length xs < n" using M by (simp add: mbox_holds_def)
    let ?s = "chSemFastWaitI (mb_emptysem mbp) s"
    have "mb_ring mbp n (mb_write mbp msg ?s) (xs @ [msg])" "mb_ring mbp n (mb_write_ahead mbp msg ?s) (msg # xs)"
      by (rule mb_write_ring mb_write_ahead_ring; simp add: R l)+
    then have "mbox_holds mbp n (snd (chMBPostI mbp msg s)) (xs @ [msg])"
        "mbox_holds mbp n (snd (chMBPostAheadI mbp msg s)) (msg # xs)"
      using True by (auto simp: chMBPostI_def chMBPostAheadI_def mb_counts intro!: post_holds [OF M True])
    then show ?thesis using True l sem_wait_now [of s "mb_emptysem mbp" time]
      by (simp add: chMBPostI_def chMBPostAheadI_def chMBPost_def chMBPostAhead_def chMBPostS_def chMBPostAheadS_def mb_counts)
  next
    case False
    then show ?thesis using sem_wait_never [OF K0, of "mb_emptysem mbp"]
      by (simp add: chMBPostI_def chMBPostAheadI_def chMBPost_def chMBPostAhead_def chMBPostS_def chMBPostAheadS_def mb_counts)
  qed
  show ?fetch
  proof (cases "0 < sint (chMBGetUsedCountI mbp s)")
    case True
    then obtain x ys where xs: "xs = x # ys" using M by (cases xs) (auto simp: mbox_holds_def)
    let ?s = "chSemFastWaitI (mb_fullsem mbp) s"
    have r: "fst (mb_read mbp ?s) = x" "mb_ring mbp n (snd (mb_read mbp ?s)) ys"
      using mb_read_ring [of mbp n ?s x ys] R xs by simp_all
    obtain s1 where s1: "mb_read mbp ?s = (x, s1)" using r(1) by (cases "mb_read mbp ?s") auto
    have "mbox_holds mbp n (chSemSignalI (mb_emptysem mbp) s1) ys"
      by (rule fetch_holds [OF M [unfolded xs] True]) (use r(2) s1 mb_access_sem(3) [of mbp ?s] in auto)
    moreover have "chMBPeekI mbp s = x"
      using words.take_first(1) [OF R [unfolded xs mb_ring_def]] by (simp add: chMBPeekI_def)
    ultimately show ?thesis using True s1 sem_wait_now [of s "mb_fullsem mbp" time] xs
      by (simp add: chMBFetchI_def chMBFetch_def chMBFetchS_def mb_counts)
  next
    case False
    then show ?thesis using sem_wait_never [OF K0, of "mb_fullsem mbp"]
      by (simp add: chMBFetchI_def chMBFetch_def chMBFetchS_def mb_counts)
  qed
qed

lemma sample_mbox: "mbox_holds 1024 2 (chMBInit 1024 2048 2 sample) []"
proof -
  have "room 2048 4 2" by (simp add: room_def)
  from ring_empty [OF this, of mem32 "chMBInit 1024 2048 2 sample"] show ?thesis
    by (simp add: mbox_holds_def mb_ring_def mb_counts chMBInit_def chSemInit_def cell_def)
qed

lemma kinvU_same_core:
  assumes K: "kinvU s" and c: "same_core s s'" and sm: "sems_ok s'" shows "kinvU s'"
  using K kinv_same_core [of s s'] same_core_prio_ok [OF c] c sm
  by (auto simp: kinvU_def same_core_def chVTIsArmedI_def)

lemma chMBInit_kinvU:
  assumes K: "kinvU s" and n: "0 \<le> sint n"
    and q: "s_queue (sem s (mb_emptysem mbp)) = []" "s_queue (sem s (mb_fullsem mbp)) = []"
  shows "kinvU (chMBInit mbp buf n s)"
proof (rule kinvU_same_core [OF K])
  have "queue_of (chMBInit mbp buf n s) r = queue_of s r" for r
    using q by (cases r) (auto simp: chMBInit_def chSemInit_def)
  then show "same_core s (chMBInit mbp buf n s)"
    by (simp add: same_core_def chMBInit_def chSemInit_def)
  show "sems_ok (chMBInit mbp buf n s)"
    using K n by (auto simp: kinvU_def kinv_def kinv0_def sems_ok_def chMBInit_def chSemInit_def)
qed

theorem mailbox_fifo_witness:
  "let s = chMBInit 1024 2048 2 sample; s1 = snd (chMBPostI 1024 7 s)
   in fst (chMBPostI 1024 7 s) = RDY_OK \<and> mbox_holds 1024 2 s1 [7]"
proof -
  have "kinvU (chMBInit 1024 2048 2 sample)"
    by (rule chMBInit_kinvU [OF sample_kinvU]) (simp_all add: mb_emptysem_def mb_fullsem_def)
  from mailbox_fifo [OF this sample_mbox, of 7] show ?thesis
    by (simp add: mb_counts chMBInit_def chSemInit_def Let_def)
qed

section \<open>Resetting\<close>

lemma fold_ready_with_frame [simp]:
  "mbx (fold (\<lambda>t. ready_with t m) ts s) = mbx s" "mem32 (fold (\<lambda>t. ready_with t m) ts s) = mem32 s"
  by (induction ts arbitrary: s) (simp_all add: ready_with_eq chSchReadyI_def Let_def)

lemma sint_of_nat32: "m < 2147483648 \<Longrightarrow> sint (of_nat m :: u32) = int m"
  by (simp add: signed_of_nat signed_take_bit_int_eq_self)

lemma mb_size: "mb_ring mbp n s xs \<Longrightarrow> chMBSizeI mbp s = of_nat n"
proof -
  assume R: "mb_ring mbp n s xs"
  then have n: "n < 1073741824" using mb_ring_bound by blast
  have d: "mb_top (mbx s mbp) - mb_buffer (mbx s mbp) = of_nat (4 * n)"
    using R by (simp add: mb_ring_def ring_holds_def cell_def)
  have "unat (of_nat (4 * n) div 4 :: u32) = unat (of_nat n :: u32)"
    using n by (simp add: unat_div unat_of_nat del: of_nat_mult)
  then show ?thesis unfolding chMBSizeI_def d by (simp only: u32_eq_iff)
qed

lemma reset_frame:
  assumes "kinv s" and "sint (s_cnt (sem s sp)) < 2147483647"
  shows "mbx (chSemResetI sp n s) = mbx s" and "mem32 (chSemResetI sp n s) = mem32 s"
  by (simp_all add: chSemResetI_fold [OF assms])

lemma chMBReset_effect:
  assumes K: "kinvU s" and M: "mbox_holds mbp n s xs"
  shows "\<exists>s'. chMBReset mbp s = chSchRescheduleS s' \<and> iclass s s' \<and> mbox_holds mbp n s' [] \<and>
       chMBGetFreeCountI mbp s' = of_nat n \<and> chMBGetUsedCountI mbp s' = 0 \<and>
       (\<forall>t \<in> set (s_queue (sem s (mb_emptysem mbp))) \<union> set (s_queue (sem s (mb_fullsem mbp))).
          state_of s' t = THD_STATE_READY \<and> p_u (thd s' t) = RDY_RESET)"
proof -
  have K': "kinv s" and K0: "kinv0 s" using K by (simp_all add: kinvU_def kinv_def)
  have R: "mb_ring mbp n s xs" using M by (simp add: mbox_holds_def)
  have n: "0 < n" "n < 1073741824" "length xs \<le> n" using mb_ring_bound [OF R] by auto
  define s1 where "s1 = upd_mbx mbp (\<lambda>x. x\<lparr>mb_wrptr := mb_buffer x, mb_rdptr := mb_buffer x\<rparr>) s"
  have q: "queue_of s1 r = queue_of s r" for r by (cases r) (auto simp: s1_def)
  then have "same_core s s1" by (simp add: same_core_def s1_def)
  moreover have "sems_ok s1" using K0 by (simp add: kinv0_def sems_ok_def s1_def)
  ultimately have i1: "iclass s s1" using iclass_same_core [OF K'] by (simp add: s1_def)
  then have K1: "kinv s1" by (simp add: iclass_def)
  have sz: "(mb_top (mbx s1 mbp) - mb_buffer (mbx s1 mbp)) div 4 = of_nat n"
    using mb_size [OF R] by (simp add: chMBSizeI_def s1_def)
  have sn: "0 \<le> sint (of_nat n :: cnt_t)" "sint (of_nat n :: cnt_t) = int n"
    using n by (simp_all add: sint_of_nat32)
  define s2 where "s2 = chSemResetI (mb_emptysem mbp) (of_nat n) s1"
  define s3 where "s3 = chSemResetI (mb_fullsem mbp) 0 s2"
  have c1: "sint (s_cnt (sem s1 (mb_emptysem mbp))) < 2147483647"
    using M n by (simp add: mbox_holds_def mb_counts s1_def)
  note E1 = chSemResetI_effect [OF K1 c1, where n = "of_nat n", folded s2_def]
  have i2: "iclass s1 s2" unfolding s2_def by (rule chSemResetI_iclass [OF K1 c1 sn(1)])
  then have K2: "kinv s2" by (simp add: iclass_def)
  have c2: "sint (s_cnt (sem s2 (mb_fullsem mbp))) < 2147483647"
    using M n by (simp add: mbox_holds_def mb_counts E1(1) s1_def)
  note E2 = chSemResetI_effect [OF K2 c2, where n = 0, folded s3_def]
  have i3: "iclass s2 s3" unfolding s3_def by (rule chSemResetI_iclass [OF K2 c2]) simp
  have fr: "mbx s3 = mbx s1" "mem32 s3 = mem32 s1"
    unfolding s3_def reset_frame [OF K2 c2] unfolding s2_def reset_frame [OF K1 c1] by (rule refl)+
  have "mb_ring mbp n s1 []"
    using R ring_empty [of "mb_buffer (mbx s mbp)" 4 n mem32 s1] by (simp add: mb_ring_def ring_holds_def s1_def)
  then have "mb_ring mbp n s3 []" using mb_ring_frame [of s3 mbp s1 n "[]"] fr by simp
  then have "mbox_holds mbp n s3 []" "chMBGetFreeCountI mbp s3 = of_nat n" "chMBGetUsedCountI mbp s3 = 0"
    using n sn by (simp_all add: mbox_holds_def mb_counts E2(1) E1(1))
  moreover have "chMBReset mbp s = chSchRescheduleS s3"
    unfolding chMBReset_def Let_def s1_def [symmetric] sz s2_def [symmetric] s3_def ..
  moreover have "iclass s s3" using i1 i2 i3 iclass_trans by blast
  moreover have "state_of s3 t = THD_STATE_READY \<and> p_u (thd s3 t) = RDY_RESET"
    if "t \<in> set (s_queue (sem s (mb_emptysem mbp))) \<union> set (s_queue (sem s (mb_fullsem mbp)))" for t
    using that E1(2) [of t] E2(2) [of t] by (cases "t \<in> set (s_queue (sem s (mb_fullsem mbp)))") (auto simp: E1(1) s1_def)
  ultimately show ?thesis by blast
qed

text \<open>
  C29: resetting a mailbox empties it and sets its counters to all cells free and none used, and
  every waiting thread can run with \<open>RDY_RESET\<close>.  But a thread that waited to post, was woken with
  \<open>RDY_OK\<close> and has not run yet when the mailbox is reset, still stores its message afterwards: the
  mailbox then holds a message while its counter says that all cells are free.
\<close>

theorem mailbox_reset_race:
  assumes K: "kinvU s" and M: "mbox_holds mbp n s xs"
  shows "(\<exists>s'. chMBReset mbp s = chSchRescheduleS s' \<and> iclass s s' \<and> mbox_holds mbp n s' [] \<and>
       chMBGetFreeCountI mbp s' = of_nat n \<and> chMBGetUsedCountI mbp s' = 0 \<and>
       (\<forall>t \<in> set (s_queue (sem s (mb_emptysem mbp))) \<union> set (s_queue (sem s (mb_fullsem mbp))).
          state_of s' t = THD_STATE_READY \<and> p_u (thd s' t) = RDY_RESET)) \<and>
    (sint (chMBGetFreeCountI mbp s) \<le> 0 \<longrightarrow>
       (\<exists>m k. chMBPost mbp msg TIME_INFINITE s = Switch m k \<and> currp s \<in> set (s_queue (sem m (mb_emptysem mbp))) \<and>
         (\<forall>s1. mbox_holds mbp n s1 [] \<and> chMBGetFreeCountI mbp s1 = of_nat n \<and> p_u (thd s1 (currp s1)) = RDY_OK \<longrightarrow>
            (\<exists>s2. k s1 = rbind (chSchRescheduleS s2) (\<lambda>_ s3. Done RDY_OK s3) \<and>
               mb_ring mbp n s2 [msg] \<and> chMBGetFreeCountI mbp s2 = of_nat n))))"
    (is "?reset \<and> ?race")
proof
  have K0: "kinv0 s" using K by (simp add: kinvU_def kinv_def)
  have n: "0 < n" using M mb_ring_bound by (auto simp: mbox_holds_def)
  show ?reset by (rule chMBReset_effect [OF K M])
  show ?race
  proof
    assume le: "sint (chMBGetFreeCountI mbp s) \<le> 0"
    then have "sint (s_cnt (sem s (mb_emptysem mbp)) - 1) < 0" using sem_cnt_dec_neg [OF K0] by (simp add: mb_counts)
    then obtain m where m: "chSemWaitTimeoutS (mb_emptysem mbp) TIME_INFINITE s = Switch m (\<lambda>s1. Done (p_u (thd s1 (currp s1))) s1)"
        "currp s \<in> set (s_queue (sem m (mb_emptysem mbp)))"
      by (auto simp: chSemWaitTimeoutS_def chSchGoSleepTimeoutS_def chSchGoSleepS_def chSysSwitch_def sem_insert_def pick_next_def
        Let_def split: prod.splits)
    show "\<exists>m k. chMBPost mbp msg TIME_INFINITE s = Switch m k \<and> currp s \<in> set (s_queue (sem m (mb_emptysem mbp))) \<and>
         (\<forall>s1. mbox_holds mbp n s1 [] \<and> chMBGetFreeCountI mbp s1 = of_nat n \<and> p_u (thd s1 (currp s1)) = RDY_OK \<longrightarrow>
            (\<exists>s2. k s1 = rbind (chSchRescheduleS s2) (\<lambda>_ s3. Done RDY_OK s3) \<and>
               mb_ring mbp n s2 [msg] \<and> chMBGetFreeCountI mbp s2 = of_nat n))"
    proof (intro exI conjI allI impI)
      show "chMBPost mbp msg TIME_INFINITE s = Switch m (\<lambda>s1. rbind (Done (p_u (thd s1 (currp s1))) s1) (\<lambda>rdymsg s1.
          if rdymsg = RDY_OK
          then rbind (chSchRescheduleS (chSemSignalI (mb_fullsem mbp) (mb_write mbp msg s1))) (\<lambda>_ s2. Done rdymsg s2)
          else Done rdymsg s1))"
        unfolding chMBPost_def chMBPostS_def m(1) by simp
      fix s1 assume a: "mbox_holds mbp n s1 [] \<and> chMBGetFreeCountI mbp s1 = of_nat n \<and> p_u (thd s1 (currp s1)) = RDY_OK"
      let ?s2 = "chSemSignalI (mb_fullsem mbp) (mb_write mbp msg s1)"
      show "rbind (Done (p_u (thd s1 (currp s1))) s1) (\<lambda>rdymsg s1.
          if rdymsg = RDY_OK
          then rbind (chSchRescheduleS (chSemSignalI (mb_fullsem mbp) (mb_write mbp msg s1))) (\<lambda>_ s2. Done rdymsg s2)
          else Done rdymsg s1) = rbind (chSchRescheduleS ?s2) (\<lambda>_ s3. Done RDY_OK s3)"
        using a by simp
      show "mb_ring mbp n ?s2 [msg]" using a mb_write_ring [of mbp n s1 "[]"] n by (simp add: mbox_holds_def)
      show "chMBGetFreeCountI mbp ?s2 = of_nat n" using a by (simp add: mb_counts)
    qed (rule m(2))
  qed
qed

theorem mailbox_reset_race_witness:
  "\<exists>s'. chMBReset 1024 (chMBInit 1024 2048 2 sample) = chSchRescheduleS s' \<and> mbox_holds 1024 2 s' []"
proof -
  have "kinvU (chMBInit 1024 2048 2 sample)"
    by (rule chMBInit_kinvU [OF sample_kinvU]) (simp_all add: mb_emptysem_def mb_fullsem_def)
  from mailbox_reset_race [OF this sample_mbox] show ?thesis by blast
qed

end
