(* ===== verification/IOQueues.thy ===== *)
theory IOQueues
  imports Semaphores SampleSystem CircularBuffers
begin

text \<open>
  I/O queues (\<^verbatim>\<open>os/kernel/src/chqueues.c\<close>, \<^verbatim>\<open>chqueues.h\<close>): circular byte buffers
  between interrupt handlers and threads.  The notification callbacks of the drivers are a
  parameter: \<open>notify f qp\<close> is what the function at \<open>f\<close> does for the queue \<open>qp\<close>.  The loops of the
  functions that wait are \<open>rloop\<close>s: a round ends when the thread has been resumed or has given
  the others a chance to run.
\<close>

abbreviation (input) Q_OK :: msg_t where "Q_OK \<equiv> RDY_OK"
abbreviation (input) Q_TIMEOUT :: msg_t where "Q_TIMEOUT \<equiv> RDY_TIMEOUT"
abbreviation (input) Q_RESET :: msg_t where "Q_RESET \<equiv> RDY_RESET"
abbreviation (input) Q_EMPTY :: msg_t where "Q_EMPTY \<equiv> - 3"
abbreviation (input) Q_FULL :: msg_t where "Q_FULL \<equiv> - 4"

section \<open>Tests\<close>

definition chQSizeI :: "addr \<Rightarrow> kstate \<Rightarrow> size_t" where
  "chQSizeI qp s = q_top (ioq s qp) - q_buffer (ioq s qp)"

definition chQSpaceI :: "addr \<Rightarrow> kstate \<Rightarrow> size_t" where
  "chQSpaceI qp s = q_counter (ioq s qp)"

definition chQGetLink :: "addr \<Rightarrow> kstate \<Rightarrow> addr" where
  "chQGetLink qp s = q_link (ioq s qp)"

definition chIQGetFullI :: "addr \<Rightarrow> kstate \<Rightarrow> size_t" where
  "chIQGetFullI iqp s = chQSpaceI iqp s"

definition chIQGetEmptyI :: "addr \<Rightarrow> kstate \<Rightarrow> size_t" where
  "chIQGetEmptyI iqp s = chQSizeI iqp s - chQSpaceI iqp s"

definition chIQIsEmptyI :: "addr \<Rightarrow> kstate \<Rightarrow> bool" where
  "chIQIsEmptyI iqp s \<longleftrightarrow> chQSpaceI iqp s \<le> 0"

definition chIQIsFullI :: "addr \<Rightarrow> kstate \<Rightarrow> bool" where
  "chIQIsFullI iqp s \<longleftrightarrow> q_wrptr (ioq s iqp) = q_rdptr (ioq s iqp) \<and> q_counter (ioq s iqp) \<noteq> 0"

definition chOQGetFullI :: "addr \<Rightarrow> kstate \<Rightarrow> size_t" where
  "chOQGetFullI oqp s = chQSizeI oqp s - chQSpaceI oqp s"

definition chOQGetEmptyI :: "addr \<Rightarrow> kstate \<Rightarrow> size_t" where
  "chOQGetEmptyI oqp s = chQSpaceI oqp s"

definition chOQIsEmptyI :: "addr \<Rightarrow> kstate \<Rightarrow> bool" where
  "chOQIsEmptyI oqp s \<longleftrightarrow> q_wrptr (ioq s oqp) = q_rdptr (ioq s oqp) \<and> q_counter (ioq s oqp) \<noteq> 0"

definition chOQIsFullI :: "addr \<Rightarrow> kstate \<Rightarrow> bool" where
  "chOQIsFullI oqp s \<longleftrightarrow> chQSpaceI oqp s \<le> 0"

section \<open>Common parts\<close>

definition qwait :: "addr \<Rightarrow> systime_t \<Rightarrow> kstate \<Rightarrow> msg_t run" where
  "qwait qp time s =
     (if TIME_IMMEDIATE = time then Done Q_TIMEOUT s
      else let s1 = upd_thd (currp s) (\<lambda>t. t\<lparr>p_u := qp\<rparr>) s;
               s2 = upd_ioq qp (\<lambda>q. q\<lparr>q_waiting := q_waiting q @ [currp s1]\<rparr>) s1
           in chSchGoSleepTimeoutS THD_STATE_WTQUEUE time s2)"

text \<open>\<^verbatim>\<open>*q_wrptr++ = b\<close> and \<^verbatim>\<open>*q_rdptr++\<close> with the wrap-around.\<close>

definition q_write :: "addr \<Rightarrow> u8 \<Rightarrow> kstate \<Rightarrow> kstate" where
  "q_write qp b s =
     (let q = ioq s qp;
          w = q_wrptr q + 1
      in upd_ioq qp (\<lambda>q. q\<lparr>q_wrptr := if w \<ge> q_top q then q_buffer q else w\<rparr>) (set8 (q_wrptr q) b s))"

definition q_read :: "addr \<Rightarrow> kstate \<Rightarrow> u8 \<times> kstate" where
  "q_read qp s =
     (let q = ioq s qp;
          r = q_rdptr q + 1
      in (mem8 s (q_rdptr q), upd_ioq qp (\<lambda>q. q\<lparr>q_rdptr := if r \<ge> q_top q then q_buffer q else r\<rparr>) s))"

text \<open>\<^verbatim>\<open>chSchReadyI(fifo_remove(&qp->q_waiting))->p_u.rdymsg = msg\<close>\<close>

definition q_wake :: "addr \<Rightarrow> msg_t \<Rightarrow> kstate \<Rightarrow> kstate" where
  "q_wake qp msg s =
     (let (tp, q) = fifo_take qp (q_waiting (ioq s qp))
      in ready_with tp msg (upd_ioq qp (\<lambda>x. x\<lparr>q_waiting := q\<rparr>) s))"

function q_wake_all :: "addr \<Rightarrow> kstate \<Rightarrow> kstate" where
  "q_wake_all qp s = (if q_waiting (ioq s qp) \<noteq> [] then q_wake_all qp (q_wake qp Q_RESET s) else s)"
  by pat_completeness auto

lemma q_wake_waiting: "q_waiting (ioq (q_wake qp m s) qp) = tl (q_waiting (ioq s qp))"
  by (cases "q_waiting (ioq s qp)") (simp_all add: q_wake_def ready_with_def chSchReadyI_def Let_def)

termination q_wake_all
  by (relation "measure (\<lambda>(qp, s). length (q_waiting (ioq s qp)))") (auto simp: q_wake_waiting)

declare q_wake_all.simps [simp del]

section \<open>Input queues\<close>

definition chIQInit :: "addr \<Rightarrow> addr \<Rightarrow> size_t \<Rightarrow> addr \<Rightarrow> addr \<Rightarrow> kstate \<Rightarrow> kstate" where
  "chIQInit iqp bp sz infy link s =
     upd_ioq iqp (\<lambda>q. q\<lparr>q_waiting := [], q_counter := 0, q_buffer := bp, q_rdptr := bp, q_wrptr := bp,
       q_top := bp + sz, q_notify := infy, q_link := link\<rparr>) s"

definition chIQResetI :: "addr \<Rightarrow> kstate \<Rightarrow> kstate" where
  "chIQResetI iqp s =
     q_wake_all iqp (upd_ioq iqp (\<lambda>q. q\<lparr>q_rdptr := q_buffer q, q_wrptr := q_buffer q, q_counter := 0\<rparr>) s)"

definition chIQPutI :: "addr \<Rightarrow> u8 \<Rightarrow> kstate \<Rightarrow> msg_t \<times> kstate" where
  "chIQPutI iqp b s =
     (if chIQIsFullI iqp s then (Q_FULL, s)
      else let s1 = q_write iqp b (upd_ioq iqp (\<lambda>q. q\<lparr>q_counter := q_counter q + 1\<rparr>) s)
           in (Q_OK, if q_waiting (ioq s1 iqp) \<noteq> [] then q_wake iqp Q_OK s1 else s1))"

definition iq_take :: "addr \<Rightarrow> kstate \<Rightarrow> u8 \<times> kstate" where
  "iq_take iqp s = q_read iqp (upd_ioq iqp (\<lambda>q. q\<lparr>q_counter := q_counter q - 1\<rparr>) s)"

definition chIQGetTimeout :: "(addr \<Rightarrow> addr \<Rightarrow> kstate \<Rightarrow> kstate) \<Rightarrow> addr \<Rightarrow> systime_t \<Rightarrow> kstate \<Rightarrow> msg_t run" where
  "chIQGetTimeout notify iqp time s =
     rbind
       (rloop
          (\<lambda>_ s. if chIQIsEmptyI iqp s
                 then rbind (qwait iqp time s) (\<lambda>msg s. if sint msg < sint Q_OK then Done (Inl (Some msg)) s else Done (Inr ()) s)
                 else Done (Inl None) s)
          (Done (Inr ()) (if q_notify (ioq s iqp) \<noteq> NULL then notify (q_notify (ioq s iqp)) iqp s else s)))
       (\<lambda>failed s. case failed of
            Some msg \<Rightarrow> Done msg s
          | None \<Rightarrow> let (b, s1) = iq_take iqp s in Done (ucast b) s1)"

definition chIQGet :: "(addr \<Rightarrow> addr \<Rightarrow> kstate \<Rightarrow> kstate) \<Rightarrow> addr \<Rightarrow> kstate \<Rightarrow> msg_t run" where
  "chIQGet notify iqp s = chIQGetTimeout notify iqp TIME_INFINITE s"

text \<open>A round of the loops of \<open>chIQReadTimeout\<close>; \<open>fresh\<close> is set at the top of the outer loop.\<close>

definition iq_read_round ::
  "(addr \<Rightarrow> addr \<Rightarrow> kstate \<Rightarrow> kstate) \<Rightarrow> addr \<Rightarrow> addr \<Rightarrow> systime_t \<Rightarrow>
   bool \<times> size_t \<times> size_t \<times> addr \<Rightarrow> kstate \<Rightarrow> (size_t + bool \<times> size_t \<times> size_t \<times> addr) run" where
  "iq_read_round notify nfy iqp time = (\<lambda>(fresh, r, n, bp) s.
     let s0 = (if fresh \<and> nfy \<noteq> NULL then notify nfy iqp s else s)
     in if chIQIsEmptyI iqp s0
        then rbind (qwait iqp time s0) (\<lambda>msg s1. if msg \<noteq> Q_OK then Done (Inl r) s1 else Done (Inr (False, r, n, bp)) s1)
        else let (b, s1) = iq_take iqp s0
             in Unlock (set8 bp b s1) (\<lambda>s2.
                  if n - 1 = 0 then Done (Inl (r + 1)) s2 else Done (Inr (True, r + 1, n - 1, bp + 1)) s2))"

definition chIQReadTimeout ::
  "(addr \<Rightarrow> addr \<Rightarrow> kstate \<Rightarrow> kstate) \<Rightarrow> addr \<Rightarrow> addr \<Rightarrow> size_t \<Rightarrow> systime_t \<Rightarrow> kstate \<Rightarrow> size_t run" where
  "chIQReadTimeout notify iqp bp n time s =
     rloop (iq_read_round notify (q_notify (ioq s iqp)) iqp time) (Done (Inr (True, 0, n, bp)) s)"

section \<open>Output queues\<close>

definition chOQInit :: "addr \<Rightarrow> addr \<Rightarrow> size_t \<Rightarrow> addr \<Rightarrow> addr \<Rightarrow> kstate \<Rightarrow> kstate" where
  "chOQInit oqp bp sz onfy link s =
     upd_ioq oqp (\<lambda>q. q\<lparr>q_waiting := [], q_counter := sz, q_buffer := bp, q_rdptr := bp, q_wrptr := bp,
       q_top := bp + sz, q_notify := onfy, q_link := link\<rparr>) s"

definition chOQResetI :: "addr \<Rightarrow> kstate \<Rightarrow> kstate" where
  "chOQResetI oqp s =
     q_wake_all oqp (upd_ioq oqp (\<lambda>q. q\<lparr>q_rdptr := q_buffer q, q_wrptr := q_buffer q, q_counter := chQSizeI oqp s\<rparr>) s)"

definition oq_add :: "addr \<Rightarrow> u8 \<Rightarrow> kstate \<Rightarrow> kstate" where
  "oq_add oqp b s = q_write oqp b (upd_ioq oqp (\<lambda>q. q\<lparr>q_counter := q_counter q - 1\<rparr>) s)"

definition chOQPutTimeout ::
  "(addr \<Rightarrow> addr \<Rightarrow> kstate \<Rightarrow> kstate) \<Rightarrow> addr \<Rightarrow> u8 \<Rightarrow> systime_t \<Rightarrow> kstate \<Rightarrow> msg_t run" where
  "chOQPutTimeout notify oqp b time s =
     rbind
       (rloop
          (\<lambda>_ s. if chOQIsFullI oqp s
                 then rbind (qwait oqp time s) (\<lambda>msg s. if sint msg < sint Q_OK then Done (Inl (Some msg)) s else Done (Inr ()) s)
                 else Done (Inl None) s)
          (Done (Inr ()) s))
       (\<lambda>failed s. case failed of
            Some msg \<Rightarrow> Done msg s
          | None \<Rightarrow> let s1 = oq_add oqp b s
                    in Done Q_OK (if q_notify (ioq s1 oqp) \<noteq> NULL then notify (q_notify (ioq s1 oqp)) oqp s1 else s1))"

definition chOQPut :: "(addr \<Rightarrow> addr \<Rightarrow> kstate \<Rightarrow> kstate) \<Rightarrow> addr \<Rightarrow> u8 \<Rightarrow> kstate \<Rightarrow> msg_t run" where
  "chOQPut notify oqp b s = chOQPutTimeout notify oqp b TIME_INFINITE s"

definition chOQGetI :: "addr \<Rightarrow> kstate \<Rightarrow> msg_t \<times> kstate" where
  "chOQGetI oqp s =
     (if chOQIsEmptyI oqp s then (Q_EMPTY, s)
      else let (b, s1) = q_read oqp (upd_ioq oqp (\<lambda>q. q\<lparr>q_counter := q_counter q + 1\<rparr>) s)
           in (ucast b, if q_waiting (ioq s1 oqp) \<noteq> [] then q_wake oqp Q_OK s1 else s1))"

definition oq_write_round ::
  "(addr \<Rightarrow> addr \<Rightarrow> kstate \<Rightarrow> kstate) \<Rightarrow> addr \<Rightarrow> addr \<Rightarrow> systime_t \<Rightarrow>
   size_t \<times> size_t \<times> addr \<Rightarrow> kstate \<Rightarrow> (size_t + size_t \<times> size_t \<times> addr) run" where
  "oq_write_round notify nfy oqp time = (\<lambda>(w, n, bp) s.
     if chOQIsFullI oqp s
     then rbind (qwait oqp time s) (\<lambda>msg s1. if msg \<noteq> Q_OK then Done (Inl w) s1 else Done (Inr (w, n, bp)) s1)
     else let s1 = oq_add oqp (mem8 s bp) s;
              s2 = (if nfy \<noteq> NULL then notify nfy oqp s1 else s1)
          in Unlock s2 (\<lambda>s3. if n - 1 = 0 then Done (Inl (w + 1)) s3 else Done (Inr (w + 1, n - 1, bp + 1)) s3))"

definition chOQWriteTimeout ::
  "(addr \<Rightarrow> addr \<Rightarrow> kstate \<Rightarrow> kstate) \<Rightarrow> addr \<Rightarrow> addr \<Rightarrow> size_t \<Rightarrow> systime_t \<Rightarrow> kstate \<Rightarrow> size_t run" where
  "chOQWriteTimeout notify oqp bp n time s =
     rloop (oq_write_round notify (q_notify (ioq s oqp)) oqp time) (Done (Inr (0, n, bp)) s)"

section \<open>The contents of a queue\<close>

interpretation octets: cell_memory mem8 set8
  by unfold_locales simp

definition q_ring :: "addr \<Rightarrow> nat \<Rightarrow> kstate \<Rightarrow> u8 list \<Rightarrow> bool" where
  "q_ring qp n s xs \<longleftrightarrow>
     ring_holds mem8 1 n (q_buffer (ioq s qp)) (q_top (ioq s qp)) (q_wrptr (ioq s qp)) (q_rdptr (ioq s qp)) s xs"

text \<open>The counter of an input queue counts its bytes, that of an output queue its free cells.\<close>

definition iq_holds :: "addr \<Rightarrow> nat \<Rightarrow> kstate \<Rightarrow> u8 list \<Rightarrow> bool" where
  "iq_holds iqp n s xs \<longleftrightarrow> q_ring iqp n s xs \<and> unat (q_counter (ioq s iqp)) = length xs"

definition oq_holds :: "addr \<Rightarrow> nat \<Rightarrow> kstate \<Rightarrow> u8 list \<Rightarrow> bool" where
  "oq_holds oqp n s xs \<longleftrightarrow> q_ring oqp n s xs \<and> unat (q_counter (ioq s oqp)) + length xs = n"

lemma q_ring_bound: "q_ring qp n s xs \<Longrightarrow> 0 < n \<and> n < 4294967296 \<and> length xs \<le> n"
  by (auto simp: q_ring_def ring_holds_def room_def)

lemma unat_zero_iff: "(x :: u32) = 0 \<longleftrightarrow> unat x = 0"
  by (simp add: unat_eq_0)

lemma unat_suc: "unat (x :: u32) + 1 < 4294967296 \<Longrightarrow> unat (x + 1) = unat x + 1"
  by (simp add: unat_add32)

lemma unat_pred: "0 < unat (x :: u32) \<Longrightarrow> unat (x - 1) = unat x - 1"
  by (subst unat_sub32) simp_all

text \<open>A queue seen through changes that touch neither its pointers nor its cells.\<close>

definition same_q :: "addr \<Rightarrow> kstate \<Rightarrow> kstate \<Rightarrow> bool" where
  "same_q qp s s' \<longleftrightarrow>
     q_buffer (ioq s' qp) = q_buffer (ioq s qp) \<and> q_top (ioq s' qp) = q_top (ioq s qp) \<and>
     q_wrptr (ioq s' qp) = q_wrptr (ioq s qp) \<and> q_rdptr (ioq s' qp) = q_rdptr (ioq s qp) \<and> mem8 s' = mem8 s"

lemma q_ring_same: "same_q qp s s' \<Longrightarrow> q_ring qp n s' xs \<longleftrightarrow> q_ring qp n s xs"
  unfolding q_ring_def same_q_def by (elim conjE, simp only:, rule ring_holds_frame, simp)

lemma q_write_fields:
  "q_buffer (ioq (q_write qp b s) qp) = q_buffer (ioq s qp)" "q_top (ioq (q_write qp b s) qp) = q_top (ioq s qp)"
  "q_rdptr (ioq (q_write qp b s) qp) = q_rdptr (ioq s qp)"
  "q_wrptr (ioq (q_write qp b s) qp) = advance 1 (q_buffer (ioq s qp)) (q_top (ioq s qp)) (q_wrptr (ioq s qp))"
  "mem8 (q_write qp b s) = mem8 (set8 (q_wrptr (ioq s qp)) b s)"
  by (simp_all add: q_write_def Let_def advance_def)

lemma q_read_fields:
  "q_buffer (ioq (snd (q_read qp s)) qp) = q_buffer (ioq s qp)" "q_top (ioq (snd (q_read qp s)) qp) = q_top (ioq s qp)"
  "q_wrptr (ioq (snd (q_read qp s)) qp) = q_wrptr (ioq s qp)"
  "q_rdptr (ioq (snd (q_read qp s)) qp) = advance 1 (q_buffer (ioq s qp)) (q_top (ioq s qp)) (q_rdptr (ioq s qp))"
  "mem8 (snd (q_read qp s)) = mem8 s"
  by (simp_all add: q_read_def Let_def advance_def)

lemma q_write_ring:
  assumes "q_ring qp n s xs" and "length xs < n"
  shows "q_ring qp n (q_write qp b s) (xs @ [b])"
proof -
  have f: "mem8 (q_write qp b s) a = mem8 (set8 (q_wrptr (ioq s qp)) b s) a" for a
    by (simp only: q_write_fields(5))
  show ?thesis unfolding q_ring_def q_write_fields(1-4) ring_holds_frame [where rd = mem8, OF f]
    by (rule octets.put_last) (use assms in \<open>simp_all only: q_ring_def\<close>)
qed

lemma q_read_ring:
  assumes "q_ring qp n s (x # xs)"
  shows "fst (q_read qp s) = x" and "q_ring qp n (snd (q_read qp s)) xs"
proof -
  note R = octets.take_first [OF assms [unfolded q_ring_def]]
  show "fst (q_read qp s) = x" using R(1) by (simp add: q_read_def Let_def)
  have f: "mem8 (snd (q_read qp s)) a = mem8 s a" for a by (simp only: q_read_fields(5))
  show "q_ring qp n (snd (q_read qp s)) xs"
    unfolding q_ring_def q_read_fields(1-4) ring_holds_frame [where rd = mem8, OF f] by (rule R(2))
qed

lemma q_access_counter [simp]:
  "q_counter (ioq (q_write qp b s) qp) = q_counter (ioq s qp)"
  "q_counter (ioq (snd (q_read qp s)) qp) = q_counter (ioq s qp)"
  by (simp_all add: q_write_def q_read_def Let_def)

lemma q_wake_frame:
  "same_q qp s (q_wake qp' m s)" "q_counter (ioq (q_wake qp' m s) qp) = q_counter (ioq s qp)"
  by (simp_all add: same_q_def q_wake_def ready_with_def chSchReadyI_def Let_def split: prod.splits)

lemma q_count_frame: "same_q qp s (upd_ioq qp (\<lambda>q. q\<lparr>q_counter := c q\<rparr>) s)"
  by (simp add: same_q_def)

lemma iq_wake: "iq_holds iqp n (q_wake iqp m s) xs \<longleftrightarrow> iq_holds iqp n s xs"
  by (simp add: iq_holds_def q_ring_same [OF q_wake_frame(1)] q_wake_frame(2))

lemma oq_wake: "oq_holds oqp n (q_wake oqp m s) xs \<longleftrightarrow> oq_holds oqp n s xs"
  by (simp add: oq_holds_def q_ring_same [OF q_wake_frame(1)] q_wake_frame(2))

section \<open>Single bytes\<close>

lemma iq_empty: "iq_holds iqp n s xs \<Longrightarrow> chIQIsEmptyI iqp s \<longleftrightarrow> xs = []"
  by (auto simp: iq_holds_def chIQIsEmptyI_def chQSpaceI_def unat_zero_iff)

lemma iq_full:
  assumes "iq_holds iqp n s xs" shows "chIQIsFullI iqp s \<longleftrightarrow> length xs = n"
proof -
  have "q_wrptr (ioq s iqp) = q_rdptr (ioq s iqp) \<longleftrightarrow> xs = [] \<or> length xs = n"
    by (rule ring_full_or_empty [OF conjunct1 [OF assms [unfolded iq_holds_def q_ring_def]]])
  then show ?thesis using assms q_ring_bound [of iqp n s xs]
    by (auto simp: iq_holds_def chIQIsFullI_def unat_zero_iff)
qed

lemma iq_put_holds:
  assumes "iq_holds iqp n s xs" and "length xs < n"
  shows "iq_holds iqp n (q_write iqp b (upd_ioq iqp (\<lambda>q. q\<lparr>q_counter := q_counter q + 1\<rparr>) s)) (xs @ [b])"
  using assms q_write_ring [OF _ assms(2), of iqp "upd_ioq iqp (\<lambda>q. q\<lparr>q_counter := q_counter q + 1\<rparr>) s" b]
    unat_suc [of "q_counter (ioq s iqp)"] q_ring_bound [of iqp n s xs]
  unfolding iq_holds_def q_ring_same [OF q_count_frame] by auto

lemma iq_take_holds:
  assumes "iq_holds iqp n s (x # xs)"
  shows "fst (iq_take iqp s) = x" and "iq_holds iqp n (snd (iq_take iqp s)) xs"
  using assms q_read_ring [of iqp n "upd_ioq iqp (\<lambda>q. q\<lparr>q_counter := q_counter q - 1\<rparr>) s" x xs]
    unat_pred [of "q_counter (ioq s iqp)"]
  unfolding iq_holds_def iq_take_def q_ring_same [OF q_count_frame] by auto

lemma oq_empty:
  assumes "oq_holds oqp n s xs" shows "chOQIsEmptyI oqp s \<longleftrightarrow> xs = []"
proof -
  have "q_wrptr (ioq s oqp) = q_rdptr (ioq s oqp) \<longleftrightarrow> xs = [] \<or> length xs = n"
    by (rule ring_full_or_empty [OF conjunct1 [OF assms [unfolded oq_holds_def q_ring_def]]])
  then show ?thesis using assms q_ring_bound [of oqp n s xs]
    by (auto simp: oq_holds_def chOQIsEmptyI_def unat_zero_iff)
qed

lemma oq_full: "oq_holds oqp n s xs \<Longrightarrow> chOQIsFullI oqp s \<longleftrightarrow> length xs = n"
  by (auto simp: oq_holds_def chOQIsFullI_def chQSpaceI_def unat_zero_iff)

lemma oq_add_holds:
  assumes "oq_holds oqp n s xs" and "length xs < n"
  shows "oq_holds oqp n (oq_add oqp b s) (xs @ [b])"
  using assms q_write_ring [OF _ assms(2), of oqp "upd_ioq oqp (\<lambda>q. q\<lparr>q_counter := q_counter q - 1\<rparr>) s" b]
    unat_pred [of "q_counter (ioq s oqp)"]
  unfolding oq_holds_def oq_add_def q_ring_same [OF q_count_frame] by auto

lemma oq_get_holds:
  assumes "oq_holds oqp n s (x # xs)"
  shows "fst (q_read oqp (upd_ioq oqp (\<lambda>q. q\<lparr>q_counter := q_counter q + 1\<rparr>) s)) = x"
    and "oq_holds oqp n (snd (q_read oqp (upd_ioq oqp (\<lambda>q. q\<lparr>q_counter := q_counter q + 1\<rparr>) s))) xs"
  using assms q_read_ring [of oqp n "upd_ioq oqp (\<lambda>q. q\<lparr>q_counter := q_counter q + 1\<rparr>) s" x xs]
    unat_suc [of "q_counter (ioq s oqp)"] q_ring_bound [of oqp n s "x # xs"]
  unfolding oq_holds_def q_ring_same [OF q_count_frame] by auto

section \<open>Blocks of bytes\<close>

text \<open>Cells of a block in memory do not coincide.\<close>

lemma block_inj: "i < 4294967296 \<Longrightarrow> j < 4294967296 \<Longrightarrow> (bp + of_nat i = bp + of_nat j) = (i = j)" for bp :: u32
  by (simp add: u32_eq_iff [of "of_nat i"] unat_of_nat)

definition outside :: "addr \<Rightarrow> nat \<Rightarrow> addr \<Rightarrow> nat \<Rightarrow> bool" where
  "outside bp c b n \<longleftrightarrow> (\<forall>j<c. \<forall>i<n. bp + of_nat j \<noteq> cell b 1 i)"

lemma outside_step: "outside bp (Suc c) b n \<Longrightarrow> outside (bp + 1) c b n"
  unfolding outside_def
proof (intro allI impI)
  fix j i assume a: "\<forall>j<Suc c. \<forall>i<n. bp + of_nat j \<noteq> cell b 1 i" and "j < c" "i < n"
  then show "bp + 1 + of_nat j \<noteq> cell b 1 i" using a [rule_format, of "Suc j" i] by (simp add: add.assoc)
qed

lemma outside_first: "outside bp (Suc c) b n \<Longrightarrow> i < n \<Longrightarrow> cell b 1 i \<noteq> bp"
  unfolding outside_def by (drule spec [of _ 0]) auto

lemma outside_above:
  assumes "room b 1 n" and "unat b + n \<le> unat bp" and "unat bp + c \<le> 4294967296"
  shows "outside bp c b n"
  unfolding outside_def
proof (intro allI impI)
  fix j i assume "j < c" "i < n"
  then have "unat (bp + of_nat j) = unat bp + j" using assms(3) by (subst unat_add32) (simp_all add: unat_of_nat)
  then show "bp + of_nat j \<noteq> cell b 1 i"
    using cell_unat [OF assms(1), of i] assms(2) \<open>i < n\<close> by (auto simp: u32_eq_iff)
qed

lemma iq_take_frame:
  "mem8 (snd (iq_take iqp s)) = mem8 s" "q_buffer (ioq (snd (iq_take iqp s)) iqp) = q_buffer (ioq s iqp)"
  by (simp_all add: iq_take_def q_read_def Let_def)

text \<open>
  The contract of notification callbacks: the callback leaves the queue it is called for and
  the bytes of memory as they are.  It starts the device, which comes for the data by interrupt.
\<close>

definition quiet :: "(addr \<Rightarrow> addr \<Rightarrow> kstate \<Rightarrow> kstate) \<Rightarrow> addr \<Rightarrow> addr \<Rightarrow> bool" where
  "quiet notify nfy qp \<longleftrightarrow>
     nfy = NULL \<or> (\<forall>s. ioq (notify nfy qp s) qp = ioq s qp \<and> mem8 (notify nfy qp s) = mem8 s)"

definition told :: "(addr \<Rightarrow> addr \<Rightarrow> kstate \<Rightarrow> kstate) \<Rightarrow> addr \<Rightarrow> addr \<Rightarrow> kstate \<Rightarrow> kstate" where
  "told notify nfy qp s = (if nfy \<noteq> NULL then notify nfy qp s else s)"

lemma told_quiet:
  assumes "quiet notify nfy qp"
  shows "ioq (told notify nfy qp s) qp = ioq s qp" "mem8 (told notify nfy qp s) = mem8 s"
  using assms by (auto simp: quiet_def told_def)

lemma told_holds:
  assumes "quiet notify nfy qp"
  shows "iq_holds qp n (told notify nfy qp s) xs \<longleftrightarrow> iq_holds qp n s xs"
    "oq_holds qp n (told notify nfy qp s) xs \<longleftrightarrow> oq_holds qp n s xs"
  using told_quiet [OF assms, of s]
  by (simp_all add: iq_holds_def oq_holds_def q_ring_def ring_holds_def ring_list_def)

lemma iq_read_step:
  assumes H: "iq_holds iqp n s (x # ys)" and out: "outside bp (Suc c) (q_buffer (ioq s iqp)) n"
    and Q: "quiet notify nfy iqp"
  obtains s2 where "iq_read_round notify nfy iqp time (fresh, r, m, bp) s = Unlock s2 (\<lambda>s2.
      if m - 1 = 0 then Done (Inl (r + 1)) s2 else Done (Inr (True, r + 1, m - 1, bp + 1)) s2)"
    and "iq_holds iqp n s2 ys" and "q_buffer (ioq s2 iqp) = q_buffer (ioq s iqp)" and "mem8 s2 = (mem8 s)(bp := x)"
proof -
  define s0 where "s0 = (if fresh then told notify nfy iqp s else s)"
  have s0: "ioq s0 iqp = ioq s iqp" "mem8 s0 = mem8 s" using told_quiet [OF Q] by (simp_all add: s0_def)
  have H0: "iq_holds iqp n s0 (x # ys)" using H told_holds(1) [OF Q] by (simp add: s0_def)
  let ?s1 = "snd (iq_take iqp s0)"
  note t = iq_take_holds(1) [OF H0]
  have "mem8 (set8 bp x ?s1) (cell (q_buffer (ioq ?s1 iqp)) 1 j) = mem8 ?s1 (cell (q_buffer (ioq ?s1 iqp)) 1 j)" if "j < n" for j
    using outside_first [OF out that] by (simp add: iq_take_frame s0)
  then have "q_ring iqp n (set8 bp x ?s1) ys \<longleftrightarrow> q_ring iqp n ?s1 ys"
    unfolding q_ring_def by (subst ring_holds_frame_cells [where rd = mem8 and s = ?s1]) simp_all
  then have "iq_holds iqp n (set8 bp x ?s1) ys" using iq_take_holds(2) [OF H0] by (simp add: iq_holds_def)
  moreover have "iq_read_round notify nfy iqp time (fresh, r, m, bp) s = Unlock (set8 bp x ?s1) (\<lambda>s2.
      if m - 1 = 0 then Done (Inl (r + 1)) s2 else Done (Inr (True, r + 1, m - 1, bp + 1)) s2)"
  proof -
    have "(if fresh \<and> nfy \<noteq> NULL then notify nfy iqp s else s) = s0" by (simp add: s0_def told_def)
    then show ?thesis using iq_empty [OF H0] t by (cases "iq_take iqp s0") (simp add: iq_read_round_def)
  qed
  ultimately show ?thesis using that by (simp add: iq_take_frame s0)
qed

lemma iq_read_run:
  assumes "iq_holds iqp n s xs" and "m \<noteq> 0" and "unat m \<le> length xs \<or> time = TIME_IMMEDIATE"
    and "c = min (unat m) (length xs)" and "outside bp c (q_buffer (ioq s iqp)) n"
    and Q: "quiet notify nfy iqp"
  shows "\<exists>s'. run_until c id (rloop (iq_read_round notify nfy iqp time) (Done (Inr (fresh, r, m, bp)) s)) = Some (r + of_nat c, s') \<and>
    iq_holds iqp n s' (drop c xs) \<and> (\<forall>j<c. mem8 s' (bp + of_nat j) = xs ! j) \<and>
    (\<forall>a. (\<forall>j<c. a \<noteq> bp + of_nat j) \<longrightarrow> mem8 s' a = mem8 s a)"
  using assms(1-5)
proof (induction c arbitrary: s xs m bp fresh r)
  case 0
  moreover have "unat m \<noteq> 0" using 0(2) by (simp add: unat_eq_0)
  ultimately have xs: "xs = []" and time: "time = TIME_IMMEDIATE" by (auto simp: min_def split: if_splits)
  define s0 where "s0 = (if fresh then told notify nfy iqp s else s)"
  have H0: "iq_holds iqp n s0 xs" and m0: "mem8 s0 = mem8 s"
    using 0(1) told_holds(1) [OF Q] told_quiet(2) [OF Q] by (simp_all add: s0_def)
  have "(if fresh \<and> nfy \<noteq> NULL then notify nfy iqp s else s) = s0" by (simp add: s0_def told_def)
  then have "iq_read_round notify nfy iqp time (fresh, r, m, bp) s = Done (Inl r) s0"
    using iq_empty [OF H0] xs time by (simp add: iq_read_round_def qwait_def)
  then show ?case using H0 m0 xs by (subst rloop_round) simp_all
next
  case (Suc c)
  then obtain x ys where xs: "xs = x # ys" by (cases xs) auto
  have um: "unat (m - 1) = unat m - 1" using Suc.prems(2) by (intro unat_pred) (simp add: unat_gt_0)
  obtain s2 where s2: "iq_read_round notify nfy iqp time (fresh, r, m, bp) s = Unlock s2 (\<lambda>s2.
      if m - 1 = 0 then Done (Inl (r + 1)) s2 else Done (Inr (True, r + 1, m - 1, bp + 1)) s2)"
    "iq_holds iqp n s2 ys" "q_buffer (ioq s2 iqp) = q_buffer (ioq s iqp)" "mem8 s2 = (mem8 s)(bp := x)"
    by (rule iq_read_step [OF Suc.prems(1) [unfolded xs] Suc.prems(5) Q])
  have run: "run_until (Suc c) id (rloop (iq_read_round notify nfy iqp time) (Done (Inr (fresh, r, m, bp)) s)) =
      run_until c id (rloop (iq_read_round notify nfy iqp time)
        (if m - 1 = 0 then Done (Inl (r + 1)) s2 else Done (Inr (True, r + 1, m - 1, bp + 1)) s2))"
    by (subst rloop_round) (simp_all add: s2(1))
  show ?case
  proof (cases "m - 1 = 0")
    case True
    then have "c = 0" using um Suc.prems(4) xs by simp
    then show ?thesis unfolding run using True s2 xs by simp
  next
    case False
    have "\<exists>s'. run_until c id (rloop (iq_read_round notify nfy iqp time) (Done (Inr (True, r + 1, m - 1, bp + 1)) s2)) =
        Some (r + 1 + of_nat c, s') \<and> iq_holds iqp n s' (drop c ys) \<and>
        (\<forall>j<c. mem8 s' (bp + 1 + of_nat j) = ys ! j) \<and> (\<forall>a. (\<forall>j<c. a \<noteq> bp + 1 + of_nat j) \<longrightarrow> mem8 s' a = mem8 s2 a)"
      by (rule Suc.IH [OF s2(2) False])
        (use Suc.prems um xs outside_step [OF Suc.prems(5)] s2(3) in auto)
    then obtain s' where s': "run_until c id (rloop (iq_read_round notify nfy iqp time) (Done (Inr (True, r + 1, m - 1, bp + 1)) s2)) =
        Some (r + 1 + of_nat c, s')" "iq_holds iqp n s' (drop c ys)"
        and new: "\<And>j. j < c \<Longrightarrow> mem8 s' (bp + 1 + of_nat j) = ys ! j"
        and old: "\<And>a. (\<forall>j<c. a \<noteq> bp + 1 + of_nat j) \<Longrightarrow> mem8 s' a = mem8 s2 a" by blast
    have "length xs < 4294967296" using Suc.prems(1) q_ring_bound [of iqp n s xs] by (auto simp: iq_holds_def)
    then have c: "Suc c < 4294967296" using Suc.prems(4) by linarith
    have "mem8 s' bp = x" 
    proof -
      have "bp \<noteq> bp + 1 + of_nat j" if "j < c" for j
        using block_inj [of 0 "Suc j" bp] that c by (simp add: add.assoc)
      then show ?thesis using old [of bp] s2(4) by simp
    qed
    then have "mem8 s' (bp + of_nat j) = xs ! j" if "j < Suc c" for j
      using that new [of "j - 1"] xs by (cases j) (simp_all add: add.assoc)
    moreover have "mem8 s' a = mem8 s a" if "\<forall>j<Suc c. a \<noteq> bp + of_nat j" for a
    proof -
      have "a \<noteq> bp" using that [rule_format, of 0] by simp
      moreover have "a \<noteq> bp + 1 + of_nat j" if "j < c" for j
        using \<open>\<forall>j<Suc c. a \<noteq> bp + of_nat j\<close> [rule_format, of "Suc j"] that by (simp add: add.assoc)
      ultimately show ?thesis using old [of a] s2(4) by simp
    qed
    ultimately show ?thesis unfolding run using False s' xs by (simp add: add.assoc)
  qed
qed

lemma q_ring_wrptr:
  assumes "q_ring qp n s xs" obtains i where "i < n" and "q_wrptr (ioq s qp) = cell (q_buffer (ioq s qp)) 1 i"
  using assms unfolding q_ring_def ring_holds_def room_def by (metis mod_less_divisor)

lemma oq_add_fields:
  "q_buffer (ioq (oq_add oqp b s) oqp) = q_buffer (ioq s oqp)"
  "mem8 (oq_add oqp b s) = (mem8 s)(q_wrptr (ioq s oqp) := b)"
  by (simp_all add: oq_add_def q_write_def Let_def)

lemma oq_add_outside:
  assumes H: "oq_holds oqp n s xs" and out: "outside bp c (q_buffer (ioq s oqp)) n" and j: "j < c"
  shows "mem8 (oq_add oqp b s) (bp + of_nat j) = mem8 s (bp + of_nat j)"
proof -
  obtain i where "i < n" "q_wrptr (ioq s oqp) = cell (q_buffer (ioq s oqp)) 1 i"
    by (rule q_ring_wrptr [OF conjunct1 [OF H [unfolded oq_holds_def]]])
  then show ?thesis using out j by (simp add: oq_add_fields outside_def)
qed

lemma oq_write_run:
  assumes "oq_holds oqp n s xs" and "m \<noteq> 0" and "unat m \<le> n - length xs \<or> time = TIME_IMMEDIATE"
    and "c = min (unat m) (n - length xs)" and "outside bp c (q_buffer (ioq s oqp)) n"
    and Q: "quiet notify nfy oqp"
  shows "\<exists>s'. run_until c id (rloop (oq_write_round notify nfy oqp time) (Done (Inr (w, m, bp)) s)) = Some (w + of_nat c, s') \<and>
    oq_holds oqp n s' (xs @ map (\<lambda>j. mem8 s (bp + of_nat j)) [0..<c])"
  using assms(1-5)
proof (induction c arbitrary: s xs m bp w)
  case 0
  moreover have "unat m \<noteq> 0" using 0(2) by (simp add: unat_eq_0)
  moreover have "length xs \<le> n" using 0(1) by (simp add: oq_holds_def)
  ultimately have xs: "length xs = n" and time: "time = TIME_IMMEDIATE" by (auto simp: min_def split: if_splits)
  have "oq_write_round notify nfy oqp time (w, m, bp) s = Done (Inl w) s"
    using oq_full [OF 0(1)] xs time by (simp add: oq_write_round_def qwait_def Let_def)
  then show ?case using 0(1) xs by (subst rloop_round) simp_all
next
  case (Suc c)
  have l: "length xs < n" using Suc.prems(4) by linarith
  have um: "unat (m - 1) = unat m - 1" using Suc.prems(2) by (intro unat_pred) (simp add: unat_gt_0)
  define s2 where "s2 = told notify nfy oqp (oq_add oqp (mem8 s bp) s)"
  have H2: "oq_holds oqp n s2 (xs @ [mem8 s bp])"
    unfolding s2_def told_holds [OF Q] by (rule oq_add_holds [OF Suc.prems(1) l])
  note t = told_quiet [OF Q]
  have same: "mem8 s2 (bp + 1 + of_nat j) = mem8 s (bp + of_nat (Suc j))" if "j < c" for j
    using oq_add_outside [OF Suc.prems(1,5), of "Suc j"] that by (simp add: s2_def t add.assoc)
  have e: "oq_write_round notify nfy oqp time (w, m, bp) s = Unlock s2 (\<lambda>s3.
      if m - 1 = 0 then Done (Inl (w + 1)) s3 else Done (Inr (w + 1, m - 1, bp + 1)) s3)"
    using oq_full [OF Suc.prems(1)] l by (simp add: oq_write_round_def Let_def s2_def told_def)
  have run: "run_until (Suc c) id (rloop (oq_write_round notify nfy oqp time) (Done (Inr (w, m, bp)) s)) =
      run_until c id (rloop (oq_write_round notify nfy oqp time)
        (if m - 1 = 0 then Done (Inl (w + 1)) s2 else Done (Inr (w + 1, m - 1, bp + 1)) s2))"
    by (subst rloop_round) (simp_all add: e)
  have data: "map (\<lambda>j. mem8 s (bp + of_nat j)) [0..<Suc c] = mem8 s bp # map (\<lambda>j. mem8 s2 (bp + 1 + of_nat j)) [0..<c]"
  proof -
    have "[0..<Suc c] = 0 # map Suc [0..<c]" by (metis map_Suc_upt upt_conv_Cons zero_less_Suc)
    then show ?thesis using same by (simp del: upt_Suc)
  qed
  show ?case
  proof (cases "m - 1 = 0")
    case True
    then have "c = 0" using um Suc.prems(4) l by simp
    then show ?thesis unfolding run data using True H2 by simp
  next
    case False
    have "\<exists>s'. run_until c id (rloop (oq_write_round notify nfy oqp time) (Done (Inr (w + 1, m - 1, bp + 1)) s2)) =
        Some (w + 1 + of_nat c, s') \<and> oq_holds oqp n s' ((xs @ [mem8 s bp]) @ map (\<lambda>j. mem8 s2 (bp + 1 + of_nat j)) [0..<c])"
      by (rule Suc.IH [OF H2 False])
        (use Suc.prems um outside_step [OF Suc.prems(5)] in \<open>auto simp: s2_def t oq_add_fields\<close>)
    then show ?thesis unfolding run data using False by (simp add: add.assoc)
  qed
qed

section \<open>Properties\<close>

lemma q_wake_effect:
  assumes "q_waiting (ioq s qp) = t # ts"
  shows "state_of (q_wake qp m s) t = THD_STATE_READY \<and> p_u (thd (q_wake qp m s) t) = m \<and> q_waiting (ioq (q_wake qp m s) qp) = ts"
  using assms q_wake_waiting [of qp m s] by (simp add: q_wake_def ready_with_def)

lemma q_access_waiting [simp]:
  "q_waiting (ioq (q_write qp b s) qp) = q_waiting (ioq s qp)"
  "q_waiting (ioq (snd (q_read qp s)) qp) = q_waiting (ioq s qp)"
  by (simp_all add: q_write_def q_read_def Let_def)

text \<open>A callback that, like those of the drivers, marks the device as started.\<close>

definition mark :: "addr \<Rightarrow> addr \<Rightarrow> kstate \<Rightarrow> kstate" where
  "mark f qp s = s\<lparr>mem32 := (mem32 s)(f := 1)\<rparr>"

lemma mark_quiet: "quiet mark f qp"
  by (simp add: quiet_def mark_def)

text \<open>
  C30: an input queue is a bounded queue of bytes.  The interrupt handler's \<open>chIQPutI\<close> appends a
  byte and wakes the first waiting thread, or refuses it, changing nothing, exactly when the queue
  is full.  A thread gets the bytes in the order of their arrival: \<open>chIQGetTimeout\<close> takes
  the first, and \<open>chIQReadTimeout\<close>, not interfered with, takes as many as it was asked for and
  are there, when there are enough or it may not wait, and stores them in order; from an empty
  queue a call that may not wait returns \<open>Q_TIMEOUT\<close>, having done no more than call the
  notification callback.  The queue may have no callback or one that is \<open>quiet\<close>: it leaves the queue
  and the bytes of memory as they are.
\<close>

theorem input_queue_fifo:
  assumes H: "iq_holds iqp n s xs" and nn: "quiet notify (q_notify (ioq s iqp)) iqp"
  shows "(if length xs = n then chIQPutI iqp b s = (Q_FULL, s)
      else fst (chIQPutI iqp b s) = Q_OK \<and> iq_holds iqp n (snd (chIQPutI iqp b s)) (xs @ [b]) \<and>
        (\<forall>t ts. q_waiting (ioq s iqp) = t # ts \<longrightarrow>
           state_of (snd (chIQPutI iqp b s)) t = THD_STATE_READY \<and> p_u (thd (snd (chIQPutI iqp b s)) t) = Q_OK \<and>
           q_waiting (ioq (snd (chIQPutI iqp b s)) iqp) = ts)) \<and>
    (case xs of
       [] \<Rightarrow> chIQGetTimeout notify iqp TIME_IMMEDIATE s = Done Q_TIMEOUT (told notify (q_notify (ioq s iqp)) iqp s)
     | x # ys \<Rightarrow> \<exists>s'. chIQGetTimeout notify iqp time s = Done (ucast x) s' \<and> iq_holds iqp n s' ys) \<and>
    (\<forall>c. m \<noteq> 0 \<and> c = min (unat m) (length xs) \<and> (unat m \<le> length xs \<or> time = TIME_IMMEDIATE) \<and>
         outside bp c (q_buffer (ioq s iqp)) n \<longrightarrow>
       (\<exists>s'. run_until c id (chIQReadTimeout notify iqp bp m time s) = Some (of_nat c, s') \<and>
          iq_holds iqp n s' (drop c xs) \<and> (\<forall>j<c. mem8 s' (bp + of_nat j) = xs ! j)))"
    (is "?put \<and> ?get \<and> ?read")
proof (intro conjI)
  have le: "length xs \<le> n" using H q_ring_bound [of iqp n s xs] by (simp add: iq_holds_def)
  show ?put
  proof (cases "length xs = n")
    case True
    then show ?thesis using iq_full [OF H] by (simp add: chIQPutI_def)
  next
    case False
    define s1 where "s1 = q_write iqp b (upd_ioq iqp (\<lambda>q. q\<lparr>q_counter := q_counter q + 1\<rparr>) s)"
    have put: "chIQPutI iqp b s = (Q_OK, if q_waiting (ioq s1 iqp) \<noteq> [] then q_wake iqp Q_OK s1 else s1)"
      using iq_full [OF H] False by (simp add: chIQPutI_def s1_def Let_def)
    have w: "q_waiting (ioq s1 iqp) = q_waiting (ioq s iqp)" by (simp add: s1_def)
    have "iq_holds iqp n s1 (xs @ [b])" unfolding s1_def by (rule iq_put_holds [OF H]) (use le False in simp)
    then show ?thesis unfolding put using False q_wake_effect [of s1 iqp _ _ Q_OK] w by (auto simp: iq_wake)
  qed
  have H0: "iq_holds iqp n (told notify (q_notify (ioq s iqp)) iqp s) xs" using H told_holds(1) [OF nn] by simp
  note get = chIQGetTimeout_def [of notify iqp _ s, folded told_def]
  show ?get
  proof (cases xs)
    case Nil
    then show ?thesis using iq_empty [OF H0]
      by (simp add: get qwait_def rloop_round)
  next
    case (Cons x ys)
    then show ?thesis using iq_empty [OF H0] iq_take_holds [OF H0 [unfolded Cons]]
      by (simp add: get rloop_round case_prod_unfold)
  qed
  show ?read
    using iq_read_run [OF H, of m time _ bp notify "q_notify (ioq s iqp)" True 0] nn unfolding chIQReadTimeout_def by auto
qed

theorem input_queue_fifo_witness:
  "let s = q_write 1024 7 (upd_ioq 1024 (\<lambda>q. q\<lparr>q_counter := q_counter q + 1\<rparr>) (chIQInit 1024 2048 4 32 NULL sample))
   in iq_holds 1024 4 s [7] \<and> (\<exists>s'. chIQGetTimeout mark 1024 10 s = Done 7 s' \<and> iq_holds 1024 4 s' []) \<and>
     (\<exists>s'. run_until 1 id (chIQReadTimeout mark 1024 4096 1 10 s) = Some (1, s') \<and> iq_holds 1024 4 s' [] \<and> mem8 s' 4096 = 7)"
proof -
  define s where "s = q_write 1024 7 (upd_ioq 1024 (\<lambda>q. q\<lparr>q_counter := q_counter q + 1\<rparr>) (chIQInit 1024 2048 4 32 NULL sample))"
  have rm: "room 2048 1 4" by (simp add: room_def)
  from ring_empty [OF rm, of mem8 "chIQInit 1024 2048 4 32 NULL sample"]
  have "iq_holds 1024 4 (chIQInit 1024 2048 4 32 NULL sample) []"
    by (simp add: iq_holds_def q_ring_def chIQInit_def cell_def)
  from iq_put_holds [OF this, of 7] have H: "iq_holds 1024 4 s [7]" by (simp add: s_def)
  have nn: "quiet mark (q_notify (ioq s 1024)) 1024" and b: "q_buffer (ioq s 1024) = 2048"
    by (simp_all add: s_def q_write_def chIQInit_def Let_def mark_quiet)
  have "outside 4096 1 2048 4" by (rule outside_above [OF rm]) simp_all
  then show ?thesis
    using input_queue_fifo [OF H nn, of 0 10 1 4096] H b unfolding s_def [symmetric] Let_def by simp
qed

text \<open>
  C31: an output queue is a bounded queue of bytes.  \<open>chOQPutTimeout\<close> appends a byte, or returns
  \<open>Q_TIMEOUT\<close> when the queue is full and it may not wait; \<open>chOQWriteTimeout\<close>, not interfered with,
  appends as many of the given bytes, in order, as fit, when all of them fit or it may not wait.  The interrupt
  handler's \<open>chOQGetI\<close> takes the first byte and wakes the first waiting thread, or
  returns \<open>Q_EMPTY\<close>, changing nothing, exactly when the queue is empty.  The queue may have no
  notification callback or one that is \<open>quiet\<close>: it leaves the queue and the bytes of memory as they are.
\<close>

theorem output_queue_fifo:
  assumes H: "oq_holds oqp n s xs" and nn: "quiet notify (q_notify (ioq s oqp)) oqp"
  shows "(case xs of
       [] \<Rightarrow> chOQGetI oqp s = (Q_EMPTY, s)
     | x # ys \<Rightarrow> fst (chOQGetI oqp s) = ucast x \<and> oq_holds oqp n (snd (chOQGetI oqp s)) ys \<and>
         (\<forall>t ts. q_waiting (ioq s oqp) = t # ts \<longrightarrow>
           state_of (snd (chOQGetI oqp s)) t = THD_STATE_READY \<and> p_u (thd (snd (chOQGetI oqp s)) t) = Q_OK \<and>
           q_waiting (ioq (snd (chOQGetI oqp s)) oqp) = ts)) \<and>
    (if length xs = n then chOQPutTimeout notify oqp b TIME_IMMEDIATE s = Done Q_TIMEOUT s
     else \<exists>s'. chOQPutTimeout notify oqp b time s = Done Q_OK s' \<and> oq_holds oqp n s' (xs @ [b])) \<and>
    (\<forall>c. m \<noteq> 0 \<and> c = min (unat m) (n - length xs) \<and> (unat m \<le> n - length xs \<or> time = TIME_IMMEDIATE) \<and>
         outside bp c (q_buffer (ioq s oqp)) n \<longrightarrow>
       (\<exists>s'. run_until c id (chOQWriteTimeout notify oqp bp m time s) = Some (of_nat c, s') \<and>
          oq_holds oqp n s' (xs @ map (\<lambda>j. mem8 s (bp + of_nat j)) [0..<c])))"
    (is "?get \<and> ?put \<and> ?wr")
proof (intro conjI)
  have le: "length xs \<le> n" using H by (simp add: oq_holds_def)
  show ?get
  proof (cases xs)
    case Nil
    then show ?thesis using oq_empty [OF H] by (simp add: chOQGetI_def)
  next
    case (Cons x ys)
    define s1 where "s1 = snd (q_read oqp (upd_ioq oqp (\<lambda>q. q\<lparr>q_counter := q_counter q + 1\<rparr>) s))"
    note G = oq_get_holds [OF H [unfolded Cons], folded s1_def]
    have get: "chOQGetI oqp s = (ucast x, if q_waiting (ioq s1 oqp) \<noteq> [] then q_wake oqp Q_OK s1 else s1)"
      using oq_empty [OF H] Cons G(1) by (simp add: chOQGetI_def s1_def Let_def case_prod_unfold)
    have w: "q_waiting (ioq s1 oqp) = q_waiting (ioq s oqp)" by (simp add: s1_def)
    show ?thesis unfolding get using Cons G(2) q_wake_effect [of s1 oqp _ _ Q_OK] w by (auto simp: oq_wake)
  qed
  show ?put
  proof (cases "length xs = n")
    case True
    then show ?thesis using oq_full [OF H] by (simp add: chOQPutTimeout_def qwait_def rloop_round)
  next
    case False
    have q: "q_notify (ioq (oq_add oqp b s) oqp) = q_notify (ioq s oqp)" by (simp add: oq_add_def q_write_def Let_def)
    have "chOQPutTimeout notify oqp b time s = Done Q_OK (told notify (q_notify (ioq s oqp)) oqp (oq_add oqp b s))"
      using oq_full [OF H] False by (simp add: chOQPutTimeout_def rloop_round Let_def q told_def)
    then show ?thesis using False oq_add_holds [OF H, of b] le told_holds(2) [OF nn] by simp
  qed
  show ?wr
    using oq_write_run [OF H, of m time _ bp notify "q_notify (ioq s oqp)" 0] nn unfolding chOQWriteTimeout_def by auto
qed

theorem output_queue_fifo_witness:
  "let s = (chOQInit 1024 2048 4 32 NULL sample)\<lparr>mem8 := (\<lambda>_. 0)(4096 := 5, 4097 := 6)\<rparr>
   in oq_holds 1024 4 s [] \<and> (\<exists>s'. chOQPutTimeout mark 1024 9 10 s = Done Q_OK s' \<and> oq_holds 1024 4 s' [9]) \<and>
     (\<exists>s'. run_until 2 id (chOQWriteTimeout mark 1024 4096 2 10 s) = Some (2, s') \<and> oq_holds 1024 4 s' [5, 6])"
proof -
  define s where "s = (chOQInit 1024 2048 4 32 NULL sample)\<lparr>mem8 := (\<lambda>_. 0)(4096 := 5, 4097 := 6)\<rparr>"
  have rm: "room 2048 1 4" by (simp add: room_def)
  from ring_empty [OF rm, of mem8 s] have H: "oq_holds 1024 4 s []"
    by (simp add: oq_holds_def q_ring_def chOQInit_def cell_def s_def)
  have nn: "quiet mark (q_notify (ioq s 1024)) 1024" and b: "q_buffer (ioq s 1024) = 2048"
    and m: "mem8 s 4096 = 5" "mem8 s 4097 = 6"
    by (simp_all add: s_def chOQInit_def mark_quiet)
  have "outside 4096 2 2048 4" by (rule outside_above [OF rm]) simp_all
  then show ?thesis
    using output_queue_fifo [OF H nn, of 9 10 2 4096] H b m unfolding s_def [symmetric] Let_def
    by (simp add: upt_rec)
qed

section \<open>Waiting on a queue\<close>

text \<open>The rule for loops: an invariant of the rounds, each of which gives up the processor or ends the loop.\<close>

lemma safe_loop:
  assumes step: "\<And>x s. I x s \<Longrightarrow> safe me (\<lambda>y s'. case y of Inl a \<Rightarrow> Q a s' | Inr x' \<Rightarrow> I x' s') s (body x s)"
    and prog: "\<And>x s x' s'. I x s \<Longrightarrow> body x s \<noteq> Done (Inr x') s'"
    and init: "safe me (\<lambda>y s'. case y of Inl a \<Rightarrow> Q a s' | Inr x' \<Rightarrow> I x' s') s0 r"
  shows "safe me Q s0 (rloop body r)"
  using init
proof (coinduction arbitrary: s0 r rule: safe.coinduct)
  case (safe s0 r)
  from this show ?case
  proof (cases rule: safe.cases)
    case (safe_Done s y)
    show ?thesis
    proof (cases y)
      case (Inl a)
      then show ?thesis using safe_Done by simp
    next
      case (Inr x)
      then have x: "I x s" using safe_Done by simp
      have b: "safe me (\<lambda>y s'. case y of Inl a \<Rightarrow> Q a s' | Inr x' \<Rightarrow> I x' s') s0 (body x s)"
        by (rule safe_rebase [OF step [OF x] safe_Done(2)])
      have e: "rloop body r = rloop body (body x s)"
        unfolding safe_Done(1) Inr by (rule rloop_round) (rule prog [OF x])
      from b show ?thesis
      proof (cases rule: safe.cases)
        case (safe_Done s' y')
        then show ?thesis using prog [OF x] unfolding e by (cases y') auto
      next
        case (safe_Switch s' k)
        then show ?thesis unfolding e by auto
      next
        case (safe_Unlock s' k)
        then show ?thesis unfolding e by auto
      qed
    qed
  next
    case (safe_Switch s k)
    then show ?thesis by auto
  next
    case (safe_Unlock s k)
    then show ?thesis by auto
  qed
qed

lemma q_park:
  assumes K: "kinvL s" and me: "me = currp s"
    and s3: "s3 = upd_ioq qp (\<lambda>q. q\<lparr>q_waiting := q_waiting q @ [me]\<rparr>) (upd_thd me (\<lambda>t. t\<lparr>p_u := qp\<rparr>) s)"
  shows "parked THD_STATE_WTQUEUE me (PQueue qp) s s3"
proof -
  have K': "kinv s" and P: "places s" and S: "sems_ok s"
    using K by (simp_all add: kinvL_def kinv_def kinv0_def)
  have cs: "state_of s me = THD_STATE_CURRENT" using cur_state [OF K'] me by simp
  then have un: "me \<notin> set (queue_of s r)" for r
    by (intro places_unqueued [OF P]) (simp add: place_ok_def)
  have q: "queue_of s3 r = queue_of s r" if "r \<noteq> PQueue qp" for r
    using that by (cases r) (auto simp: s3)
  have "attached me (PQueue qp) s s3"
    unfolding attached_def using q un [of "PQueue qp"] places_distinct [OF P, of "PQueue qp"] by (auto simp: s3)
  moreover have "sems_ok s3" using S by (simp add: s3 sems_ok_def)
  ultimately show ?thesis by (auto simp: parked_def place_ok_def s3)
qed

definition wait_result :: "systime_t \<Rightarrow> msg_t \<Rightarrow> bool" where
  "wait_result time m \<longleftrightarrow> m = Q_OK \<or> m = Q_RESET \<or> m = Q_TIMEOUT \<and> time \<noteq> TIME_INFINITE"

lemma qwait_safe:
  assumes K: "kinvU s" and me: "me = currp s" and ni: "me \<noteq> idle_thread s"
  shows "safe me (\<lambda>m s'. returned me s s' \<and> wait_result time m) s (qwait qp time s)" (is "safe me ?Q s _")
proof (cases "time = TIME_IMMEDIATE")
  case True
  then show ?thesis using K me by (auto intro!: safe_Done simp: qwait_def returned_def wait_result_def)
next
  case False
  have KL: "kinvL s" using K by (simp add: kinvU_L)
  define s3 where "s3 = upd_ioq qp (\<lambda>q. q\<lparr>q_waiting := q_waiting q @ [me]\<rparr>) (upd_thd me (\<lambda>t. t\<lparr>p_u := qp\<rparr>) s)"
  have p: "parked THD_STATE_WTQUEUE me (PQueue qp) s s3" by (rule q_park [OF KL me s3_def])
  have u: "\<not> chVTIsArmedI (OnStack me) s3" using KL me by (simp add: kinvL_def chVTIsArmedI_def s3_def)
  have run: "qwait qp time s = chSchGoSleepTimeoutS THD_STATE_WTQUEUE time s3"
    using False me by (simp add: qwait_def Let_def s3_def)
  show ?thesis unfolding run
  proof (rule safe_mono [OF goSleepTimeout_returned [OF KL me ni p _ False]])
    fix m s' assume s': "returned me s s' \<and> rely me (sleeping THD_STATE_WTQUEUE me (arm time me s3)) s' \<and> m = p_u (thd s' me)"
    then have "m \<in> {RDY_OK, RDY_RESET} \<or> chVTIsArmedI (OnStack me) (arm time me s3) \<and> m = RDY_TIMEOUT"
      using rely_wait_msg [of me THD_STATE_WTQUEUE "arm time me s3" s'] by (auto simp: returned_def kinvU_def)
    then show "?Q m s'" using s' u by (auto simp: arm_def wait_result_def split: if_splits)
  qed (auto simp: s3_def timed_def)
qed

lemma qwait_progress: "qwait qp time s = Done m s' \<Longrightarrow> m = Q_TIMEOUT"
  by (auto simp: qwait_def chSchGoSleepTimeoutS_def chSchGoSleepS_def chSysSwitch_def Let_def split: if_splits)

text \<open>Accesses to the buffers and counters are invisible to the scheduler.\<close>

lemma q_touch_iclass:
  assumes K: "kinv s" and s': "thd s' = thd s" "sem s' = sem s" "mtx s' = mtx s" "cond s' = cond s" "r_queue s' = r_queue s"
      "currp s' = currp s" "idle_thread s' = idle_thread s" "vts s' = vts s" "vtlist s' = vtlist s"
      "\<And>a. q_waiting (ioq s' a) = q_waiting (ioq s a)"
  shows "iclass s s'"
proof -
  have "queue_of s' r = queue_of s r" for r by (cases r) (simp_all add: s')
  then have "same_core s s'" by (simp add: same_core_def s')
  moreover have "sems_ok s'" using K by (simp add: kinv_def kinv0_def sems_ok_def s')
  ultimately show ?thesis using iclass_same_core [OF K] by (simp add: s')
qed

end
