(* ===== verification/Buffers.thy ===== *)
theory Buffers
  imports WordFacts "HOL-Library.Monad_Syntax"
begin

text \<open>
  Arrays with explicit bounds: an access outside of one, which the source does not check, is the
  value \<open>None\<close>.  The clients prove that it does not occur, or when it does.
\<close>

definition peek :: "int \<Rightarrow> 'a list \<Rightarrow> 'a option" where
  "peek i xs = (if 0 \<le> i \<and> nat i < length xs then Some (xs ! nat i) else None)"

definition poke :: "int \<Rightarrow> 'a \<Rightarrow> 'a list \<Rightarrow> 'a list option" where
  "poke i v xs = (if 0 \<le> i \<and> nat i < length xs then Some (xs[nat i := v]) else None)"

lemma peek_mid [simp]: "peek (int (length l)) (l @ x # r) = Some x"
  by (simp add: peek_def)

lemma poke_mid [simp]: "poke (int (length l)) v (l @ x # r) = Some (l @ v # r)"
  by (simp add: poke_def)

lemma peek_mid2: "i = int (length l) \<Longrightarrow> peek i (l @ x # r) = Some x"
  by simp

lemma poke_mid2: "i = int (length l) \<Longrightarrow> poke i v (l @ x # r) = Some (l @ v # r)"
  by simp

end
