(* ===== verification/LineEditor.thy ===== *)
theory LineEditor
  imports Buffers
begin

text \<open>
  The line editor (\<^verbatim>\<open>os/various/rdline.c\<close>, \<^verbatim>\<open>rdline.h\<close>).  The state holds the edit buffer, the
  cursor, the history arena, the values that \<^verbatim>\<open>io->get()\<close> is going to return (\<open>-1\<close> when they are
  used up) and the bytes given to \<^verbatim>\<open>io->put()\<close> so far.  An access outside the buffer or the arena is
  the value \<open>None\<close>.
\<close>

record rdline =
  buf :: "u8 list"
  pos :: int
  elen :: int
  hcurr :: int
  hlen :: int
  arena :: "(int \<times> int \<times> u8 list) list"
  inp :: "int list"
  outp :: "u8 list"

datatype rdline_status =
    RDLINE_ON_EOF | RDLINE_ON_ENTER | RDLINE_ON_UP | RDLINE_ON_DOWN | RDLINE_ON_CTRLC | RDLINE_ON_CTRLD

section \<open>Memory and I/O\<close>

definition buf_size :: "rdline \<Rightarrow> int" where
  "buf_size s = int (length (buf s))"

definition io_put :: "u8 \<Rightarrow> rdline \<Rightarrow> rdline" where
  "io_put c s = s\<lparr>outp := outp s @ [c]\<rparr>"

definition io_get :: "rdline \<Rightarrow> int \<times> rdline" where
  "io_get s = (case inp s of [] \<Rightarrow> (- 1, s) | c # cs \<Rightarrow> (c, s\<lparr>inp := cs\<rparr>))"

section \<open>Numbers\<close>

definition swp :: "int \<Rightarrow> int \<Rightarrow> 'a list \<Rightarrow> 'a list option" where
  "swp a b xs = do { x \<leftarrow> peek a xs; y \<leftarrow> peek b xs; xs \<leftarrow> poke a y xs; poke b x xs }"

function rev_loop :: "int \<Rightarrow> int \<Rightarrow> 'a list \<Rightarrow> 'a list option" where
  "rev_loop a b xs = (if a < b then do { xs \<leftarrow> swp a b xs; rev_loop (a + 1) (b - 1) xs } else Some xs)"
  by pat_completeness auto

termination rev_loop
  by (relation "measure (\<lambda>(a, b, xs). nat (b - a))") auto

declare rev_loop.simps [simp del]

definition DIGITS :: "u8 list" where
  "DIGITS = [48, 49, 50, 51, 52, 53, 54, 55, 56, 57]"

text \<open>The loop of \<open>convascii\<close>; \<open>p\<close> is the index of \<^verbatim>\<open>ptr\<close> in its buffer.\<close>

function conv_loop :: "int \<Rightarrow> int \<Rightarrow> u32 \<Rightarrow> u8 list \<Rightarrow> (int \<times> u32 \<times> u8 list) option" where
  "conv_loop p cnt n xs =
     (if n \<ge> 10
      then do { xs \<leftarrow> poke (p + cnt) (DIGITS ! unat (n mod 10)) xs; conv_loop p (cnt + 1) (n div 10) xs }
      else Some (cnt, n, xs))"
  by pat_completeness auto

termination conv_loop
  by (relation "measure (\<lambda>(p, cnt, n, xs). unat n)") (auto simp: word_le_nat_alt unat_div)

declare conv_loop.simps [simp del]

definition convascii :: "int \<Rightarrow> u32 \<Rightarrow> u8 list \<Rightarrow> (int \<times> u8 list) option" where
  "convascii p n xs = do {
     (cnt, n, xs) \<leftarrow> conv_loop p 0 n xs;
     xs \<leftarrow> poke (p + cnt) (DIGITS ! unat (n mod 10)) xs;
     let cnt = cnt + 1;
     xs \<leftarrow> rev_loop p (p + cnt - 1) xs;
     Some (cnt, xs) }"

fun mset_loop :: "nat \<Rightarrow> int \<Rightarrow> u8 \<Rightarrow> u8 list \<Rightarrow> u8 list option" where
  "mset_loop 0 dst c xs = Some xs"
| "mset_loop (Suc z) dst c xs = do { xs \<leftarrow> poke dst c xs; mset_loop z (dst + 1) c xs }"

definition is_printable :: "u8 \<Rightarrow> bool" where
  "is_printable c \<longleftrightarrow> c > 31 \<and> c < 128"

section \<open>Output\<close>

fun rdline_write :: "u8 list \<Rightarrow> nat \<Rightarrow> rdline \<Rightarrow> rdline option" where
  "rdline_write ptr 0 s = Some s"
| "rdline_write [] (Suc n) s = None"
| "rdline_write (c # cs) (Suc n) s = rdline_write cs n (io_put c s)"

fun rdline_print :: "u8 list \<Rightarrow> rdline \<Rightarrow> (int \<times> rdline) option" where
  "rdline_print [] s = None"
| "rdline_print (c # cs) s =
     (if c \<noteq> 0 then do { (i, s) \<leftarrow> rdline_print cs (io_put c s); Some (i + 1, s) } else Some (0, s))"

definition do_move :: "int \<Rightarrow> u8 \<Rightarrow> rdline \<Rightarrow> rdline option" where
  "do_move n dir s = do {
     (l, b) \<leftarrow> convascii 2 (word_of_int n) ([27, 91] @ replicate 13 0);
     b \<leftarrow> poke (2 + l) dir b;
     rdline_write b (nat (2 + l + 1)) s }"

definition move_left :: "int \<Rightarrow> rdline \<Rightarrow> rdline option" where
  "move_left n s = (if n > 0 then do_move n 68 s else Some s)"

definition move_right :: "int \<Rightarrow> rdline \<Rightarrow> rdline option" where
  "move_right n s = (if n > 0 then do_move n 67 s else Some s)"

definition print_str :: "u8 list \<Rightarrow> rdline \<Rightarrow> (int \<times> rdline) option" where
  "print_str ptr s = rdline_print ptr s"

definition clear_line :: "rdline \<Rightarrow> rdline option" where
  "clear_line s = do { (_, s) \<leftarrow> print_str [27, 91, 75, 0] s; Some s }"

section \<open>The edit buffer\<close>

function insert_loop :: "int \<Rightarrow> int \<Rightarrow> u8 list \<Rightarrow> u8 list option" where
  "insert_loop mx p b =
     (if mx \<ge> p then do { c \<leftarrow> peek mx b; b \<leftarrow> poke (mx + 1) c b; insert_loop (mx - 1) p b } else Some b)"
  by pat_completeness auto

termination insert_loop
  by (relation "measure (\<lambda>(mx, p, b). nat (mx - p + 1))") auto

definition insert_char :: "u8 \<Rightarrow> rdline \<Rightarrow> rdline option" where
  "insert_char c s = do {
     b \<leftarrow> insert_loop (elen s) (pos s) (buf s);
     b \<leftarrow> poke (pos s) c b;
     Some (s\<lparr>buf := b\<rparr>) }"

function remove_loop :: "int \<Rightarrow> int \<Rightarrow> u8 list \<Rightarrow> u8 list option" where
  "remove_loop p len b =
     (if p < len then do { c \<leftarrow> peek (p + 1) b; b \<leftarrow> poke p c b; remove_loop (p + 1) len b } else poke p 0 b)"
  by pat_completeness auto

termination remove_loop
  by (relation "measure (\<lambda>(p, len, b). nat (len - p))") auto

declare insert_loop.simps [simp del] remove_loop.simps [simp del]

definition remove_char :: "rdline \<Rightarrow> rdline option" where
  "remove_char s = do { b \<leftarrow> remove_loop (pos s) (elen s) (buf s); Some (s\<lparr>buf := b\<rparr>) }"

definition print_line :: "rdline \<Rightarrow> (int \<times> rdline) option" where
  "print_line s = do {
     (len, s) \<leftarrow> (if pos s < 0 then None else print_str (drop (nat (pos s)) (buf s)) s);
     s \<leftarrow> (if len > 0 then move_left len s else Some s);
     Some (len, s) }"

section \<open>History\<close>

function ncpy :: "int \<Rightarrow> u8 list \<Rightarrow> u8 list \<Rightarrow> int \<Rightarrow> u8 list option" where
  "ncpy i dst src mx = do {
     c \<leftarrow> peek i src;
     if c \<noteq> 0 \<and> i < mx - 1 then do { dst \<leftarrow> poke i c dst; ncpy (i + 1) dst src mx } else poke i 0 dst }"
  by pat_completeness auto

termination ncpy
  by (relation "measure (\<lambda>(i, dst, src, mx). nat (int (length src) - i))") (auto simp: peek_def split: if_splits)

declare ncpy.simps [simp del]

definition history_insert :: "rdline \<Rightarrow> rdline option" where
  "history_insert s = do {
     (_, _, line) \<leftarrow> peek (hlen s) (arena s);
     line \<leftarrow> ncpy 0 line (buf s) (buf_size s);
     a \<leftarrow> poke (hlen s) (pos s, elen s, line) (arena s);
     Some (s\<lparr>arena := a, hlen := hlen s + 1\<rparr>) }"

definition history_get :: "rdline \<Rightarrow> rdline option" where
  "history_get s = do {
     (epos, elen, line) \<leftarrow> peek (hcurr s) (arena s);
     b \<leftarrow> ncpy 0 (buf s) line (buf_size s);
     Some (s\<lparr>buf := b, pos := epos, elen := elen\<rparr>) }"

definition redraw_line :: "rdline \<Rightarrow> rdline option" where
  "redraw_line s = do {
     s \<leftarrow> clear_line s;
     s \<leftarrow> (if elen s < 0 then None else rdline_write (buf s) (nat (elen s)) s);
     move_left (elen s - pos s) s }"

section \<open>Editing\<close>

definition rdline_backspace :: "rdline \<Rightarrow> rdline option" where
  "rdline_backspace s =
     (if pos s > 0
      then do {
        s \<leftarrow> remove_char (s\<lparr>pos := pos s - 1\<rparr>);
        s \<leftarrow> move_left 1 s;
        s \<leftarrow> clear_line s;
        (_, s) \<leftarrow> print_line s;
        Some (s\<lparr>elen := elen s - 1\<rparr>) }
      else Some s)"

definition move_home :: "rdline \<Rightarrow> rdline option" where
  "move_home s = do { s \<leftarrow> move_left (pos s) s; Some (s\<lparr>pos := 0\<rparr>) }"

definition rdline_clear :: "rdline \<Rightarrow> rdline option" where
  "rdline_clear s = do {
     b \<leftarrow> mset_loop (length (buf s)) 0 0 (buf s);
     Some (s\<lparr>buf := b, pos := 0, elen := 0\<rparr>) }"

text \<open>The keys that send an escape sequence, after \<^verbatim>\<open>ESC [\<close>.\<close>

definition rdline_arrow :: "int \<Rightarrow> rdline \<Rightarrow> (rdline_status option \<times> rdline) option" where
  "rdline_arrow c s =
     (if c = 66 then Some (Some RDLINE_ON_DOWN, s)
      else if c = 65 then Some (Some RDLINE_ON_UP, s)
      else if c = 67 then
        (if pos s < elen s then do { s \<leftarrow> move_right 1 (s\<lparr>pos := pos s + 1\<rparr>); Some (None, s) } else Some (None, s))
      else if c = 68 then
        (if pos s > 0 then do { s \<leftarrow> move_left 1 (s\<lparr>pos := pos s - 1\<rparr>); Some (None, s) } else Some (None, s))
      else if c = 72 then do { s \<leftarrow> move_home s; Some (None, s) }
      else if c = 70 then do { s \<leftarrow> move_right (elen s - pos s) s; Some (None, s\<lparr>pos := elen s\<rparr>) }
      else if c = 51 then
        (let s = snd (io_get s)
         in if pos s < elen s
            then do {
              s \<leftarrow> remove_char s;
              s \<leftarrow> clear_line s;
              (_, s) \<leftarrow> print_line s;
              Some (None, s\<lparr>elen := elen s - 1\<rparr>) }
            else Some (None, s))
      else Some (None, s))"

definition rdline_key :: "int \<Rightarrow> rdline \<Rightarrow> (rdline_status option \<times> rdline) option" where
  "rdline_key c s =
     (if c = - 1 then Some (Some RDLINE_ON_EOF, s)
      else if c = 13 \<or> c = 10 then Some (Some RDLINE_ON_ENTER, s)
      else if c = 8 \<or> c = 127 then do { s \<leftarrow> rdline_backspace s; Some (None, s) }
      else if c = 27 then
        (let (c, s) = io_get s
         in if c = 91 then let (c, s) = io_get s in rdline_arrow c s else Some (None, s))
      else if elen s < buf_size s - 1 \<and> is_printable (word_of_int c)
      then do {
        s \<leftarrow> insert_char (word_of_int c) s;
        (_, s) \<leftarrow> print_line s;
        s \<leftarrow> move_right 1 s;
        Some (None, s\<lparr>pos := pos s + 1, elen := elen s + 1\<rparr>) }
      else Some (None, s))"


section \<open>What the primitives do\<close>

lemma rev_loop_seg: "rev_loop (int (length l)) (int (length l + length m) - 1) (l @ m @ r) = Some (l @ rev m @ r)"
proof (induction "length m" arbitrary: l m r rule: less_induct)
  case less
  show ?case
  proof (cases m rule: rev_cases)
    case Nil
    then show ?thesis by (subst rev_loop.simps) simp
  next
    case (snoc m' y)
    show ?thesis
    proof (cases m')
      case Nil
      then show ?thesis using snoc by (subst rev_loop.simps) simp
    next
      case (Cons x k)
      have "peek (int (length l + length m) - 1) (l @ m @ r) = Some y"
        using peek_mid [of "l @ x # k" y r] by (simp add: snoc Cons)
      moreover have "poke (int (length l + length m) - 1) x (l @ y # k @ y # r) = Some (l @ y # k @ x # r)"
        using poke_mid [of "l @ y # k" x y r] by (simp add: snoc Cons)
      ultimately have sw: "swp (int (length l)) (int (length l + length m) - 1) (l @ m @ r) = Some ((l @ [y]) @ k @ x # r)"
        unfolding swp_def by (simp add: snoc Cons)
      have "rev_loop (int (length (l @ [y]))) (int (length (l @ [y]) + length k) - 1) ((l @ [y]) @ k @ x # r) =
          Some ((l @ [y]) @ rev k @ x # r)"
        by (rule less) (simp add: snoc Cons)
      moreover have "int (length l) + 1 = int (length (l @ [y]))"
          "int (length l + length m) - 1 - 1 = int (length (l @ [y]) + length k) - 1"
        by (simp_all add: snoc Cons)
      ultimately show ?thesis using sw
        by (subst rev_loop.simps) (simp add: snoc Cons add_ac)
    qed
  qed
qed

text \<open>Decimal digits, the least significant first.\<close>

fun dec_rev :: "nat \<Rightarrow> u8 list" where
  "dec_rev n = (if n < 10 then [of_nat (48 + n)] else of_nat (48 + n mod 10) # dec_rev (n div 10))"

declare dec_rev.simps [simp del]

lemma dec_rev_length: "n < 10 ^ k \<Longrightarrow> 0 < k \<Longrightarrow> length (dec_rev n) \<le> k"
proof (induction k arbitrary: n)
  case (Suc k)
  show ?case
  proof (cases "n < 10")
    case True
    then show ?thesis by (simp add: dec_rev.simps)
  next
    case False
    then have "0 < k" using Suc.prems by (cases k) auto
    moreover have "n div 10 < 10 ^ k" using Suc.prems by (simp add: less_mult_imp_div_less)
    ultimately have "length (dec_rev (n div 10)) \<le> k" using Suc.IH by blast
    then show ?thesis using False by (subst dec_rev.simps) simp
  qed
qed simp

lemma DIGITS_nth: "n < 10 \<Longrightarrow> DIGITS ! n = of_nat (48 + n)"
  by (auto simp: DIGITS_def less_Suc_eq numeral_eq_Suc)

lemma conv_all:
  assumes "length (dec_rev (unat n)) \<le> length ys"
  shows "do { (cnt, n, xs) \<leftarrow> conv_loop (int (length l)) (int (length k)) n (l @ k @ ys);
       xs \<leftarrow> poke (int (length l) + cnt) (DIGITS ! unat (n mod 10)) xs; Some (cnt + 1, xs) } =
    Some (int (length k + length (dec_rev (unat n))), l @ k @ dec_rev (unat n) @ drop (length (dec_rev (unat n))) ys)"
  using assms
proof (induction "unat n" arbitrary: n k ys rule: less_induct)
  case less
  obtain y zs where ys: "ys = y # zs" using less.prems by (cases ys) (auto simp: dec_rev.simps [of "unat n"] split: if_splits)
  have pk: "poke (int (length l) + int (length k)) v (l @ k @ y # zs) = Some (l @ (k @ [v]) @ zs)" for v
    using poke_mid [of "l @ k" v y zs] by simp
  show ?case
  proof (cases "n \<ge> 10")
    case False
    then have u: "unat n < 10" by (simp add: word_le_nat_alt)
    then have "DIGITS ! unat (n mod 10) = of_nat (48 + unat n)" by (simp add: unat_mod DIGITS_nth)
    then show ?thesis using False u pk [of "of_nat (48 + unat n)"]
      by (subst conv_loop.simps) (simp add: dec_rev.simps [of "unat n"] ys)
  next
    case True
    then have u: "\<not> unat n < 10" by (simp add: word_le_nat_alt)
    let ?v = "of_nat (48 + unat n mod 10) :: u8"
    have v: "DIGITS ! unat (n mod 10) = ?v" by (simp add: unat_mod DIGITS_nth)
    have d: "dec_rev (unat n) = ?v # dec_rev (unat (n div 10))" using u by (subst dec_rev.simps) (simp add: unat_div)
    have lt: "unat (n div 10) < unat n" using u by (simp add: unat_div)
    have step: "conv_loop (int (length l)) (int (length k)) n (l @ k @ ys) =
        conv_loop (int (length l)) (int (length (k @ [?v]))) (n div 10) (l @ (k @ [?v]) @ zs)"
      using True pk [of ?v] v by (subst conv_loop.simps) (simp add: ys add_ac)
    have "length (dec_rev (unat (n div 10))) \<le> length zs" using less.prems d ys by simp
    from less.hyps [OF lt this, of "k @ [?v]"] show ?thesis unfolding step by (simp add: d ys)
  qed
qed

lemma convascii_digits:
  assumes "length (dec_rev (unat n)) \<le> length ys"
  shows "convascii (int (length l)) n (l @ ys) =
    Some (int (length (dec_rev (unat n))), l @ rev (dec_rev (unat n)) @ drop (length (dec_rev (unat n))) ys)"
proof -
  let ?D = "dec_rev (unat n)"
  have "convascii (int (length l)) n (l @ ys) = do {
      (cnt, xs) \<leftarrow> do { (cnt, n, xs) \<leftarrow> conv_loop (int (length l)) (int (length ([] :: u8 list))) n (l @ [] @ ys);
         xs \<leftarrow> poke (int (length l) + cnt) (DIGITS ! unat (n mod 10)) xs; Some (cnt + 1, xs) };
      xs \<leftarrow> rev_loop (int (length l)) (int (length l) + cnt - 1) xs; Some (cnt, xs) }"
    by (simp add: convascii_def Let_def case_prod_unfold)
  also have "\<dots> = do { xs \<leftarrow> rev_loop (int (length l)) (int (length l) + int (length ?D) - 1)
        (l @ ?D @ drop (length ?D) ys); Some (int (length ?D), xs) }"
    unfolding conv_all [OF assms] by simp
  also have "\<dots> = Some (int (length ?D), l @ rev ?D @ drop (length ?D) ys)"
    using rev_loop_seg [of l ?D "drop (length ?D) ys"] by simp
  finally show ?thesis .
qed

definition decimal :: "nat \<Rightarrow> u8 list" where
  "decimal n = rev (dec_rev n)"

lemma rdline_write_eq:
  "rdline_write ptr n s = (if n \<le> length ptr then Some (s\<lparr>outp := outp s @ take n ptr\<rparr>) else None)"
  by (induction ptr n s rule: rdline_write.induct) (auto simp: io_put_def)

lemma do_move_eq:
  assumes "0 \<le> n" and "n < 4294967296"
  shows "do_move n dir s = Some (s\<lparr>outp := outp s @ [27, 91] @ decimal (nat n) @ [dir]\<rparr>)"
proof -
  let ?D = "dec_rev (nat n)"
  have u: "unat (word_of_int n :: u32) = nat n"
    using assms by (simp add: unat_eq_nat_uint uint_word_of_int)
  have "nat n < 10 ^ 10" using assms by simp
  then have len: "length ?D \<le> 10" by (rule dec_rev_length) simp
  have "convascii 2 (word_of_int n) ([27, 91] @ replicate 13 0) =
      Some (int (length ?D), [27, 91] @ rev ?D @ drop (length ?D) (replicate 13 0))"
    using convascii_digits [of "word_of_int n" "replicate 13 0" "[27, 91]"] len u by simp
  moreover have "drop (length ?D) (replicate 13 0) = 0 # replicate (12 - length ?D) (0 :: u8)"
    using len by (cases "13 - length ?D") (auto simp: drop_replicate)
  moreover have "poke (2 + int (length ?D)) dir ([27, 91] @ rev ?D @ 0 # replicate (12 - length ?D) 0) =
      Some ([27, 91] @ rev ?D @ dir # replicate (12 - length ?D) 0)"
    using poke_mid [of "[27, 91] @ rev ?D" dir 0 "replicate (12 - length ?D) 0"] by simp
  moreover have "nat (2 + int (length ?D) + 1) = length ([27, 91] @ rev ?D @ [dir])" by simp
  ultimately show ?thesis
    unfolding do_move_def by (simp add: rdline_write_eq decimal_def)
qed

lemma rdline_print_eq: "0 \<notin> set ys \<Longrightarrow> rdline_print (ys @ 0 # zs) s = Some (int (length ys), s\<lparr>outp := outp s @ ys\<rparr>)"
  by (induction ys arbitrary: s) (simp_all add: io_put_def)

lemma clear_line_eq: "clear_line s = Some (s\<lparr>outp := outp s @ [27, 91, 75]\<rparr>)"
  using rdline_print_eq [of "[27, 91, 75]" "[]"] by (simp add: clear_line_def print_str_def)

lemma insert_loop_eq:
  "insert_loop (int (length l + length m) - 1) (int (length l)) (l @ m @ y # z) = Some (l @ hd (m @ [y]) # m @ z)"
proof (induction m arbitrary: y z rule: rev_induct)
  case Nil
  then show ?case by (subst insert_loop.simps) simp
next
  case (snoc x m)
  have "peek (int (length l + length (m @ [x])) - 1) (l @ (m @ [x]) @ y # z) = Some x"
    using peek_mid [of "l @ m" x "y # z"] by simp
  moreover have "poke (int (length l + length (m @ [x])) - 1 + 1) x (l @ (m @ [x]) @ y # z) = Some (l @ m @ x # x # z)"
    using poke_mid [of "l @ m @ [x]" x y z] by (simp add: add_ac)
  moreover have "int (length l + length (m @ [x])) - 1 - 1 = int (length l + length m) - 1" by simp
  ultimately show ?case using snoc [of x "x # z"]
    by (subst insert_loop.simps) (simp add: hd_append split: if_splits)
qed

lemma remove_loop_eq:
  "remove_loop (int (length l)) (int (length l + length m)) (l @ x # m @ z) = Some (l @ m @ 0 # z)"
proof (induction m arbitrary: l x)
  case Nil
  then show ?case by (subst remove_loop.simps) simp
next
  case (Cons y m)
  have "peek (int (length l) + 1) (l @ x # (y # m) @ z) = Some y" using peek_mid [of "l @ [x]" y "m @ z"] by (simp add: add.commute)
  then show ?case using Cons [of "l @ [y]" y] by (subst remove_loop.simps) (simp add: add.commute)
qed

lemma mset_loop_eq: "mset_loop (length ys) (int (length l)) c (l @ ys) = Some (l @ replicate (length ys) c)"
proof (induction ys arbitrary: l)
  case (Cons y ys)
  show ?case using Cons [of "l @ [c]"] by (simp add: add.commute)
qed simp


section \<open>The loops over the input\<close>

text \<open>How much input a step leaves.\<close>

lemma rdline_write_inp: "rdline_write p n s = Some s' \<Longrightarrow> inp s' = inp s"
  by (auto simp: rdline_write_eq split: if_splits)

lemma rdline_print_inp: "rdline_print p s = Some (i, s') \<Longrightarrow> inp s' = inp s"
  by (induction p arbitrary: s i) (auto simp: io_put_def bind_eq_Some_conv split: if_splits)

lemma do_move_inp: "do_move n d s = Some s' \<Longrightarrow> inp s' = inp s"
  by (auto simp: do_move_def bind_eq_Some_conv dest: rdline_write_inp)

lemma move_inp: "move_left n s = Some s' \<Longrightarrow> inp s' = inp s" "move_right n s = Some s' \<Longrightarrow> inp s' = inp s"
  by (auto simp: move_left_def move_right_def dest: do_move_inp split: if_splits)

lemma clear_line_inp: "clear_line s = Some s' \<Longrightarrow> inp s' = inp s"
  by (auto simp: clear_line_eq)

lemma print_line_inp: "print_line s = Some (i, s') \<Longrightarrow> inp s' = inp s"
  by (auto simp: print_line_def print_str_def bind_eq_Some_conv dest!: rdline_print_inp move_inp split: if_splits)

lemma edit_inp:
  "insert_char c s = Some s' \<Longrightarrow> inp s' = inp s" "remove_char s = Some s' \<Longrightarrow> inp s' = inp s"
  "rdline_backspace s = Some s' \<Longrightarrow> inp s' = inp s" "move_home s = Some s' \<Longrightarrow> inp s' = inp s"
  by (auto simp: insert_char_def remove_char_def rdline_backspace_def move_home_def bind_eq_Some_conv
      dest!: move_inp clear_line_inp print_line_inp split: if_splits)

lemma io_get_inp: "io_get s = (c, s') \<Longrightarrow> length (inp s') \<le> length (inp s) \<and> (c \<noteq> - 1 \<longrightarrow> length (inp s') < length (inp s))"
  by (auto simp: io_get_def split: list.splits)

lemma rdline_arrow_inp: "rdline_arrow c s = Some (st, s') \<Longrightarrow> length (inp s') \<le> length (inp s)"
  using io_get_inp [of s "fst (io_get s)" "snd (io_get s)"]
  by (auto simp: rdline_arrow_def Let_def bind_eq_Some_conv dest!: move_inp clear_line_inp print_line_inp edit_inp split: if_splits)

lemma rdline_key_inp: "rdline_key c s = Some (st, s') \<Longrightarrow> length (inp s') \<le> length (inp s)"
  unfolding rdline_key_def
  by (auto simp: Let_def bind_eq_Some_conv dest!: move_inp print_line_inp edit_inp io_get_inp rdline_arrow_inp
      split: if_splits prod.splits)

lemma rdline_key_eof: "rdline_key c s = Some (None, s') \<Longrightarrow> c \<noteq> - 1"
  by (auto simp: rdline_key_def)

function rdline_input :: "rdline \<Rightarrow> (rdline_status \<times> rdline) option" where
  "rdline_input s = (case io_get s of (c, s1) \<Rightarrow>
     Option.bind (rdline_key c s1) (\<lambda>(st, s2).
       case st of Some r \<Rightarrow> Some (r, s2) | None \<Rightarrow> rdline_input s2))"
  by pat_completeness auto

termination rdline_input
proof (relation "measure (\<lambda>s. length (inp s))")
  fix s c s1 p st s2
  assume "(c, s1) = io_get s" "rdline_key c s1 = Some p" "(st, s2) = p" "st = None"
  then show "(s2, s) \<in> measure (\<lambda>s. length (inp s))"
    using io_get_inp [of s c s1] rdline_key_inp [of c s1 st s2] rdline_key_eof [of c s1 s2] by auto
qed simp

declare rdline_input.simps [simp del]

lemma rdline_input_inp:
  "rdline_input s = Some (r, s') \<Longrightarrow> length (inp s') \<le> length (inp s) \<and> (r \<noteq> RDLINE_ON_EOF \<longrightarrow> length (inp s') < length (inp s))"
proof (induction s rule: rdline_input.induct)
  case (1 s)
  obtain c s1 where g: "io_get s = (c, s1)" by force
  note gi = io_get_inp [OF g]
  from 1(2) g obtain st s2 where k: "rdline_key c s1 = Some (st, s2)"
    and c: "(case st of Some r \<Rightarrow> Some (r, s2) | None \<Rightarrow> rdline_input s2) = Some (r, s')"
    by (subst (asm) rdline_input.simps) (auto simp: bind_eq_Some_conv)
  note ki = rdline_key_inp [OF k]
  show ?case
  proof (cases st)
    case None
    have "length (inp s') \<le> length (inp s2) \<and> (r \<noteq> RDLINE_ON_EOF \<longrightarrow> length (inp s') < length (inp s2))"
      using 1(1) [OF g [symmetric] k refl None] c None by simp
    then show ?thesis using gi ki by auto
  next
    case (Some r')
    moreover have "r' = RDLINE_ON_EOF" if "c = - 1" using k Some that by (simp add: rdline_key_def)
    ultimately show ?thesis using c gi ki by auto
  qed
qed

definition rdline_init :: "rdline \<Rightarrow> rdline" where
  "rdline_init s = s\<lparr>hcurr := 0, hlen := 0\<rparr>"

text \<open>The loop of \<open>rdline_read\<close>, from the label on.\<close>

function read_loop :: "rdline \<Rightarrow> (rdline_status \<times> rdline) option" where
  "read_loop s = Option.bind (rdline_input s) (\<lambda>(st, s).
     case st of
       RDLINE_ON_ENTER \<Rightarrow> do {
         (_, s) \<leftarrow> rdline_print [13, 10, 0] s;
         s \<leftarrow> (if elen s > 0 then history_insert s else Some s);
         Some (st, s) }
     | RDLINE_ON_UP \<Rightarrow>
         Option.bind
           (if hcurr s > 0
            then do {
              s \<leftarrow> move_home s;
              s \<leftarrow> history_get (s\<lparr>hcurr := hcurr s - 1\<rparr>);
              redraw_line s }
            else Some s) read_loop
     | RDLINE_ON_DOWN \<Rightarrow>
         Option.bind
           (do {
              s \<leftarrow> move_home s;
              s \<leftarrow> (if hcurr s < hlen s then history_get (s\<lparr>hcurr := hcurr s + 1\<rparr>) else rdline_clear s);
              redraw_line s }) read_loop
     | _ \<Rightarrow> Some (st, s))"
  by pat_completeness auto

lemma history_inp:
  "history_get s = Some s' \<Longrightarrow> inp s' = inp s" "rdline_clear s = Some s' \<Longrightarrow> inp s' = inp s" "redraw_line s = Some s' \<Longrightarrow> inp s' = inp s"
  by (auto simp: history_get_def rdline_clear_def redraw_line_def bind_eq_Some_conv
      dest!: move_inp clear_line_inp rdline_write_inp split: if_splits)

termination read_loop
proof (relation "measure (\<lambda>s. length (inp s))")
  fix s p st s1 s2
  assume a: "rdline_input s = Some p" "(st, s1) = p"
  then have i: "rdline_input s = Some (st, s1)" by simp
  note ii = rdline_input_inp [OF this]
  show "(s2, s) \<in> measure (\<lambda>s. length (inp s))"
    if "st = RDLINE_ON_UP" and "(if hcurr s1 > 0
            then do {
              s \<leftarrow> move_home s1;
              s \<leftarrow> history_get (s\<lparr>hcurr := hcurr s - 1\<rparr>);
              redraw_line s }
            else Some s1) = Some s2"
    using that ii by (auto simp: bind_eq_Some_conv dest!: edit_inp history_inp split: if_splits)
  show "(s2, s) \<in> measure (\<lambda>s. length (inp s))"
    if "st = RDLINE_ON_DOWN" and "do {
              s \<leftarrow> move_home s1;
              s \<leftarrow> (if hcurr s < hlen s then history_get (s\<lparr>hcurr := hcurr s + 1\<rparr>) else rdline_clear s);
              redraw_line s } = Some s2"
    using that ii by (auto simp: bind_eq_Some_conv dest!: edit_inp history_inp split: if_splits)
qed simp

declare read_loop.simps [simp del]

definition rdline_read :: "rdline \<Rightarrow> (rdline_status \<times> rdline) option" where
  "rdline_read s = do { s \<leftarrow> rdline_clear s; read_loop (s\<lparr>hcurr := hlen s\<rparr>) }"

section \<open>A terminal\<close>

text \<open>
  The terminal that the output is meant for: one line of unlimited width and a cursor, which
  understands the sequences the editor uses.
\<close>

datatype tmode = Plain | Esc | Csi nat

type_synonym screen = "u8 list \<times> nat \<times> tmode"

fun tput :: "u8 \<Rightarrow> screen \<Rightarrow> screen" where
  "tput c (scr, cur, Plain) =
     (if c = 27 then (scr, cur, Esc) else (take cur scr @ [c] @ drop (Suc cur) scr, Suc cur, Plain))"
| "tput c (scr, cur, Esc) = (if c = 91 then (scr, cur, Csi 0) else (scr, cur, Plain))"
| "tput c (scr, cur, Csi n) =
     (if 48 \<le> c \<and> c \<le> 57 then (scr, cur, Csi (10 * n + unat (c - 48)))
      else if c = 68 then (scr, cur - n, Plain)
      else if c = 67 then (scr, cur + n, Plain)
      else if c = 75 then (take cur scr, cur, Plain)
      else (scr, cur, Plain))"

definition screen_of :: "u8 list \<Rightarrow> screen" where
  "screen_of out = fold tput out ([], 0, Plain)"

lemma screen_of_append [simp]: "screen_of (out @ ys) = fold tput ys (screen_of out)"
  by (simp add: screen_of_def)

lemma digit_word:
  assumes "d < 10" shows "(48 :: u8) \<le> of_nat (48 + d)" "of_nat (48 + d) \<le> (57 :: u8)" "unat (of_nat (48 + d) - 48 :: u8) = d"
proof -
  have u: "unat (of_nat (48 + d) :: u8) = 48 + d" using assms by (simp add: unat_of_nat del: of_nat_add)
  then show "(48 :: u8) \<le> of_nat (48 + d)" "of_nat (48 + d) \<le> (57 :: u8)"
    using assms by (simp_all add: word_le_nat_alt del: of_nat_add)
  have "of_nat (48 + d) - 48 = (of_nat d :: u8)" by simp
  then show "unat (of_nat (48 + d) - 48 :: u8) = d" using assms by (simp add: unat_of_nat)
qed

lemma tput_decimal: "fold tput (decimal n) (scr, cur, Csi 0) = (scr, cur, Csi n)"
proof (induction n rule: less_induct)
  case (less n)
  show ?case
  proof (cases "n < 10")
    case True
    then show ?thesis unfolding decimal_def by (subst dec_rev.simps) (simp add: digit_word del: of_nat_add)
  next
    case False
    then have "fold tput (decimal (n div 10)) (scr, cur, Csi 0) = (scr, cur, Csi (n div 10))" by (intro less) simp
    then show ?thesis using False digit_word [of "n mod 10"] unfolding decimal_def
      by (subst dec_rev.simps) (simp del: of_nat_add)
  qed
qed

lemma tput_move:
  "fold tput ([27, 91] @ decimal n @ [68]) (scr, cur, Plain) = (scr, cur - n, Plain)"
  "fold tput ([27, 91] @ decimal n @ [67]) (scr, cur, Plain) = (scr, cur + n, Plain)"
  "fold tput [27, 91, 75] (scr, cur, Plain) = (take cur scr, cur, Plain)"
  by (simp_all add: tput_decimal)

lemma tput_text:
  assumes "27 \<notin> set ys" and "length r \<le> length ys"
  shows "fold tput ys (l @ r, length l, Plain) = (l @ ys, length l + length ys, Plain)"
  using assms
proof (induction ys arbitrary: l r)
  case (Cons y ys)
  have "tput y (l @ r, length l, Plain) = ((l @ [y]) @ tl r, length (l @ [y]), Plain)"
    using Cons.prems by (simp add: drop_Suc)
  then show ?case using Cons.IH [of "tl r" "l @ [y]"] Cons.prems by simp
qed simp

lemma move_left_eq:
  assumes "0 \<le> n" and "n < 4294967296" and "screen_of (outp s) = (scr, cur, Plain)"
  obtains ys where "move_left n s = Some (s\<lparr>outp := outp s @ ys\<rparr>)" and "screen_of (outp s @ ys) = (scr, cur - nat n, Plain)"
proof (cases "n = 0")
  case True
  then show ?thesis using that [of "[]"] assms by (simp add: move_left_def)
next
  case False
  then show ?thesis using that [of "[27, 91] @ decimal (nat n) @ [68]"] do_move_eq [OF assms(1,2), of 68 s] assms
    by (simp add: move_left_def tput_decimal)
qed

lemma move_right_eq:
  assumes "0 \<le> n" and "n < 4294967296" and "screen_of (outp s) = (scr, cur, Plain)"
  obtains ys where "move_right n s = Some (s\<lparr>outp := outp s @ ys\<rparr>)" and "screen_of (outp s @ ys) = (scr, cur + nat n, Plain)"
proof (cases "n = 0")
  case True
  then show ?thesis using that [of "[]"] assms by (simp add: move_right_def)
next
  case False
  then show ?thesis using that [of "[27, 91] @ decimal (nat n) @ [67]"] do_move_eq [OF assms(1,2), of 67 s] assms
    by (simp add: move_right_def tput_decimal)
qed

section \<open>The text being edited\<close>

text \<open>
  \<open>editing s l r\<close>: the text is \<open>l @ r\<close> with the cursor between its parts, in the buffer and on the screen alike.
\<close>

definition text_in :: "rdline \<Rightarrow> u8 list \<Rightarrow> u8 list \<Rightarrow> bool" where
  "text_in s l r \<longleftrightarrow> pos s = int (length l) \<and> elen s = int (length l + length r) \<and>
     (\<exists>z. buf s = l @ r @ 0 # z) \<and> (\<forall>c \<in> set (l @ r). is_printable c) \<and> length (buf s) < 2147483648"

definition editing :: "rdline \<Rightarrow> u8 list \<Rightarrow> u8 list \<Rightarrow> bool" where
  "editing s l r \<longleftrightarrow> text_in s l r \<and> screen_of (outp s) = (l @ r, length l, Plain)"

lemma printable_facts:
  assumes "\<forall>c \<in> set ys. is_printable c" shows "0 \<notin> set ys" and "27 \<notin> set ys"
  using assms by (auto simp: is_printable_def)

lemma print_line_eq:
  assumes b: "buf s = l @ r @ 0 # z" "pos s = int (length l)" "length (buf s) < 2147483648" and p: "\<forall>c \<in> set r. is_printable c"
    and sc: "screen_of (outp s) = (l @ q, length l, Plain)" and le: "length q \<le> length r"
  obtains i ys where "print_line s = Some (i, s\<lparr>outp := outp s @ ys\<rparr>)"
    and "screen_of (outp s @ ys) = (l @ r, length l, Plain)"
proof -
  note pf = printable_facts [OF p]
  let ?s = "s\<lparr>outp := outp s @ r\<rparr>"
  have "drop (nat (pos s)) (buf s) = r @ 0 # z" by (simp add: b(1,2))
  then have pr: "print_str (drop (nat (pos s)) (buf s)) s = Some (int (length r), ?s)"
    using rdline_print_eq [OF pf(1), of z s] by (simp add: print_str_def)
  have sc': "screen_of (outp ?s) = (l @ r, length l + length r, Plain)"
    using tput_text [OF pf(2) le, of l] sc by simp
  have "int (length r) < 4294967296" using b(1,3) by simp
  then obtain ys where ys: "move_left (int (length r)) ?s = Some (?s\<lparr>outp := outp ?s @ ys\<rparr>)"
      "screen_of (outp ?s @ ys) = (l @ r, length l + length r - length r, Plain)"
    using move_left_eq [OF _ _ sc', of "int (length r)"] by auto
  show ?thesis
  proof (cases "r = []")
    case True
    then show ?thesis using that [of "int (length r)" "[]"] pr sc' b(2) by (simp add: print_line_def)
  next
    case False
    then show ?thesis using that [of "int (length r)" "r @ ys"] pr ys b(2) by (simp add: print_line_def)
  qed
qed

lemma insert_editing:
  assumes E: "editing s l r" and room: "elen s < buf_size s - 1" and c: "is_printable c"
  obtains s1 i s2 s3 where "insert_char c s = Some s1" "print_line s1 = Some (i, s2)" "move_right 1 s2 = Some s3"
    "editing (s3\<lparr>pos := pos s3 + 1, elen := elen s3 + 1\<rparr>) (l @ [c]) r" "length (buf s3) = length (buf s)" "inp s3 = inp s"
proof -
  from E obtain z where z: "buf s = l @ r @ 0 # z" and p: "pos s = int (length l)" "elen s = int (length l + length r)"
    and pr: "\<forall>c \<in> set (l @ r). is_printable c" and sz: "length (buf s) < 2147483648"
    and sc: "screen_of (outp s) = (l @ r, length l, Plain)"
    by (auto simp: editing_def text_in_def)
  obtain y z' where z': "z = y # z'" using room z p by (cases z) (auto simp: buf_size_def)
  have "insert_loop (elen s) (pos s) (buf s) = Some (l @ hd (r @ [0]) # (r @ [0]) @ z')"
    using insert_loop_eq [of l "r @ [0]" y z'] by (simp add: p z z' hd_append split: if_splits)
  then have i: "insert_char c s = Some (s\<lparr>buf := l @ c # r @ 0 # z'\<rparr>)" (is "_ = Some ?s1")
    by (simp add: insert_char_def p)
  have b1: "buf ?s1 = l @ (c # r) @ 0 # z'" "pos ?s1 = int (length l)" "length (buf ?s1) < 2147483648"
    using sz by (simp_all add: p z z')
  obtain j ys where pl: "print_line ?s1 = Some (j, ?s1\<lparr>outp := outp ?s1 @ ys\<rparr>)"
      "screen_of (outp ?s1 @ ys) = (l @ c # r, length l, Plain)"
    by (rule print_line_eq [OF b1, of r]) (use pr c sc in auto)
  let ?s2 = "?s1\<lparr>outp := outp ?s1 @ ys\<rparr>"
  obtain zs where mr: "move_right 1 ?s2 = Some (?s2\<lparr>outp := outp ?s2 @ zs\<rparr>)"
      "screen_of (outp ?s2 @ zs) = (l @ c # r, length l + nat 1, Plain)"
    by (rule move_right_eq [of 1 ?s2 "l @ c # r" "length l"]) (use pl in auto)
  show ?thesis
    by (rule that [OF i pl(1) mr(1)]) (use mr(2) pr c sz in \<open>auto simp: editing_def text_in_def p z z'\<close>)
qed

lemma remove_editing:
  assumes E: "text_in s l (c # r)" and sc: "screen_of (outp s) = (l @ q, length l, Plain)"
  obtains s1 s2 i s3 where "remove_char s = Some s1" "clear_line s1 = Some s2" "print_line s2 = Some (i, s3)"
    "editing (s3\<lparr>elen := elen s3 - 1\<rparr>) l r" "length (buf s3) = length (buf s)" "inp s3 = inp s"
proof -
  from E obtain z where z: "buf s = l @ c # r @ 0 # z" and p: "pos s = int (length l)" "elen s = int (length l + length r + 1)"
    and pr: "\<forall>c \<in> set (l @ c # r). is_printable c" and sz: "length (buf s) < 2147483648"
    by (auto simp: text_in_def)
  have "remove_loop (pos s) (elen s) (buf s) = Some (l @ (r @ [0]) @ 0 # z)"
    using remove_loop_eq [of l "r @ [0]" c z] by (simp add: p z)
  then have i: "remove_char s = Some (s\<lparr>buf := l @ r @ 0 # 0 # z\<rparr>)" (is "_ = Some ?s1")
    by (simp add: remove_char_def)
  have cl: "clear_line ?s1 = Some (?s1\<lparr>outp := outp ?s1 @ [27, 91, 75]\<rparr>)" (is "_ = Some ?s2")
    by (rule clear_line_eq)
  have b2: "buf ?s2 = l @ r @ 0 # 0 # z" "pos ?s2 = int (length l)" "length (buf ?s2) < 2147483648"
    using sz by (simp_all add: p z)
  have "screen_of (outp ?s2) = (l @ [], length l, Plain)" using sc tput_move(3) [of "l @ q" "length l"] by simp
  then obtain j ys where pl: "print_line ?s2 = Some (j, ?s2\<lparr>outp := outp ?s2 @ ys\<rparr>)"
      "screen_of (outp ?s2 @ ys) = (l @ r, length l, Plain)"
    by (rule print_line_eq [OF b2, of "[]", rotated]) (use pr in auto)
  show ?thesis
    by (rule that [OF i cl pl(1)]) (use pl(2) pr sz in \<open>auto simp: editing_def text_in_def p z\<close>)
qed

section \<open>A reference editor\<close>

text \<open>What the keys are meant to do to a text with a cursor, for a buffer of \<open>n\<close> bytes.\<close>

function edit :: "nat \<Rightarrow> int list \<Rightarrow> u8 list \<Rightarrow> u8 list \<Rightarrow> rdline_status \<times> u8 list \<times> u8 list \<times> int list" where
  "edit n [] l r = (RDLINE_ON_EOF, l, r, [])"
| "edit n (c # cs) l r =
     (if c = - 1 then (RDLINE_ON_EOF, l, r, cs)
      else if c = 13 \<or> c = 10 then (RDLINE_ON_ENTER, l, r, cs)
      else if c = 8 \<or> c = 127 then edit n cs (butlast l) r
      else if c = 27 then
        (case cs of
           [] \<Rightarrow> edit n [] l r
         | d # ds \<Rightarrow>
             if d \<noteq> 91 then edit n ds l r
             else case ds of
                    [] \<Rightarrow> edit n [] l r
                  | k # ks \<Rightarrow>
                      if k = 66 then (RDLINE_ON_DOWN, l, r, ks)
                      else if k = 65 then (RDLINE_ON_UP, l, r, ks)
                      else if k = 67 then edit n ks (l @ take 1 r) (drop 1 r)
                      else if k = 68 then edit n ks (butlast l) (drop (length l - 1) l @ r)
                      else if k = 72 then edit n ks [] (l @ r)
                      else if k = 70 then edit n ks (l @ r) []
                      else if k = 51 then edit n (drop 1 ks) l (drop 1 r)
                      else edit n ks l r)
      else if length l + length r + 1 < n \<and> is_printable (word_of_int c) then edit n cs (l @ [word_of_int c]) r
      else edit n cs l r)"
  by pat_completeness auto

termination edit
  by (relation "measure (\<lambda>(n, cs, l, r). length cs)") auto

declare edit.simps [simp del]

lemma editing_get: "editing s l r \<Longrightarrow> editing (s\<lparr>inp := cs\<rparr>) l r"
  by (simp add: editing_def text_in_def)

lemma backspace_editing:
  assumes E: "editing s l r"
  shows "\<exists>s'. rdline_backspace s = Some s' \<and> editing s' (butlast l) r \<and> length (buf s') = length (buf s) \<and> inp s' = inp s"
proof (cases l rule: rev_cases)
  case Nil
  then show ?thesis using E by (simp add: rdline_backspace_def editing_def text_in_def)
next
  case (snoc k c)
  let ?s = "s\<lparr>pos := pos s - 1\<rparr>"
  have t: "text_in ?s k (c # r)" and sc: "screen_of (outp s) = (k @ c # r, length k + 1, Plain)" and p: "0 < pos s"
    using E snoc by (auto simp: editing_def text_in_def)
  from t obtain z where z: "buf s = k @ c # r @ 0 # z" and pe: "pos s = int (length k) + 1" "elen s = int (length k + length r + 1)"
    and pr: "\<forall>c \<in> set (k @ c # r). is_printable c" and sz: "length (buf s) < 2147483648"
    by (auto simp: text_in_def)
  have "remove_loop (pos ?s) (elen ?s) (buf ?s) = Some (k @ (r @ [0]) @ 0 # z)"
    using remove_loop_eq [of k "r @ [0]" c z] by (simp add: pe z)
  then have i: "remove_char ?s = Some (?s\<lparr>buf := k @ r @ 0 # 0 # z\<rparr>)" (is "_ = Some ?s1") by (simp add: remove_char_def)
  obtain ys where ml: "move_left 1 ?s1 = Some (?s1\<lparr>outp := outp ?s1 @ ys\<rparr>)"
      "screen_of (outp ?s1 @ ys) = (k @ c # r, length k + 1 - nat 1, Plain)"
    by (rule move_left_eq [of 1 ?s1 "k @ c # r" "length k + 1"]) (use sc in auto)
  let ?s2 = "?s1\<lparr>outp := outp ?s1 @ ys\<rparr>"
  have cl: "clear_line ?s2 = Some (?s2\<lparr>outp := outp ?s2 @ [27, 91, 75]\<rparr>)" (is "_ = Some ?s3") by (rule clear_line_eq)
  have b3: "buf ?s3 = k @ r @ 0 # 0 # z" "pos ?s3 = int (length k)" "length (buf ?s3) < 2147483648"
    using sz by (simp_all add: pe z)
  have "screen_of (outp ?s3) = (k @ [], length k, Plain)" using ml(2) tput_move(3) [of "k @ c # r" "length k"] by simp
  then obtain j zs where pl: "print_line ?s3 = Some (j, ?s3\<lparr>outp := outp ?s3 @ zs\<rparr>)"
      "screen_of (outp ?s3 @ zs) = (k @ r, length k, Plain)"
    by (rule print_line_eq [OF b3, of "[]", rotated]) (use pr in auto)
  have "rdline_backspace s = Some ((?s3\<lparr>outp := outp ?s3 @ zs\<rparr>)\<lparr>elen := elen ?s3 - 1\<rparr>)"
    unfolding rdline_backspace_def using p i ml(1) cl pl(1) by simp
  then show ?thesis using pl(2) pr sz by (auto simp: editing_def text_in_def pe z snoc)
qed

text \<open>Moving the cursor, whatever the position in the state is meanwhile.\<close>

lemma cursor_editing:
  assumes E: "editing s l r" and lr: "l @ r = l' @ r'" and n: "n = int (length l) - int (length l')"
  shows "0 \<le> n \<Longrightarrow> \<exists>s'. move_left n (s\<lparr>pos := p\<rparr>) = Some (s'\<lparr>pos := p\<rparr>) \<and> editing (s'\<lparr>pos := int (length l')\<rparr>) l' r' \<and>
      length (buf s') = length (buf s) \<and> inp s' = inp s \<and> elen s' = elen s"
    and "0 \<le> - n \<Longrightarrow> \<exists>s'. move_right (- n) (s\<lparr>pos := p\<rparr>) = Some (s'\<lparr>pos := p\<rparr>) \<and> editing (s'\<lparr>pos := int (length l')\<rparr>) l' r' \<and>
      length (buf s') = length (buf s) \<and> inp s' = inp s \<and> elen s' = elen s"
proof -
  from E have pe: "pos s = int (length l)" "elen s = int (length l + length r)" and sz: "length (buf s) < 2147483648"
    and sc: "screen_of (outp (s\<lparr>pos := p\<rparr>)) = (l @ r, length l, Plain)" by (auto simp: editing_def text_in_def)
  from E obtain z where z: "buf s = (l @ r) @ 0 # z" and pr: "\<forall>c \<in> set (l @ r). is_printable c"
    by (auto simp: editing_def text_in_def)
  have len: "length l + length r = length l' + length r'" using arg_cong [OF lr, of length] by simp
  have ed: "editing (s\<lparr>outp := out, pos := int (length l')\<rparr>) l' r'" if "screen_of out = (l' @ r', length l', Plain)" for out
    using that z pr pe sz len unfolding lr by (auto simp: editing_def text_in_def)
  have b: "length l + length r < 2147483648" "length l' \<le> length l + length r" using z sz len by simp_all
  show "\<exists>s'. move_left n (s\<lparr>pos := p\<rparr>) = Some (s'\<lparr>pos := p\<rparr>) \<and> editing (s'\<lparr>pos := int (length l')\<rparr>) l' r' \<and>
      length (buf s') = length (buf s) \<and> inp s' = inp s \<and> elen s' = elen s" if n0: "0 \<le> n"
  proof -
    obtain ys where "move_left n (s\<lparr>pos := p\<rparr>) = Some ((s\<lparr>pos := p\<rparr>)\<lparr>outp := outp s @ ys\<rparr>)"
        "screen_of (outp s @ ys) = (l @ r, length l - nat n, Plain)"
      using move_left_eq [OF n0 _ sc] n b by force
    then show ?thesis using ed [of "outp s @ ys"] n n0 lr by (intro exI [of _ "s\<lparr>outp := outp s @ ys\<rparr>"]) simp
  qed
  show "\<exists>s'. move_right (- n) (s\<lparr>pos := p\<rparr>) = Some (s'\<lparr>pos := p\<rparr>) \<and> editing (s'\<lparr>pos := int (length l')\<rparr>) l' r' \<and>
      length (buf s') = length (buf s) \<and> inp s' = inp s \<and> elen s' = elen s" if n0: "0 \<le> - n"
  proof -
    obtain ys where "move_right (- n) (s\<lparr>pos := p\<rparr>) = Some ((s\<lparr>pos := p\<rparr>)\<lparr>outp := outp s @ ys\<rparr>)"
        "screen_of (outp s @ ys) = (l @ r, length l + nat (- n), Plain)"
      using move_right_eq [OF n0 _ sc] n b by force
    then show ?thesis using ed [of "outp s @ ys"] n n0 lr by (intro exI [of _ "s\<lparr>outp := outp s @ ys\<rparr>"]) simp
  qed
qed

lemma insert_key:
  assumes E: "editing s l r" and room: "elen s < buf_size s - 1" and c: "is_printable c"
  shows "\<exists>s'. do { s \<leftarrow> insert_char c s; (_, s) \<leftarrow> print_line s; s \<leftarrow> move_right 1 s;
      Some (None :: rdline_status option, s\<lparr>pos := pos s + 1, elen := elen s + 1\<rparr>) } = Some (None, s') \<and>
    editing s' (l @ [c]) r \<and> length (buf s') = length (buf s) \<and> inp s' = inp s"
  by (rule insert_editing [OF assms]) auto

lemma delete_key:
  assumes E: "editing s l r" and r: "pos s < elen s"
  shows "\<exists>s'. do { s \<leftarrow> remove_char s; s \<leftarrow> clear_line s; (_, s) \<leftarrow> print_line s;
      Some (None :: rdline_status option, s\<lparr>elen := elen s - 1\<rparr>) } = Some (None, s') \<and>
    editing s' l (drop 1 r) \<and> length (buf s') = length (buf s) \<and> inp s' = inp s"
proof -
  obtain c q where q: "r = c # q" using E r by (cases r) (auto simp: editing_def text_in_def)
  have "text_in s l (c # q)" "screen_of (outp s) = (l @ c # q, length l, Plain)" using E q by (simp_all add: editing_def)
  then show ?thesis by (rule remove_editing) (auto simp: q)
qed

lemma split_last: "l \<noteq> [] \<Longrightarrow> butlast l @ drop (length l - 1) l @ r = l @ r"
  by (cases l rule: rev_cases) auto

lemma arrow_editing:
  assumes E: "editing s l r" and g: "rdline_arrow k s = res"
  shows "case (if k = 66 then (Some RDLINE_ON_DOWN, l, r) else if k = 65 then (Some RDLINE_ON_UP, l, r)
      else if k = 67 then (None, l @ take 1 r, drop 1 r)
      else if k = 68 then (None, butlast l, drop (length l - 1) l @ r)
      else if k = 72 then (None, [], l @ r) else if k = 70 then (None, l @ r, [])
      else if k = 51 then (None, l, drop 1 r) else (None, l, r)) of (st, l', r') \<Rightarrow>
    \<exists>s'. res = Some (st, s') \<and> editing s' l' r' \<and> length (buf s') = length (buf s) \<and>
      inp s' = (if k = 51 then drop 1 (inp s) else inp s)"
proof -
  from E have p: "pos s = int (length l)" "elen s = int (length l + length r)" by (auto simp: editing_def text_in_def)
  have sp: "s\<lparr>pos := int (length l)\<rparr> = s" using p by simp
  have get: "editing (snd (io_get s)) l r" "inp (snd (io_get s)) = drop 1 (inp s)" "length (buf (snd (io_get s))) = length (buf s)"
      "pos (snd (io_get s)) = pos s" "elen (snd (io_get s)) = elen s"
    using E by (auto simp: io_get_def editing_get split: list.split)
  consider "k = 66" | "k = 65" | "k = 67" | "k = 68" | "k = 72" | "k = 70" | "k = 51"
    | "k \<noteq> 66" "k \<noteq> 65" "k \<noteq> 67" "k \<noteq> 68" "k \<noteq> 72" "k \<noteq> 70" "k \<noteq> 51" by blast
  then show ?thesis
  proof cases
    case 3
    show ?thesis
    proof (cases r)
      case (Cons c q)
      then have "\<exists>s'. move_right 1 (s\<lparr>pos := pos s + 1\<rparr>) = Some (s'\<lparr>pos := pos s + 1\<rparr>) \<and>
          editing (s'\<lparr>pos := pos s + 1\<rparr>) (l @ [c]) q \<and> length (buf s') = length (buf s) \<and> inp s' = inp s \<and> elen s' = elen s"
        using cursor_editing(2) [OF E, of "l @ [c]" q "- 1" "pos s + 1"] p by (simp add: add.commute)
      then show ?thesis using 3 g p Cons by (auto simp: rdline_arrow_def)
    qed (use 3 E g p in \<open>auto simp: rdline_arrow_def\<close>)
  next
    case 4
    show ?thesis
    proof (cases l rule: rev_cases)
      case (snoc k c)
      then have "\<exists>s'. move_left 1 (s\<lparr>pos := pos s - 1\<rparr>) = Some (s'\<lparr>pos := pos s - 1\<rparr>) \<and>
          editing (s'\<lparr>pos := pos s - 1\<rparr>) k (c # r) \<and> length (buf s') = length (buf s) \<and> inp s' = inp s \<and> elen s' = elen s"
        using cursor_editing(1) [OF E, of k "c # r" 1 "pos s - 1"] p by simp
      then show ?thesis using 4 g p snoc by (auto simp: rdline_arrow_def)
    qed (use 4 E g p in \<open>auto simp: rdline_arrow_def\<close>)
  next
    case 5
    have "\<exists>s'. move_left (pos s) s = Some (s'\<lparr>pos := pos s\<rparr>) \<and> editing (s'\<lparr>pos := 0\<rparr>) [] (l @ r) \<and>
        length (buf s') = length (buf s) \<and> inp s' = inp s"
      using cursor_editing(1) [OF E, of "[]" "l @ r" "int (length l)" "int (length l)", unfolded sp] p by auto
    then show ?thesis using 5 g by (auto simp: rdline_arrow_def move_home_def)
  next
    case 6
    have "\<exists>s'. move_right (elen s - pos s) s = Some (s'\<lparr>pos := pos s\<rparr>) \<and> editing (s'\<lparr>pos := elen s'\<rparr>) (l @ r) [] \<and>
        length (buf s') = length (buf s) \<and> inp s' = inp s"
      using cursor_editing(2) [OF E, of "l @ r" "[]" "- int (length r)" "int (length l)", unfolded sp] p by auto
    then show ?thesis using 6 g by (auto simp: rdline_arrow_def)
  next
    case 7
    show ?thesis
    proof (cases "r = []")
      case True
      then show ?thesis using 7 g get p by (auto simp: rdline_arrow_def Let_def)
    next
      case False
      have "pos (snd (io_get s)) < elen (snd (io_get s))" using get p False by simp
      from delete_key [OF get(1) this] show ?thesis using 7 g get(2-) \<open>pos (snd (io_get s)) < elen (snd (io_get s))\<close>
        by (auto simp: rdline_arrow_def Let_def)
    qed
  qed (use E g p in \<open>auto simp: rdline_arrow_def\<close>)
qed


text \<open>One key and the rest of the loop.\<close>

lemma rdline_input_step:
  assumes "io_get s = (c, s1)" and "rdline_key c s1 = Some (st, s2)"
  shows "rdline_input s = (case st of Some r \<Rightarrow> Some (r, s2) | None \<Rightarrow> rdline_input s2)"
  using assms by (subst rdline_input.simps) simp

lemma rdline_refines:
  assumes "editing s l r"
  shows "\<exists>s'. rdline_input s = Some (fst (edit (length (buf s)) (inp s) l r), s') \<and>
    (case snd (edit (length (buf s)) (inp s) l r) of (l', r', rest) \<Rightarrow> editing s' l' r' \<and> inp s' = rest) \<and>
    length (buf s') = length (buf s)"
  using assms
proof (induction "length (inp s)" arbitrary: s l r rule: less_induct)
  case less
  let ?n = "length (buf s)"
  have p: "pos s = int (length l)" "elen s = int (length l + length r)"
    using less.prems by (auto simp: editing_def text_in_def)
  have on: "\<exists>s'. rdline_input s = Some (fst (edit ?n cs l' r'), s') \<and>
      (case snd (edit ?n cs l' r') of (l', r', rest) \<Rightarrow> editing s' l' r' \<and> inp s' = rest) \<and> length (buf s') = ?n"
    if "rdline_input s = rdline_input s2" and "editing s2 l' r'" and "length (buf s2) = ?n" and "inp s2 = cs"
      and "length cs < length (inp s)" for s2 l' r' cs
    using less.hyps [of s2 l' r'] that by simp
  show ?case
  proof (cases "inp s")
    case Nil
    then have "io_get s = (- 1, s)" by (simp add: io_get_def)
    moreover have "rdline_key (- 1) s = Some (Some RDLINE_ON_EOF, s)" by (simp add: rdline_key_def)
    ultimately show ?thesis using rdline_input_step [of s "- 1" s] less.prems Nil by (simp add: edit.simps)
  next
    case (Cons c cs)
    let ?s1 = "s\<lparr>inp := cs\<rparr>"
    have g: "io_get s = (c, ?s1)" using Cons by (simp add: io_get_def)
    have E1: "editing ?s1 l r" using less.prems by (rule editing_get)
    note go = rdline_input_step [OF g]
    consider (stop) "c = - 1 \<or> c = 13 \<or> c = 10" | (erase) "c = 8 \<or> c = 127" | (esc) "c = 27"
      | (other) "c \<noteq> - 1" "c \<noteq> 13" "c \<noteq> 10" "c \<noteq> 8" "c \<noteq> 127" "c \<noteq> 27" by blast
    then show ?thesis
    proof cases
      case stop
      then have "rdline_key c ?s1 = Some (Some (if c = - 1 then RDLINE_ON_EOF else RDLINE_ON_ENTER), ?s1)"
        by (auto simp: rdline_key_def)
      from go [OF this] show ?thesis using stop E1 Cons by (auto simp: edit.simps)
    next
      case erase
      from backspace_editing [OF E1] obtain s2 where s2: "rdline_backspace ?s1 = Some s2" "editing s2 (butlast l) r"
        "length (buf s2) = ?n" "inp s2 = cs" by auto
      have "rdline_key c ?s1 = Some (None, s2)" using erase s2(1) by (auto simp: rdline_key_def)
      from go [OF this] have "rdline_input s = rdline_input s2" by simp
      from on [OF this s2(2,3,4)] show ?thesis using erase Cons by (auto simp: edit.simps)
    next
      case other
      show ?thesis
      proof (cases "elen s < buf_size s - 1 \<and> is_printable (word_of_int c)")
        case True
        then have "elen ?s1 < buf_size ?s1 - 1" "is_printable (word_of_int c)" by (simp_all add: buf_size_def)
        from insert_key [OF E1 this] obtain s2 where s2: "rdline_key c ?s1 = Some (None, s2)" "editing s2 (l @ [word_of_int c]) r"
          "length (buf s2) = ?n" "inp s2 = cs" using other True by (auto simp: rdline_key_def buf_size_def)
        have "rdline_input s = rdline_input s2" using go [OF s2(1)] by simp
        from on [OF this s2(2,3,4)] show ?thesis using other True Cons p by (simp add: edit.simps buf_size_def)
      next
        case False
        then have "rdline_key c ?s1 = Some (None, ?s1)" using other by (auto simp: rdline_key_def buf_size_def)
        from go [OF this] have "rdline_input s = rdline_input ?s1" by simp
        from on [OF this E1] show ?thesis using other False Cons p by (auto simp: edit.simps buf_size_def)
      qed
    next
      case esc
      show ?thesis
      proof (cases cs)
        case Nil
        then have "rdline_key c ?s1 = Some (None, ?s1)" using esc by (simp add: rdline_key_def io_get_def)
        from go [OF this] have "rdline_input s = rdline_input ?s1" by simp
        from on [OF this E1] show ?thesis using esc Cons Nil by (simp add: edit.simps)
      next
        case ds: (Cons d ds)
        let ?s2 = "s\<lparr>inp := ds\<rparr>"
        have E2: "editing ?s2 l r" using less.prems by (rule editing_get)
        have g2: "io_get ?s1 = (d, ?s2)" using ds by (simp add: io_get_def)
        consider (no) "d \<noteq> 91" | (short) "d = 91" "ds = []" | (seq) k ks where "d = 91" "ds = k # ks"
          by (cases ds) auto
        then show ?thesis
        proof cases
          case no
          then have "rdline_key c ?s1 = Some (None, ?s2)" using esc g2 by (simp add: rdline_key_def)
          from go [OF this] have "rdline_input s = rdline_input ?s2" by simp
          from on [OF this E2] show ?thesis using esc Cons ds no by (simp add: edit.simps)
        next
          case short
          then have "rdline_key c ?s1 = Some (None, ?s2)" using esc ds
            by (simp add: rdline_key_def rdline_arrow_def io_get_def)
          from go [OF this] have "rdline_input s = rdline_input ?s2" by simp
          from on [OF this E2] show ?thesis using esc Cons ds short by (simp add: edit.simps)
        next
          case seq
          let ?s3 = "s\<lparr>inp := ks\<rparr>"
          have E3: "editing ?s3 l r" using less.prems by (rule editing_get)
          have "rdline_key c ?s1 = rdline_arrow k ?s3" using esc ds seq by (simp add: rdline_key_def io_get_def)
          note A = arrow_editing [OF E3 this [symmetric]]
          show ?thesis
          proof (cases "k = 66 \<or> k = 65")
            case True
            let ?st = "if k = 66 then RDLINE_ON_DOWN else RDLINE_ON_UP"
            have "\<exists>s4. rdline_key c ?s1 = Some (Some ?st, s4) \<and> editing s4 l r \<and> length (buf s4) = ?n \<and> inp s4 = ks"
              using A True by (auto split: if_splits)
            then obtain s4 where s4: "rdline_key c ?s1 = Some (Some ?st, s4)" "editing s4 l r" "length (buf s4) = ?n" "inp s4 = ks" by blast
            from go [OF s4(1)] show ?thesis using True esc Cons ds seq s4 by (auto simp: edit.simps)
          next
            case False
            let ?rest = "if k = 51 then drop 1 ks else ks"
            define q where "q = (if k = 67 then (l @ take 1 r, drop 1 r)
              else if k = 68 then (butlast l, drop (length l - 1) l @ r)
              else if k = 72 then ([], l @ r) else if k = 70 then (l @ r, [])
              else if k = 51 then (l, drop 1 r) else (l, r))"
            have "\<exists>s4. rdline_arrow k ?s3 = Some (None, s4) \<and> editing s4 (fst q) (snd q) \<and> length (buf s4) = ?n \<and> inp s4 = ?rest"
              using A False unfolding q_def \<open>rdline_key c ?s1 = rdline_arrow k ?s3\<close> by (auto split: if_splits)
            then obtain s4 where s4: "rdline_key c ?s1 = Some (None, s4)" "editing s4 (fst q) (snd q)" "length (buf s4) = ?n" "inp s4 = ?rest"
              unfolding \<open>rdline_key c ?s1 = rdline_arrow k ?s3\<close> by blast
            have e: "edit ?n (inp s) l r = edit ?n ?rest (fst q) (snd q)"
              using False esc Cons ds seq by (simp add: edit.simps q_def)
            have lt: "length ?rest < length (inp s)" using Cons ds seq by auto
            have "rdline_input s = rdline_input s4" using go [OF s4(1)] by simp
            from on [OF this s4(2-4) lt] show ?thesis unfolding e .
          qed
        qed
      qed
    qed
  qed
qed


section \<open>Recalling lines\<close>

lemma ncpy_eq:
  assumes "0 \<notin> set t" and "length k + length t < length dst" and "int (length k + length t) \<le> mx - 1"
  shows "ncpy (int (length k)) (k @ drop (length k) dst) (k @ t @ 0 # z) mx = Some (k @ t @ 0 # drop (Suc (length k + length t)) dst)"
  using assms
proof (induction t arbitrary: k)
  case Nil
  have "k @ drop (length k) dst = k @ dst ! length k # drop (Suc (length k)) dst" using Nil by (simp add: Cons_nth_drop_Suc)
  then show ?case by (subst ncpy.simps) simp
next
  case (Cons c t)
  have d: "k @ drop (length k) dst = k @ dst ! length k # drop (Suc (length k)) dst" using Cons.prems by (simp add: Cons_nth_drop_Suc)
  have "ncpy (int (length k)) (k @ drop (length k) dst) (k @ (c # t) @ 0 # z) mx =
      ncpy (int (length (k @ [c]))) ((k @ [c]) @ drop (length (k @ [c])) dst) ((k @ [c]) @ t @ 0 # z) mx"
    unfolding d using Cons.prems by (subst ncpy.simps) (simp add: add.commute)
  also have "\<dots> = Some ((k @ [c]) @ t @ 0 # drop (Suc (length (k @ [c]) + length t)) dst)"
    by (rule Cons.IH) (use Cons.prems in simp_all)
  finally show ?case by simp
qed

lemma redraw_editing:
  assumes T: "text_in s l r" and sc: "screen_of (outp s) = (scr, 0, Plain)"
  shows "\<exists>s'. redraw_line s = Some s' \<and> editing s' l r"
proof -
  from T obtain z where z: "buf s = l @ r @ 0 # z" and p: "pos s = int (length l)" "elen s = int (length l + length r)"
    and pr: "\<forall>c \<in> set (l @ r). is_printable c" and sz: "length (buf s) < 2147483648" by (auto simp: text_in_def)
  let ?s1 = "s\<lparr>outp := outp s @ [27, 91, 75]\<rparr>"
  let ?s2 = "?s1\<lparr>outp := outp ?s1 @ l @ r\<rparr>"
  have w: "rdline_write (buf ?s1) (nat (elen ?s1)) ?s1 = Some ?s2" by (simp add: rdline_write_eq z p nat_add_distrib)
  have "screen_of (outp ?s1) = ([] @ [], length ([] :: u8 list), Plain)" using sc tput_move(3) [of scr 0] by simp
  then have sc2: "screen_of (outp ?s2) = (l @ r, length l + length r, Plain)"
    using tput_text [OF printable_facts(2) [OF pr], of "[]" "[]"] by simp
  obtain ys where m: "move_left (elen ?s2 - pos ?s2) ?s2 = Some (?s2\<lparr>outp := outp ?s2 @ ys\<rparr>)"
      "screen_of (outp ?s2 @ ys) = (l @ r, length l + length r - nat (elen ?s2 - pos ?s2), Plain)"
    by (rule move_left_eq [where n = "elen ?s2 - pos ?s2", OF _ _ sc2]) (use p z sz in auto)
  have "redraw_line s = Some (?s2\<lparr>outp := outp ?s2 @ ys\<rparr>)"
    unfolding redraw_line_def clear_line_eq using w m(1) p by simp
  moreover have "editing (?s2\<lparr>outp := outp ?s2 @ ys\<rparr>) l r"
    using T m(2) p by (simp add: editing_def text_in_def)
  ultimately show ?thesis by blast
qed

section \<open>Properties\<close>

text \<open>
  C32: the line editor.  Whatever is typed, the editor stays within its buffer and returns; the
  key it returns for, the text, the cursor and the input it leaves are those of the reference
  editor, and the terminal shows exactly the text of the buffer, with its cursor at the editor's.
\<close>

theorem line_editor_refines:
  assumes "editing s l r"
  shows "\<exists>s'. rdline_input s = Some (fst (edit (length (buf s)) (inp s) l r), s') \<and>
    (case snd (edit (length (buf s)) (inp s) l r) of (l', r', rest) \<Rightarrow> editing s' l' r' \<and> inp s' = rest) \<and>
    length (buf s') = length (buf s)"
  by (rule rdline_refines [OF assms])

definition sample_editor :: "int list \<Rightarrow> rdline" where
  "sample_editor keys = \<lparr>buf = replicate 8 0, pos = 0, elen = 0, hcurr = 0, hlen = 0,
     arena = [(0, 0, replicate 8 0), (0, 0, replicate 8 0)], inp = keys, outp = []\<rparr>"

lemma sample_editor_editing: "editing (sample_editor keys) [] []"
proof -
  have "replicate 8 (0 :: u8) = 0 # replicate 7 0" by (simp add: eval_nat_numeral)
  then have "\<exists>z. replicate 8 (0 :: u8) = 0 # z" by blast
  then show ?thesis by (simp add: sample_editor_def editing_def text_in_def screen_of_def)
qed

text \<open>The keys a, b, left, x, return leave the text \<open>axb\<close> with the cursor before \<open>b\<close>.\<close>

theorem line_editor_refines_witness:
  "\<exists>s'. rdline_input (sample_editor [97, 98, 27, 91, 68, 120, 13]) = Some (RDLINE_ON_ENTER, s') \<and>
    editing s' [97, 120] [98] \<and> inp s' = []"
  using line_editor_refines [OF sample_editor_editing [of "[97, 98, 27, 91, 68, 120, 13]"]]
  by (auto simp: sample_editor_def edit.simps is_printable_def)

text \<open>
  C33: the history.  A line entered while the arena has room is stored, and recalling it later
  restores text and cursor exactly, in the buffer and on the screen.  When the
  arena is full, entering one more line, and stepping down past the newest line, access memory
  outside of it: nothing compares the number of lines with \<open>history_size\<close>.
\<close>

theorem history_roundtrip:
  assumes T: "text_in s l r" and sized: "\<forall>e \<in> set (arena s). length (snd (snd e)) = length (buf s)" and h: "0 \<le> hlen s"
  shows "if hlen s < int (length (arena s))
    then \<exists>s1. history_insert s = Some s1 \<and> hlen s1 = hlen s + 1 \<and>
      (\<forall>s2 scr. arena s2 = arena s1 \<and> hcurr s2 = hlen s \<and> length (buf s2) = length (buf s) \<and>
           screen_of (outp s2) = (scr, 0, Plain) \<longrightarrow>
         (\<exists>s3 s4. history_get s2 = Some s3 \<and> redraw_line s3 = Some s4 \<and> editing s4 l r))
    else history_insert s = None \<and> history_get (s\<lparr>hcurr := hlen s\<rparr>) = None"
proof (cases "hlen s < int (length (arena s))")
  case False
  then have "peek (hlen s) (arena s) = None" by (auto simp: peek_def)
  then show ?thesis using False by (simp add: history_insert_def history_get_def)
next
  case True
  from T obtain z where z: "buf s = (l @ r) @ 0 # z" and p: "pos s = int (length l)" "elen s = int (length l + length r)"
    and pr: "\<forall>c \<in> set (l @ r). is_printable c" and sz: "length (buf s) < 2147483648" by (auto simp: text_in_def)
  note nz = printable_facts(1) [OF pr]
  let ?i = "nat (hlen s)"
  have i: "?i < length (arena s)" using True h by simp
  obtain ep el line where e: "arena s ! ?i = (ep, el, line)" by (cases "arena s ! ?i") auto
  have ll: "length line = length (buf s)" using sized nth_mem [OF i] e by fastforce
  define line' where "line' = (l @ r) @ 0 # drop (Suc (length (l @ r))) line"
  have "ncpy 0 line (buf s) (buf_size s) = Some line'"
    using ncpy_eq [of "l @ r" "[]" line "buf_size s" z] nz ll by (simp add: z buf_size_def line'_def)
  then have ins: "history_insert s = Some (s\<lparr>arena := (arena s)[?i := (pos s, elen s, line')], hlen := hlen s + 1\<rparr>)" (is "_ = Some ?s1")
    using True h e by (simp add: history_insert_def peek_def poke_def)
  have "\<exists>s3 s4. history_get s2 = Some s3 \<and> redraw_line s3 = Some s4 \<and> editing s4 l r"
    if a: "arena s2 = arena ?s1" "hcurr s2 = hlen s" "length (buf s2) = length (buf s)" "screen_of (outp s2) = (scr, 0, Plain)" for s2 scr
  proof -
    have "ncpy 0 (buf s2) line' (buf_size s2) = Some ((l @ r) @ 0 # drop (Suc (length (l @ r))) (buf s2))" (is "_ = Some ?b")
      using ncpy_eq [of "l @ r" "[]" "buf s2" "buf_size s2" "drop (Suc (length (l @ r))) line"] nz a(3) z
      by (simp add: buf_size_def line'_def)
    then have g: "history_get s2 = Some (s2\<lparr>buf := ?b, pos := pos s, elen := elen s\<rparr>)" (is "_ = Some ?s3")
      using a True h i by (simp add: history_get_def peek_def)
    have "text_in ?s3 l r" using pr sz a(3) z p by (auto simp: text_in_def)
    then show ?thesis using redraw_editing [of ?s3 l r scr] a(4) g by auto
  qed
  then show ?thesis using True ins by auto
qed

theorem history_roundtrip_witness:
  "\<exists>s1. history_insert (sample_editor []) = Some s1 \<and> hlen s1 = 1 \<and> history_insert ((sample_editor [])\<lparr>hlen := 2\<rparr>) = None"
proof -
  have t: "text_in (sample_editor []) [] []" using sample_editor_editing [of "[]"] by (simp add: editing_def)
  then have t2: "text_in ((sample_editor [])\<lparr>hlen := 2\<rparr>) [] []" by (simp add: text_in_def)
  show ?thesis using history_roundtrip [OF t] history_roundtrip [OF t2] by (auto simp: sample_editor_def)
qed

end
