(* ===== verification/Printf.thy ===== *)
theory Printf
  imports Buffers
begin

text \<open>
  The formatted output of \<open>os/various/chprintf.c\<close>, compiled without floating point, on a target
  whose \<open>int\<close> and \<open>long\<close> have 32 bits and whose \<open>char\<close> is unsigned.  The format string is the list
  of the bytes from \<open>fmt\<close> up to and with its terminator, the variable arguments a list that
  \<open>va_arg\<close> consumes, the stream the bytes put so far.  Reading behind the end of the format string
  or of a string argument, writing outside of \<open>tmpbuf\<close>, taking an argument that is missing or of
  another type, and an overflow of the signed \<open>width\<close> or \<open>precision\<close> are \<open>None\<close>.
\<close>

section \<open>The code\<close>

definition max_filler :: int where
  "max_filler = 11"

definition digit_char :: "u32 \<Rightarrow> u8" where
  "digit_char d = ucast (let i = d + 48 in if i > 57 then i + 7 else i)"

function digit_loop :: "u32 \<Rightarrow> u32 \<Rightarrow> u32 \<Rightarrow> int \<Rightarrow> u8 list \<Rightarrow> (int \<times> u8 list) option" where
  "digit_loop radix l ll q buf =
     (case poke (q - 1) (digit_char (l mod radix)) buf of
        None \<Rightarrow> None
      | Some buf \<Rightarrow>
          let ll = ll div radix
          in if ll \<noteq> 0 then digit_loop radix (l div radix) ll (q - 1) buf else Some (q - 1, buf))"
  by pat_completeness auto
termination
  by (relation "measure (\<lambda>(radix, l, ll, q, buf). nat q)")
    (auto simp: poke_def split: if_splits)

function copy_loop :: "int \<Rightarrow> int \<Rightarrow> int \<Rightarrow> u8 list \<Rightarrow> (int \<times> u8 list) option" where
  "copy_loop i p q buf =
     (case peek q buf of
        None \<Rightarrow> None
      | Some c \<Rightarrow>
          (case poke p c buf of
             None \<Rightarrow> None
           | Some buf \<Rightarrow>
               if i - 1 \<noteq> 0 then copy_loop (i - 1) (p + 1) (q + 1) buf else Some (p + 1, buf)))"
  by pat_completeness auto
termination
  by (relation "measure (\<lambda>(i, p, q, buf). nat (int (length buf) - q))")
    (auto simp: poke_def peek_def split: if_splits)

declare digit_loop.simps [simp del] copy_loop.simps [simp del]

definition long_to_string_with_divisor ::
  "int \<Rightarrow> u32 \<Rightarrow> u32 \<Rightarrow> u32 \<Rightarrow> u8 list \<Rightarrow> (int \<times> u8 list) option" where
  "long_to_string_with_divisor p num radix divisor buf =
     (let ll = (if divisor = 0 then num else divisor)
      in do {
           (q, buf) \<leftarrow> digit_loop radix num ll (p + max_filler) buf;
           copy_loop (p + max_filler - q) p q buf
         })"

definition ltoa :: "int \<Rightarrow> u32 \<Rightarrow> u32 \<Rightarrow> u8 list \<Rightarrow> (int \<times> u8 list) option" where
  "ltoa p num radix buf = long_to_string_with_divisor p num radix 0 buf"

datatype va = Num u32 | Ptr "u8 list option"

fun va_num :: "va list \<Rightarrow> (u32 \<times> va list) option" where
  "va_num (Num n # ap) = Some (n, ap)"
| "va_num _ = None"

fun va_ptr :: "va list \<Rightarrow> (u8 list option \<times> va list) option" where
  "va_ptr (Ptr s # ap) = Some (s, ap)"
| "va_ptr _ = None"

definition is_digit :: "u8 \<Rightarrow> bool" where
  "is_digit c \<longleftrightarrow> c \<ge> 48 \<and> c \<le> 57"

definition int_max :: int where
  "int_max = 2147483647"

fun number_loop :: "int \<Rightarrow> u8 list \<Rightarrow> va list \<Rightarrow> (u8 \<times> int \<times> u8 list \<times> va list) option" where
  "number_loop n [] ap = None"
| "number_loop n (c # fmt) ap =
     (if is_digit c then
        let n = n * 10 + uint (c - 48)
        in if n > int_max then None else number_loop n fmt ap
      else if c = 42 then
        (case va_num ap of
           None \<Rightarrow> None
         | Some (v, ap) \<Rightarrow>
             let n = n * 10 + uint (ucast v :: u8)
             in if n > int_max then None else number_loop n fmt ap)
      else Some (c, n, fmt, ap))"

record directive =
  left_align :: bool
  filler :: u8
  width :: int
  precision :: int
  is_long :: bool
  conv :: u8

definition read_flag :: "u8 set \<Rightarrow> u8 list \<Rightarrow> (bool \<times> u8 list) option" where
  "read_flag cs fmt =
     (case fmt of [] \<Rightarrow> None | c # fmt' \<Rightarrow> Some (if c \<in> cs then (True, fmt') else (False, fmt)))"

definition read_long :: "u8 \<Rightarrow> u8 list \<Rightarrow> (bool \<times> u8 \<times> u8 list) option" where
  "read_long c fmt =
     (if c = 108 \<or> c = 76 then
        (case fmt of
           [] \<Rightarrow> None
         | c' # fmt' \<Rightarrow> Some (True, if c' \<noteq> 0 then (c', fmt') else (c, fmt)))
      else Some (c \<ge> 65 \<and> c \<le> 90, c, fmt))"

definition read_directive :: "u8 list \<Rightarrow> va list \<Rightarrow> (directive \<times> u8 list \<times> va list) option" where
  "read_directive fmt ap =
     do {
       (left, fmt) \<leftarrow> read_flag {45} fmt;
       (zero, fmt) \<leftarrow> read_flag {46, 48} fmt;
       (c, w, fmt, ap) \<leftarrow> number_loop 0 fmt ap;
       (c, pr, fmt, ap) \<leftarrow> (if c = 46 then number_loop 0 fmt ap else Some (c, 0, fmt, ap));
       (lng, c, fmt) \<leftarrow> read_long c fmt;
       Some (\<lparr>left_align = left, filler = (if zero then 48 else 32), width = w, precision = pr,
              is_long = lng, conv = c\<rparr>, fmt, ap)
     }"

fun str_loop :: "int \<Rightarrow> u8 list \<Rightarrow> u8 list option" where
  "str_loop pr [] = None"
| "str_loop pr (c # s) =
     (if c \<noteq> 0 \<and> pr - 1 \<ge> 0 then map_option ((#) c) (str_loop (pr - 1) s) else Some [])"

definition null_text :: "u8 list" where
  "null_text = [40, 110, 117, 108, 108, 41, 0]"

definition number_text :: "int \<Rightarrow> u32 \<Rightarrow> u32 \<Rightarrow> u8 list \<Rightarrow> u8 list option" where
  "number_text p l radix tmpbuf =
     map_option (\<lambda>(p, buf). take (nat p) buf) (ltoa p l radix tmpbuf)"

text \<open>
  The negation of a negative number is that of the compiled code, which wraps around: the most
  negative number, for which C leaves the negation undefined, is its own negation and prints as
  its magnitude.
\<close>

definition convert ::
  "directive \<Rightarrow> u8 list \<Rightarrow> va list \<Rightarrow> (u8 list \<times> u8 \<times> va list) option" where
  "convert d tmpbuf ap =
     (let c = conv d
      in if c = 99 then
           do { (v, ap) \<leftarrow> va_num ap; Some ([ucast v], 32, ap) }
         else if c = 115 then
           do {
             (s, ap) \<leftarrow> va_ptr ap;
             tx \<leftarrow> str_loop (if precision d = 0 then 32767 else precision d)
                      (case s of None \<Rightarrow> null_text | Some m \<Rightarrow> m);
             Some (tx, 32, ap)
           }
         else if c \<in> {68, 100, 73, 105} then
           do {
             (l, ap) \<leftarrow> va_num ap;
             tx \<leftarrow> (if sint l < 0 then
                        do { buf \<leftarrow> poke 0 45 tmpbuf; number_text 1 (- l) 10 buf }
                      else number_text 0 l 10 tmpbuf);
             Some (tx, filler d, ap)
           }
         else if c \<in> {88, 120, 85, 117, 79, 111} then
           do {
             (l, ap) \<leftarrow> va_num ap;
             tx \<leftarrow> number_text 0 l
                      (if c \<in> {88, 120} then 16 else if c \<in> {85, 117} then 10 else 8) tmpbuf;
             Some (tx, filler d, ap)
           }
         else Some ([c], filler d, ap))"

function fill_up :: "u8 \<Rightarrow> int \<Rightarrow> u8 list \<Rightarrow> u8 list" where
  "fill_up f w out = (let out = out @ [f] in if w + 1 < 0 then fill_up f (w + 1) out else out)"
  by pat_completeness auto
termination
  by (relation "measure (\<lambda>(f, w, out). nat (- w))") auto

function fill_down :: "u8 \<Rightarrow> int \<Rightarrow> u8 list \<Rightarrow> u8 list" where
  "fill_down f w out = (if w > 0 then fill_down f (w - 1) (out @ [f]) else out)"
  by pat_completeness auto
termination
  by (relation "measure (\<lambda>(f, w, out). nat w)") auto

declare fill_up.simps [simp del] fill_down.simps [simp del]

definition put_item :: "bool \<Rightarrow> u8 \<Rightarrow> int \<Rightarrow> u8 list \<Rightarrow> u8 list \<Rightarrow> u8 list" where
  "put_item left f w tx out =
     (let w = w - int (length tx);
          w = (if w < 0 then 0 else w);
          w = (if left then w else - w);
          (out, tx, w) =
            (if w < 0 then
               let (out, tx) =
                 (if tx \<noteq> [] \<and> hd tx = 45 \<and> f = 48 then (out @ [hd tx], tl tx) else (out, tx))
               in (fill_up f w out, tx, 0)
             else (out, tx, w));
          out = foldl (\<lambda>out c. out @ [c]) out tx
      in fill_down f w out)"

lemma number_loop_shorter:
  "number_loop n fmt ap = Some (c, n', fmt', ap') \<Longrightarrow> length fmt' < length fmt"
  by (induction fmt arbitrary: n ap)
    (auto simp: Let_def less_SucI split: if_splits option.splits prod.splits)

lemma read_flag_shorter: "read_flag cs fmt = Some (b, fmt') \<Longrightarrow> length fmt' \<le> length fmt"
  by (auto simp: read_flag_def split: list.splits if_splits)

lemma read_long_shorter: "read_long c fmt = Some (b, c', fmt') \<Longrightarrow> length fmt' \<le> length fmt"
  by (auto simp: read_long_def split: list.splits if_splits)

lemma read_directive_shorter:
  assumes "read_directive fmt ap = Some (d, fmt', ap')"
  shows "length fmt' < length fmt"
  using assms
  by (auto simp: read_directive_def split: bind_splits if_splits
      dest!: number_loop_shorter read_flag_shorter read_long_shorter)

function chprintf :: "u8 list \<Rightarrow> u8 list \<Rightarrow> va list \<Rightarrow> u8 list \<Rightarrow> u8 list option" where
  "chprintf tmpbuf [] ap out = None"
| "chprintf tmpbuf (c # fmt) ap out =
     (if c = 0 then Some out
      else if c \<noteq> 37 then chprintf tmpbuf fmt ap (out @ [c])
      else
        (case read_directive fmt ap of
           None \<Rightarrow> None
         | Some (d, fmt, ap) \<Rightarrow>
             (case convert d tmpbuf ap of
                None \<Rightarrow> None
              | Some (tx, f, ap) \<Rightarrow>
                  chprintf tmpbuf fmt ap (put_item (left_align d) f (width d) tx out))))"
  by pat_completeness auto
termination
  by (relation "measure (\<lambda>(tmpbuf, fmt, ap, out). length fmt)")
    (auto dest: read_directive_shorter)

section \<open>Numbers\<close>

definition digit_of :: "nat \<Rightarrow> u8" where
  "digit_of d = of_nat (if d < 10 then 48 + d else 55 + d)"

definition digit_val :: "u8 \<Rightarrow> nat" where
  "digit_val c = (if c \<le> 57 then unat c - 48 else unat c - 55)"

fun digits :: "nat \<Rightarrow> nat \<Rightarrow> u8 list" where
  "digits r n = (if r < 2 \<or> n < r then [digit_of n] else digits r (n div r) @ [digit_of (n mod r)])"

declare digits.simps [simp del]

definition numeral_value :: "nat \<Rightarrow> u8 list \<Rightarrow> nat" where
  "numeral_value r cs = foldl (\<lambda>a c. a * r + digit_val c) 0 cs"

lemma digit_val_of:
  assumes "d < 16"
  shows "digit_val (digit_of d) = d"
proof -
  have e: "unat (of_nat k :: u8) = k" if "k < 256" for k
    using that by (simp add: unat_of_nat take_bit_eq_mod)
  show ?thesis
    using assms by (auto simp: digit_val_def digit_of_def word_le_nat_alt e simp del: of_nat_add)
qed

lemma mod_lt_16: "2 \<le> r \<Longrightarrow> r \<le> 16 \<Longrightarrow> (n :: nat) mod r < 16"
  by (rule less_le_trans [OF mod_less_divisor]) auto

lemma digits_value: "2 \<le> r \<Longrightarrow> r \<le> 16 \<Longrightarrow> numeral_value r (digits r n) = n"
proof (induction r n rule: digits.induct)
  case (1 r n)
  have "n mod r < 16" using 1 by (intro mod_lt_16)
  then show ?case
    using 1 by (subst digits.simps) (auto simp: numeral_value_def digit_val_of)
qed

lemma digits_nonempty [simp]: "digits r n \<noteq> []"
  by (subst digits.simps) simp

lemma digits_length: "2 \<le> r \<Longrightarrow> 0 < k \<Longrightarrow> n < r ^ k \<Longrightarrow> length (digits r n) \<le> k"
proof (induction k arbitrary: n)
  case (Suc k)
  show ?case
  proof (cases "n < r")
    case True
    then show ?thesis by (subst digits.simps) simp
  next
    case False
    then have "0 < k" using Suc.prems by (cases k) auto
    moreover have "n div r < r ^ k"
      using Suc.prems by (simp add: less_mult_imp_div_less mult.commute)
    ultimately show ?thesis
      using Suc False by (subst digits.simps) simp
  qed
qed simp

lemma digits_head: "2 \<le> r \<Longrightarrow> 0 < n \<Longrightarrow> \<exists>d < r. 0 < d \<and> hd (digits r n) = digit_of d"
proof (induction r n rule: digits.induct)
  case (1 r n)
  show ?case
  proof (cases "n < r")
    case True
    then show ?thesis using 1 by (subst digits.simps) auto
  next
    case False
    then show ?thesis
      using 1 by (subst digits.simps) (auto simp: div_greater_zero_iff)
  qed
qed

lemma digit_char_of:
  assumes "unat d < 16"
  shows "digit_char d = digit_of (unat d)"
proof -
  have "unat d \<in> set [0..<16]" using assms by simp
  then have "d \<in> set (map of_nat [0..<16])"
    by (metis imageI image_set unat_gt_0 word_of_nat_eq_iff unsigned_of_nat of_nat_unat ucast_id)
  then show ?thesis
    by (auto simp: upt_rec digit_char_def digit_of_def)
qed

lemma digit_loop_digits:
  assumes "2 \<le> unat radix" "unat radix \<le> 16" "length (digits (unat radix) (unat l)) \<le> q"
    "q \<le> length buf"
  shows "digit_loop radix l l (int q) buf =
    Some (int (q - length (digits (unat radix) (unat l))),
          take (q - length (digits (unat radix) (unat l))) buf @
          digits (unat radix) (unat l) @ drop q buf)"
  using assms
proof (induction q arbitrary: l buf)
  case (Suc q)
  have m: "unat (l mod radix) < 16" using Suc.prems by (simp add: unat_mod_distrib mod_lt_16)
  have d: "digit_char (l mod radix) = digit_of (unat l mod unat radix)"
    using digit_char_of [OF m] by (simp add: unat_mod_distrib)
  have pk: "poke (int q) v buf = Some (take q buf @ v # drop (Suc q) buf)" for v
    using Suc.prems by (simp add: poke_def upd_conv_take_nth_drop)
  have z: "l div radix = 0 \<longleftrightarrow> unat l < unat radix"
    using Suc.prems by (simp add: word_unat_eq_iff unat_div_distrib div_eq_0_iff)
  show ?case
  proof (cases "unat l < unat radix")
    case True
    then show ?thesis
      using Suc.prems z d
      by (subst digit_loop.simps, subst (1 2 3) digits.simps) (simp add: pk)
  next
    case False
    let ?D = "digits (unat radix) (unat (l div radix))"
    have D: "digits (unat radix) (unat l) = ?D @ [digit_of (unat l mod unat radix)]"
      using Suc.prems False by (subst digits.simps) (simp add: unat_div_distrib)
    have "digit_loop radix (l div radix) (l div radix) (int q)
        (take q buf @ digit_of (unat l mod unat radix) # drop (Suc q) buf) =
      Some (int (q - length ?D), take (q - length ?D) buf @ ?D @
        digit_of (unat l mod unat radix) # drop (Suc q) buf)"
      using Suc.prems D
      by (subst Suc.IH) (auto simp: min_def)
    then show ?thesis
      using False z d by (subst digit_loop.simps) (simp add: pk D Let_def)
  qed
qed simp

lemma copy_loop_moves:
  assumes "0 < n" "p \<le> q" "q + n \<le> length buf"
  shows "copy_loop (int n) (int p) (int q) buf =
    Some (int (p + n), take p buf @ take n (drop q buf) @ drop (p + n) buf)"
  using assms
proof (induction n arbitrary: p q buf)
  case (Suc n)
  have b: "peek (int q) buf = Some (buf ! q)" "poke (int p) v buf = Some (buf[p := v])" for v
    using Suc.prems by (simp_all add: peek_def poke_def)
  have u: "take (Suc p) (buf[p := buf ! q]) = take p buf @ [buf ! q]"
    using Suc.prems by (simp add: take_Suc_conv_app_nth)
  have t: "take (Suc n) (drop q buf) = buf ! q # take n (drop (Suc q) buf)"
    using Suc.prems by (simp add: Cons_nth_drop_Suc [symmetric])
  show ?case
  proof (cases "n = 0")
    case True
    then show ?thesis
      using Suc.prems t
      by (subst copy_loop.simps) (simp add: b upd_conv_take_nth_drop)
  next
    case False
    have "copy_loop (int n) (int (Suc p)) (int (Suc q)) (buf[p := buf ! q]) =
      Some (int (Suc p + n), take p buf @ take (Suc n) (drop q buf) @ drop (Suc p + n) buf)"
      using Suc.prems False u t by (subst Suc.IH) simp_all
    then show ?thesis
      using False by (subst copy_loop.simps) (simp add: b add_ac)
  qed
qed simp

lemma ltoa_digits:
  assumes "2 \<le> unat radix" "unat radix \<le> 16" "length (digits (unat radix) (unat num)) \<le> 11"
    "p + 11 \<le> length buf"
  shows "\<exists>buf'. ltoa (int p) num radix buf =
      Some (int (p + length (digits (unat radix) (unat num))), buf') \<and>
    take (p + length (digits (unat radix) (unat num))) buf' =
      take p buf @ digits (unat radix) (unat num)"
proof -
  let ?D = "digits (unat radix) (unat num)"
  let ?B = "take (p + 11 - length ?D) buf @ ?D @ drop (p + 11) buf"
  have "digit_loop radix num num (int (p + 11)) buf = Some (int (p + 11 - length ?D), ?B)"
    using assms by (subst digit_loop_digits) simp_all
  moreover have "copy_loop (int (length ?D)) (int p) (int (p + 11 - length ?D)) ?B =
      Some (int (p + length ?D), take p ?B @ take (length ?D) (drop (p + 11 - length ?D) ?B) @
        drop (p + length ?D) ?B)"
    using assms by (subst copy_loop_moves) (auto simp: min_def)
  moreover have "int p + 11 - int (p + 11 - length ?D) = int (length ?D)"
    using assms by simp
  ultimately show ?thesis
    using assms
    by (simp add: ltoa_def long_to_string_with_divisor_def max_filler_def min_def)
qed

lemma u32_digits_length: "8 \<le> r \<Longrightarrow> length (digits r (unat (x :: u32))) \<le> 11"
proof (rule digits_length)
  assume "8 \<le> r"
  then have "(8 :: nat) ^ 11 \<le> r ^ 11" by (rule power_mono) simp
  then show "unat x < r ^ 11" using u32_lt [of x] by simp
qed simp_all

section \<open>Format strings by what they mean\<close>

datatype item =
    Signed u32
  | Unsigned u32
  | Hexa u32
  | Octal u32
  | Character u32
  | Text "u8 list"
  | Null

datatype piece = Lit u8 | Item bool bool nat item

fun letter :: "item \<Rightarrow> u8" where
  "letter (Signed v) = 100"
| "letter (Unsigned v) = 117"
| "letter (Hexa v) = 120"
| "letter (Octal v) = 111"
| "letter (Character v) = 99"
| "letter (Text s) = 115"
| "letter Null = 115"

fun argument :: "item \<Rightarrow> va" where
  "argument (Signed v) = Num v"
| "argument (Unsigned v) = Num v"
| "argument (Hexa v) = Num v"
| "argument (Octal v) = Num v"
| "argument (Character v) = Num v"
| "argument (Text s) = Ptr (Some (s @ [0]))"
| "argument Null = Ptr None"

fun item_text :: "item \<Rightarrow> u8 list" where
  "item_text (Signed v) =
     (if sint v < 0 then 45 # digits 10 (nat (- sint v)) else digits 10 (nat (sint v)))"
| "item_text (Unsigned v) = digits 10 (unat v)"
| "item_text (Hexa v) = digits 16 (unat v)"
| "item_text (Octal v) = digits 8 (unat v)"
| "item_text (Character v) = [ucast v]"
| "item_text (Text s) = take 32767 s"
| "item_text Null = [40, 110, 117, 108, 108, 41]"

fun is_number :: "item \<Rightarrow> bool" where
  "is_number (Character v) = False"
| "is_number (Text s) = False"
| "is_number Null = False"
| "is_number i = True"

definition padded :: "bool \<Rightarrow> u8 \<Rightarrow> nat \<Rightarrow> u8 list \<Rightarrow> u8 list" where
  "padded left f w tx =
     (let fill = replicate (w - length tx) f
      in if left then tx @ fill
         else if f = 48 \<and> tx \<noteq> [] \<and> hd tx = 45 then 45 # fill @ tl tx
         else fill @ tx)"

fun spelling :: "piece \<Rightarrow> u8 list" where
  "spelling (Lit c) = (if c = 37 then [37, 37] else [c])"
| "spelling (Item left zero w i) =
     37 # (if left then [45] else []) @ (if zero then [48] else []) @
     (if w = 0 then [] else digits 10 w) @ [letter i]"

fun arguments :: "piece list \<Rightarrow> va list" where
  "arguments [] = []"
| "arguments (Lit c # ps) = arguments ps"
| "arguments (Item left zero w i # ps) = argument i # arguments ps"

fun meaning :: "piece \<Rightarrow> u8 list" where
  "meaning (Lit c) = [c]"
| "meaning (Item left zero w i) =
     padded left (if zero \<and> is_number i then 48 else 32) w (item_text i)"

fun piece_ok :: "piece \<Rightarrow> bool" where
  "piece_ok (Lit c) = (c \<noteq> 0)"
| "piece_ok (Item left zero w i) =
     (int w \<le> int_max \<and> (case i of Text s \<Rightarrow> 0 \<notin> set s | _ \<Rightarrow> True))"

section \<open>What is printed\<close>

lemma fill_up_replicate: "w < 0 \<Longrightarrow> fill_up f w out = out @ replicate (nat (- w)) f"
proof (induction f w out rule: fill_up.induct)
  case (1 f w out)
  show ?case
  proof (cases "w + 1 < 0")
    case True
    have "nat (- w) = Suc (nat (- (w + 1)))" using True by simp
    then show ?thesis using 1 True by (subst fill_up.simps) (simp add: Let_def)
  next
    case False
    then have "nat (- w) = 1" using 1 by simp
    then show ?thesis using False by (subst fill_up.simps) (simp add: Let_def)
  qed
qed

lemma fill_down_replicate: "fill_down f w out = out @ replicate (nat w) f"
proof (induction f w out rule: fill_down.induct)
  case (1 f w out)
  show ?case
  proof (cases "w > 0")
    case True
    then have "nat w = Suc (nat (w - 1))" by simp
    then show ?thesis using 1 True by (subst fill_down.simps) simp
  next
    case False
    then show ?thesis by (subst fill_down.simps) simp
  qed
qed

lemma foldl_put: "foldl (\<lambda>out c. out @ [c]) out tx = out @ tx"
  by (induction tx arbitrary: out) auto

lemma put_item_padded: "put_item left f (int w) tx out = out @ padded left f w tx"
proof (cases "w \<le> length tx")
  case True
  then have "int w - int (length tx) \<le> 0" by simp
  then have z: "(if int w - int (length tx) < 0 then 0 else int w - int (length tx)) = 0" by simp
  show ?thesis
    using True unfolding put_item_def Let_def z
    by (cases tx) (auto simp: foldl_put fill_down_replicate padded_def)
next
  case gt: False
  then have z: "(if int w - int (length tx) < 0 then 0 else int w - int (length tx)) =
      int (w - length tx)" and p: "- int (w - length tx) < 0" "\<not> int (w - length tx) < 0"
    by simp_all
  show ?thesis
  proof (cases left)
    case True
    then show ?thesis
      unfolding put_item_def Let_def z
      by (simp add: p foldl_put fill_down_replicate padded_def del: of_nat_diff)
  next
    case False
    then show ?thesis
      unfolding put_item_def Let_def z using fill_up_replicate [OF p(1)] gt
      by (simp add: p foldl_put fill_down_replicate padded_def Let_def del: of_nat_diff)
  qed
qed

lemma number_loop_digits:
  assumes "\<forall>d \<in> set cs. is_digit d" "\<not> is_digit c" "c \<noteq> 42"
    "int (foldl (\<lambda>a c. a * 10 + digit_val c) a cs) \<le> int_max"
  shows "number_loop (int a) (cs @ c # fmt) ap =
    Some (c, int (foldl (\<lambda>a c. a * 10 + digit_val c) a cs), fmt, ap)"
  using assms
proof (induction cs arbitrary: a)
  case (Cons d cs)
  have mono: "b \<le> foldl (\<lambda>a c. a * 10 + digit_val c) b xs" for b xs
  proof (induction xs arbitrary: b)
    case (Cons x xs)
    show ?case by (simp, rule order_trans [OF _ Cons.IH]) simp
  qed simp
  let ?b = "a * 10 + digit_val d"
  have d: "is_digit d" using Cons.prems(1) by simp
  then have "unat (d - 48) = digit_val d"
    by (simp add: is_digit_def digit_val_def unat_sub_le)
  then have "uint (d - 48) = int (digit_val d)" by (metis of_nat_unat ucast_id)
  moreover have "int ?b \<le> int_max"
    using mono [of ?b cs] Cons.prems(4) by (simp only: foldl_Cons)
  ultimately have "number_loop (int a) ((d # cs) @ c # fmt) ap = number_loop (int ?b) (cs @ c # fmt) ap"
    using d by (simp add: Let_def)
  also have "\<dots> = Some (c, int (foldl (\<lambda>a c. a * 10 + digit_val c) ?b cs), fmt, ap)"
    using Cons.prems by (intro Cons.IH) simp_all
  finally show ?case by simp
qed simp

lemma digits10_digit: "d \<in> set (digits 10 n) \<Longrightarrow> is_digit d"
proof (induction n rule: less_induct)
  case (less n)
  have "is_digit (digit_of k)" if "k < 10" for k
  proof -
    have "k \<in> set [0..<10]" using that by simp
    then show ?thesis by (auto simp: upt_rec is_digit_def digit_of_def)
  qed
  then show ?case
    using less.IH [of "n div 10"] less.prems
    by (subst (asm) (2) digits.simps) (auto split: if_splits)
qed

definition width_text :: "nat \<Rightarrow> u8 list" where
  "width_text w = (if w = 0 then [] else digits 10 w)"

lemma width_text_first:
  "\<exists>c rest. width_text w @ letter i # fmt = c # rest \<and> c \<notin> {45, 46, 48}"
proof (cases "w = 0")
  case True
  then show ?thesis by (cases i) (auto simp: width_text_def)
next
  case False
  then obtain d where d: "d < 10" "0 < d" "hd (digits 10 w) = digit_of d"
    using digits_head [of 10 w] by auto
  have "d \<in> set [1..<10]" using d by simp
  then have "digit_of d \<notin> {45, 46, 48}" by (auto simp: upt_rec digit_of_def)
  then show ?thesis
    using False d by (cases "digits 10 w") (auto simp: width_text_def)
qed

lemma read_flag_skip: "xs = c # rest \<Longrightarrow> c \<notin> cs \<Longrightarrow> read_flag cs xs = Some (False, xs)"
  by (simp add: read_flag_def)

lemma read_flag_hit: "c \<in> cs \<Longrightarrow> read_flag cs (c # xs) = Some (True, xs)"
  by (simp add: read_flag_def)

lemma number_loop_width:
  assumes "int w \<le> int_max"
  shows "number_loop 0 (width_text w @ letter i # fmt) ap = Some (letter i, int w, fmt, ap)"
proof -
  have v: "foldl (\<lambda>a c. a * 10 + digit_val c) 0 (width_text w) = w"
    using digits_value [of 10 w] by (simp add: width_text_def numeral_value_def)
  have l: "\<not> is_digit (letter i)" "letter i \<noteq> 42"
    by (cases i; simp add: is_digit_def)+
  have d: "\<forall>d \<in> set (width_text w). is_digit d"
    by (auto simp: width_text_def dest: digits10_digit)
  show ?thesis
    using number_loop_digits [OF d l, of 0] v assms by simp
qed

lemma letter_long: "read_long (letter i) fmt = Some (False, letter i, fmt)" "letter i \<noteq> 46"
  by (cases i; simp add: read_long_def)+

lemma read_directive_item:
  assumes "int w \<le> int_max"
  shows "read_directive
      ((if left then [45] else []) @ (if zero then [48] else []) @ width_text w @ letter i # fmt) ap =
    Some (\<lparr>left_align = left, filler = (if zero then 48 else 32), width = int w, precision = 0,
           is_long = False, conv = letter i\<rparr>, fmt, ap)"
proof -
  let ?W = "width_text w @ letter i # fmt"
  obtain c rest where f: "?W = c # rest" "c \<notin> {45, 46, 48}"
    using width_text_first by blast
  have z: "read_flag {46, 48} ((if zero then [48] else []) @ ?W) = Some (zero, ?W)"
    using read_flag_skip [OF f(1), of "{46, 48}"] f(2)
    by (cases zero) (simp_all add: read_flag_hit)
  have "read_flag {45} ((if left then [45] else []) @ (if zero then [48] else []) @ ?W) =
      Some (left, (if zero then [48] else []) @ ?W)"
    using read_flag_skip [OF f(1), of "{45}"] read_flag_skip [of _ 48 ?W "{45}"] f(2)
    by (cases left; cases zero) (simp_all add: read_flag_hit)
  then show ?thesis
    using z number_loop_width [OF assms, of i fmt ap] letter_long
    by (simp add: read_directive_def)
qed

lemma str_loop_text:
  "0 \<notin> set s \<Longrightarrow> 0 \<le> pr \<Longrightarrow> str_loop pr (s @ 0 # r) = Some (take (nat pr) s)"
proof (induction s arbitrary: pr)
  case (Cons c s)
  show ?case
  proof (cases "pr = 0")
    case False
    then have "nat pr = Suc (nat (pr - 1))" using Cons.prems by simp
    then show ?thesis using Cons False by simp
  qed (use Cons in simp)
qed simp

lemma radix_values: "unat (8 :: u32) = 8" "unat (10 :: u32) = 10" "unat (16 :: u32) = 16"
  by simp_all

lemma ltoa_u32:
  assumes "r \<in> {8, 10, 16}" "p \<le> 1" "length buf = 12"
  shows "\<exists>buf'. ltoa (int p) x r buf = Some (int (p + length (digits (unat r) (unat x))), buf') \<and>
    take (p + length (digits (unat r) (unat x))) buf' = take p buf @ digits (unat r) (unat x)"
  using assms u32_digits_length [of "unat r" x] by (intro ltoa_digits) auto

lemma number_text_u32:
  assumes "r \<in> {8, 10, 16}" "p \<le> 1" "length buf = 12"
  shows "number_text (int p) x r buf = Some (take p buf @ digits (unat r) (unat x))"
  using ltoa_u32 [OF assms, of x] by (auto simp: number_text_def nat_int_add)

lemma uint_sint_mod: "uint (v :: u32) = sint v mod 4294967296" "uint (- v) = (- sint v) mod 4294967296"
  using uint_word_of_int_eq [of "sint v", where 'a = 32]
    uint_word_of_int_eq [of "- sint v", where 'a = 32]
  by (simp_all add: take_bit_eq_mod)

lemma nonneg_unat: "0 \<le> sint (v :: u32) \<Longrightarrow> unat v = nat (sint v)"
  unfolding unat_eq_nat_uint uint_sint_mod using sint_bounds32 [of v]
  by (subst mod_pos_pos_trivial) simp_all

lemma neg_unat: "sint (v :: u32) < 0 \<Longrightarrow> unat (- v) = nat (- sint v)"
  unfolding unat_eq_nat_uint uint_sint_mod(2) using sint_bounds32 [of v]
  by (subst mod_pos_pos_trivial) simp_all

lemma number_texts:
  assumes "length buf = 12"
  shows "number_text 0 x 8 buf = Some (digits 8 (unat x))"
    "number_text 0 x 10 buf = Some (digits 10 (unat x))"
    "number_text 0 x 16 buf = Some (digits 16 (unat x))"
    "number_text 1 x 10 buf = Some (take 1 buf @ digits 10 (unat x))"
  using assms number_text_u32 [of 8 0 buf x] number_text_u32 [of 10 0 buf x]
    number_text_u32 [of 16 0 buf x] number_text_u32 [of 10 1 buf x] by simp_all

lemma convert_signed:
  assumes "length tmpbuf = 12" "conv d = 100"
  shows "convert d tmpbuf (Num v # ap) = Some (item_text (Signed v), filler d, ap)"
proof -
  have "poke 0 45 tmpbuf = Some (tmpbuf[0 := 45])"
    using assms by (simp add: poke_def)
  moreover have "take 1 (tmpbuf[0 := 45]) = [45]"
    using assms by (cases tmpbuf) simp_all
  moreover have "convert d tmpbuf (Num v # ap) =
      (if sint v < 0 then do { buf \<leftarrow> poke 0 45 tmpbuf; number_text 1 (- v) 10 buf }
       else number_text 0 v 10 tmpbuf) \<bind> (\<lambda>tx. Some (tx, filler d, ap))"
    unfolding convert_def assms(2) by simp
  moreover have "number_text 1 (- v) 10 (tmpbuf[0 := 45]) =
      Some (take 1 (tmpbuf[0 := 45]) @ digits 10 (unat (- v)))"
    by (rule number_texts) (simp add: assms)
  moreover note number_texts(2) [OF assms(1), of v]
  ultimately show ?thesis
    using neg_unat [of v] nonneg_unat [of v, folded not_less]
    by (cases "sint v < 0") (simp_all only: item_text.simps if_True if_False bind.bind_lunit
        append.simps not_False_eq_True)
qed

lemma convert_unsigned:
  assumes "length tmpbuf = 12"
  shows "conv d = 117 \<Longrightarrow> convert d tmpbuf (Num v # ap) = Some (digits 10 (unat v), filler d, ap)"
    "conv d = 120 \<Longrightarrow> convert d tmpbuf (Num v # ap) = Some (digits 16 (unat v), filler d, ap)"
    "conv d = 111 \<Longrightarrow> convert d tmpbuf (Num v # ap) = Some (digits 8 (unat v), filler d, ap)"
  using number_texts [OF assms, of v] unfolding convert_def Let_def by simp_all

lemma convert_text:
  assumes "conv d = 115" "precision d = 0"
  shows "convert d tmpbuf (Ptr s # ap) =
    map_option (\<lambda>tx. (tx, 32, ap)) (str_loop 32767 (case s of None \<Rightarrow> null_text | Some m \<Rightarrow> m))"
  using assms unfolding convert_def Let_def
  by (cases "str_loop 32767 (case s of None \<Rightarrow> null_text | Some m \<Rightarrow> m)") simp_all

lemma str_loop_null: "str_loop 32767 null_text = Some [40, 110, 117, 108, 108, 41]"
  by (simp add: null_text_def)

lemma convert_char: "conv d = 99 \<Longrightarrow> convert d tmpbuf (Num v # ap) = Some ([ucast v], 32, ap)"
  unfolding convert_def Let_def by simp

lemma convert_item:
  assumes "length tmpbuf = 12" "conv d = letter i" "precision d = 0"
    "case i of Text s \<Rightarrow> 0 \<notin> set s | _ \<Rightarrow> True"
  shows "convert d tmpbuf (argument i # ap) =
    Some (item_text i, if is_number i then filler d else 32, ap)"
proof (cases i)
  case (Signed v)
  then show ?thesis using assms by (simp add: convert_signed del: item_text.simps)
next
  case (Text s)
  then have "str_loop 32767 (s @ [0]) = Some (take (nat 32767) s)"
    using assms by (intro str_loop_text) simp_all
  then show ?thesis using assms Text by (simp add: convert_text)
next
  case Null
  then show ?thesis using assms by (simp add: convert_text str_loop_null)
qed (use assms in \<open>simp_all add: convert_unsigned convert_char\<close>)

lemma put_percent: "put_item False f 0 [37] out = out @ [37]"
  using put_item_padded [of False f 0 "[37]" out] by (simp add: padded_def)

lemma chprintf_percent:
  "chprintf tmpbuf (37 # 37 # fmt) ap out = chprintf tmpbuf fmt ap (out @ [37])"
  by (simp add: read_directive_def read_flag_def read_long_def is_digit_def convert_def put_percent)

lemma chprintf_directive:
  "read_directive fmt ap = Some (d, fmt', ap') \<Longrightarrow> convert d tmpbuf ap' = Some (tx, f, ap'') \<Longrightarrow>
   chprintf tmpbuf (37 # fmt) ap out =
   chprintf tmpbuf fmt' ap'' (put_item (left_align d) f (width d) tx out)"
  by simp

lemma chprintf_item:
  assumes "piece_ok (Item left zero w i)" "length tmpbuf = 12"
  shows "chprintf tmpbuf (spelling (Item left zero w i) @ fmt) (argument i # ap) out =
    chprintf tmpbuf fmt ap (out @ meaning (Item left zero w i))"
proof -
  let ?d = "\<lparr>left_align = left, filler = (if zero then 48 else 32), width = int w, precision = 0,
           is_long = False, conv = letter i\<rparr>"
  have s: "spelling (Item left zero w i) @ fmt = 37 # (if left then [45] else []) @
      (if zero then [48] else []) @ width_text w @ letter i # fmt"
    by (simp add: width_text_def)
  have c: "convert ?d tmpbuf (argument i # ap) =
      Some (item_text i, if is_number i then filler ?d else 32, ap)"
    using assms by (intro convert_item) simp_all
  have w: "int w \<le> int_max" using assms(1) by simp
  show ?thesis
    unfolding s chprintf_directive [OF read_directive_item [OF w] c]
    by (simp add: put_item_padded)
qed

text \<open>C34: a format string that spells a sequence of literal characters and of the directives
  \<open>%d\<close>, \<open>%u\<close>, \<open>%x\<close>, \<open>%o\<close>, \<open>%c\<close> and \<open>%s\<close>, each with any of the flags \<open>-\<close> and \<open>0\<close> and any width,
  prints what the sequence means: \<open>chprintf\<close> returns, stays within its format string, its buffer
  and its arguments, whatever the buffer held, and puts for each directive the numeral, character
  or string, padded to the width on the side the flag says, behind the sign when the padding is
  zeros.\<close>

theorem chprintf_prints:
  assumes "list_all piece_ok ps" "length tmpbuf = 12"
  shows "chprintf tmpbuf (concat (map spelling ps) @ [0]) (arguments ps) out =
    Some (out @ concat (map meaning ps))"
  using assms(1)
proof (induction ps arbitrary: out)
  case (Cons p ps)
  show ?case
  proof (cases p)
    case (Lit c)
    then show ?thesis
      using Cons.IH [of "out @ [c]"] Cons.prems
      by (cases "c = 37") (simp_all add: chprintf_percent del: chprintf.simps(2),
        simp_all)
  next
    case (Item left zero w i)
    then show ?thesis
      using Cons.IH [of "out @ meaning p"] Cons.prems
        chprintf_item [OF _ assms(2), of left zero w i "concat (map spelling ps) @ [0]" "arguments ps" out]
      by (simp del: chprintf.simps(2) spelling.simps meaning.simps)
  qed
qed simp

theorem chprintf_prints_witness:
  "chprintf (replicate 12 0) (concat (map spelling
      [Lit 120, Item False True 6 (Signed (- 42)), Lit 37, Item True False 3 (Text [97])]) @ [0])
    [Num (- 42), Ptr (Some [97, 0])] [] =
    Some [120, 45, 48, 48, 48, 52, 50, 37, 97, 32, 32]"
proof -
  have d: "digits 10 42 = [52, 50]"
    by (subst digits.simps, simp, subst digits.simps) (simp add: digit_of_def)
  have r: "replicate 3 v = [v, v, v]" "replicate 2 v = [v, v]" for v :: u8
    by (simp_all add: eval_nat_numeral)
  show ?thesis
    using chprintf_prints [of "[Lit 120, Item False True 6 (Signed (- 42)), Lit 37,
        Item True False 3 (Text [97])]" "replicate 12 0" "[]"]
    by (simp add: int_max_def padded_def d r del: spelling.simps)
qed

text \<open>The function \<open>ltoa\<close> writes a numeral that reads back as the number: at the start of the buffer or
  behind a sign, in base 8, 10 or 16, for every 32-bit number, at most eleven digits, which fit
  the buffer together with the sign, and the first one is not zero unless the number is.\<close>

theorem ltoa_roundtrip:
  assumes "r \<in> {8, 10, 16}" "p \<le> 1" "length buf = 12"
  shows "\<exists>tx buf'. ltoa (int p) num r buf = Some (int (p + length tx), buf') \<and>
    take (p + length tx) buf' = take p buf @ tx \<and> length tx \<le> 11 \<and>
    numeral_value (unat r) tx = unat num \<and> (num \<noteq> 0 \<longrightarrow> hd tx \<noteq> 48)"
proof -
  let ?D = "digits (unat r) (unat num)"
  obtain buf' where b: "ltoa (int p) num r buf = Some (int (p + length ?D), buf')"
    "take (p + length ?D) buf' = take p buf @ ?D"
    using ltoa_u32 [OF assms] by blast
  have r: "2 \<le> unat r" "8 \<le> unat r" "unat r \<le> 16" using assms(1) by auto
  have "hd ?D \<noteq> 48" if n0: "num \<noteq> 0"
  proof -
    have "0 < unat num" using n0 unat_gt_0 [of num] by blast
    then obtain d where "d < unat r" "0 < d" "hd ?D = digit_of d"
      using digits_head [OF r(1)] by blast
    moreover have "digit_val (48 :: u8) = 0" by (simp add: digit_val_def)
    ultimately show ?thesis using digit_val_of [of d] r by auto
  qed
  then show ?thesis
    using b digits_value [OF r(1) r(3)] u32_digits_length [OF r(2), of num] by blast
qed

theorem ltoa_roundtrip_witness:
  "\<exists>tx buf'. ltoa 1 4294967295 8 (replicate 12 45) = Some (1 + int (length tx), buf') \<and>
    take (1 + length tx) buf' = 45 # tx \<and> length tx \<le> 11 \<and>
    numeral_value 8 tx = 4294967295 \<and> hd tx \<noteq> 48"
proof -
  have "take 1 (replicate 12 (45 :: u8)) = [45]" by (simp add: eval_nat_numeral)
  then show ?thesis
    using ltoa_roundtrip [of 8 1 "replicate 12 45" 4294967295] by simp
qed

end
