(* ===== verification/ScriptLexer.thy ===== *)
theory ScriptLexer
  imports WordFacts "HOL-Library.Char_ord" "HOL-Library.Sublist"
begin

text \<open>
  The lexer of the script interpreter, \<open>CScriptLex\<close> of \<open>tinyjs/TinyJS.cpp\<close>, with the character
  classes and the string quoting around it.  A lexer is a record with the fields of the class; a
  \<open>char\<close> is a byte read as an unsigned number, and the terminating zero is \<open>CHR 0x00\<close>.  The input
  \<open>data\<close> holds the bytes of the C string without its terminator; an index behind \<open>dataEnd\<close> reads
  as zero, as the code has it.
\<close>

section \<open>Character classes and quoting\<close>

definition isWhitespace :: "char \<Rightarrow> bool" where
  "isWhitespace ch \<longleftrightarrow> ch = CHR '' '' \<or> ch = CHR 0x09 \<or> ch = CHR 0x0A \<or> ch = CHR 0x0D"

definition isNumeric :: "char \<Rightarrow> bool" where
  "isNumeric ch \<longleftrightarrow> ch \<ge> CHR ''0'' \<and> ch \<le> CHR ''9''"

fun isNumber :: "string \<Rightarrow> bool" where
  "isNumber [] = True"
| "isNumber (c # str) = (if \<not> isNumeric c then False else isNumber str)"

definition isHexadecimal :: "char \<Rightarrow> bool" where
  "isHexadecimal ch \<longleftrightarrow>
     (ch \<ge> CHR ''0'' \<and> ch \<le> CHR ''9'') \<or> (ch \<ge> CHR ''a'' \<and> ch \<le> CHR ''f'') \<or>
     (ch \<ge> CHR ''A'' \<and> ch \<le> CHR ''F'')"

definition isAlpha :: "char \<Rightarrow> bool" where
  "isAlpha ch \<longleftrightarrow>
     (ch \<ge> CHR ''a'' \<and> ch \<le> CHR ''z'') \<or> (ch \<ge> CHR ''A'' \<and> ch \<le> CHR ''Z'') \<or> ch = CHR ''_''"

fun all_id_chars :: "string \<Rightarrow> bool" where
  "all_id_chars [] = True"
| "all_id_chars (c # s) = (if \<not> (isAlpha c \<or> isNumeric c) then False else all_id_chars s)"

definition isIDString :: "string \<Rightarrow> bool" where
  "isIDString s =
     (case s of [] \<Rightarrow> False | c # _ \<Rightarrow> if \<not> isAlpha c then False else all_id_chars s)"

definition isAlphaNum :: "string \<Rightarrow> bool" where
  "isAlphaNum str =
     (case str of [] \<Rightarrow> True | c # _ \<Rightarrow> if \<not> isAlpha c then False else all_id_chars str)"

definition hex_char :: "nat \<Rightarrow> char" where
  "hex_char d = char_of (if d < 10 then 48 + d else 55 + d)"

text \<open>
  The replacement of a character.  The source keeps the text of an unprintable one in an array of
  an inner block and reads it after the block has ended; the model takes the text written there.
\<close>

definition js_escape :: "char \<Rightarrow> string option" where
  "js_escape c =
     (if c = CHR 0x5C then Some [CHR 0x5C, CHR 0x5C]
      else if c = CHR 0x0A then Some [CHR 0x5C, CHR ''n'']
      else if c = CHR 0x0D then Some [CHR 0x5C, CHR ''r'']
      else if c = CHR 0x07 then Some [CHR 0x5C, CHR ''a'']
      else if c = CHR 0x22 then Some [CHR 0x5C, CHR 0x22]
      else
        let nCh = of_char c :: nat
        in if nCh < 32 \<or> nCh > 127 then
             Some [CHR 0x5C, CHR ''x'', hex_char (nCh div 16), hex_char (nCh mod 16)]
           else None)"

fun js_loop :: "string \<Rightarrow> string \<Rightarrow> string" where
  "js_loop pre [] = pre"
| "js_loop pre (c # post) =
     (case js_escape c of
        Some r \<Rightarrow> js_loop (pre @ r) post
      | None \<Rightarrow> js_loop (pre @ [c]) post)"

definition getJSString :: "string \<Rightarrow> string" where
  "getJSString str = CHR 0x22 # js_loop [] str @ [CHR 0x22]"

section \<open>Tokens\<close>

datatype lex_types =
    LEX_EOF | LEX_ID | LEX_INT | LEX_FLOAT | LEX_STR
  | LEX_EQUAL | LEX_TYPEEQUAL | LEX_NEQUAL | LEX_NTYPEEQUAL
  | LEX_LEQUAL | LEX_LSHIFT | LEX_LSHIFTEQUAL
  | LEX_GEQUAL | LEX_RSHIFT | LEX_RSHIFTUNSIGNED | LEX_RSHIFTEQUAL
  | LEX_PLUSEQUAL | LEX_MINUSEQUAL | LEX_PLUSPLUS | LEX_MINUSMINUS
  | LEX_ANDEQUAL | LEX_ANDAND | LEX_OREQUAL | LEX_OROR | LEX_XOREQUAL
  | LEX_R_IF | LEX_R_ELSE | LEX_R_DO | LEX_R_WHILE | LEX_R_FOR
  | LEX_R_BREAK | LEX_R_CONTINUE | LEX_R_FUNCTION | LEX_R_RETURN | LEX_R_VAR
  | LEX_R_TRUE | LEX_R_FALSE | LEX_R_NULL | LEX_R_UNDEFINED | LEX_R_NEW

datatype token = Lex lex_types | Ch char

definition char_token :: "char \<Rightarrow> token" where
  "char_token c = (if c = CHR 0x00 then Lex LEX_EOF else Ch c)"

fun decimal :: "nat \<Rightarrow> string" where
  "decimal n =
     (if n < 10 then [char_of (48 + n)] else decimal (n div 10) @ [char_of (48 + n mod 10)])"

fun lex_type_str :: "lex_types \<Rightarrow> string" where
  "lex_type_str LEX_EOF = ''EOF''"
| "lex_type_str LEX_ID = ''ID''"
| "lex_type_str LEX_INT = ''INT''"
| "lex_type_str LEX_FLOAT = ''FLOAT''"
| "lex_type_str LEX_STR = ''STRING''"
| "lex_type_str LEX_EQUAL = ''==''"
| "lex_type_str LEX_TYPEEQUAL = ''===''"
| "lex_type_str LEX_NEQUAL = ''!=''"
| "lex_type_str LEX_NTYPEEQUAL = ''!==''"
| "lex_type_str LEX_LEQUAL = ''<=''"
| "lex_type_str LEX_LSHIFT = ''<<''"
| "lex_type_str LEX_LSHIFTEQUAL = ''<<=''"
| "lex_type_str LEX_GEQUAL = ''>=''"
| "lex_type_str LEX_RSHIFT = ''>>''"
| "lex_type_str LEX_RSHIFTUNSIGNED = ''>>''"
| "lex_type_str LEX_RSHIFTEQUAL = ''>>=''"
| "lex_type_str LEX_PLUSEQUAL = ''+=''"
| "lex_type_str LEX_MINUSEQUAL = ''-=''"
| "lex_type_str LEX_PLUSPLUS = ''++''"
| "lex_type_str LEX_MINUSMINUS = ''--''"
| "lex_type_str LEX_ANDEQUAL = ''&=''"
| "lex_type_str LEX_ANDAND = ''&&''"
| "lex_type_str LEX_OREQUAL = ''|=''"
| "lex_type_str LEX_OROR = ''||''"
| "lex_type_str LEX_XOREQUAL = ''^=''"
| "lex_type_str LEX_R_IF = ''if''"
| "lex_type_str LEX_R_ELSE = ''else''"
| "lex_type_str LEX_R_DO = ''do''"
| "lex_type_str LEX_R_WHILE = ''while''"
| "lex_type_str LEX_R_FOR = ''for''"
| "lex_type_str LEX_R_BREAK = ''break''"
| "lex_type_str LEX_R_CONTINUE = ''continue''"
| "lex_type_str LEX_R_FUNCTION = ''function''"
| "lex_type_str LEX_R_RETURN = ''return''"
| "lex_type_str LEX_R_VAR = ''var''"
| "lex_type_str LEX_R_TRUE = ''true''"
| "lex_type_str LEX_R_FALSE = ''false''"
| "lex_type_str LEX_R_NULL = ''null''"
| "lex_type_str LEX_R_UNDEFINED = ''undefined''"
| "lex_type_str LEX_R_NEW = ''new''"

fun getTokenStr :: "token \<Rightarrow> string" where
  "getTokenStr (Ch c) =
     (let n = of_char c :: nat
      in if n > 32 \<and> n < 128 then [CHR 0x27, c, CHR 0x27] else ''?['' @ decimal n @ '']'')"
| "getTokenStr (Lex t) = lex_type_str t"

section \<open>The lexer\<close>

record lexer =
  data :: string
  dataStart :: int
  dataEnd :: int
  dataPos :: int
  currCh :: char
  nextCh :: char
  tk :: token
  tokenStart :: int
  tokenEnd :: int
  tokenLastEnd :: int
  tkStr :: string

definition getNextCh :: "lexer \<Rightarrow> lexer" where
  "getNextCh lx =
     lx\<lparr>currCh := nextCh lx,
        nextCh := (if dataPos lx < dataEnd lx then data lx ! nat (dataPos lx) else CHR 0x00),
        dataPos := dataPos lx + 1\<rparr>"

definition keep :: "lexer \<Rightarrow> lexer" where
  "keep lx = lx\<lparr>tkStr := tkStr lx @ [currCh lx]\<rparr>"

definition lex_left :: "lexer \<Rightarrow> nat" where
  "lex_left lx = 3 * nat (dataEnd lx - dataPos lx) +
     (if nextCh lx \<noteq> CHR 0x00 then 2 else 0) + (if currCh lx \<noteq> CHR 0x00 then 1 else 0)"

lemma lex_left_next: "currCh lx \<noteq> CHR 0x00 \<Longrightarrow> lex_left (getNextCh lx) < lex_left lx"
  by (auto simp: lex_left_def getNextCh_def)

lemma lex_left_le: "lex_left (getNextCh lx) \<le> lex_left lx"
  by (auto simp: lex_left_def getNextCh_def)

lemma lex_left_keep [simp]: "lex_left (keep lx) = lex_left lx"
  by (simp add: lex_left_def keep_def)

lemma currCh_keep [simp]: "currCh (keep lx) = currCh lx"
  by (simp add: keep_def)

function skip_loop :: "(char \<Rightarrow> char \<Rightarrow> bool) \<Rightarrow> lexer \<Rightarrow> lexer" where
  "skip_loop p lx =
     (if currCh lx \<noteq> CHR 0x00 \<and> p (currCh lx) (nextCh lx) then skip_loop p (getNextCh lx) else lx)"
  by pat_completeness auto
termination
  by (relation "measure (\<lambda>(p, lx). lex_left lx)") (auto intro: lex_left_next)

function keep_loop :: "(char \<Rightarrow> bool) \<Rightarrow> lexer \<Rightarrow> lexer" where
  "keep_loop p lx =
     (if currCh lx \<noteq> CHR 0x00 \<and> p (currCh lx) then keep_loop p (getNextCh (keep lx)) else lx)"
  by pat_completeness auto
termination
  by (relation "measure (\<lambda>(p, lx). lex_left lx)")
    (use lex_left_next [of "keep _"] in auto)

declare skip_loop.simps [simp del] keep_loop.simps [simp del]

definition keyword :: "string \<Rightarrow> lex_types" where
  "keyword s =
     (if s = ''if'' then LEX_R_IF
      else if s = ''else'' then LEX_R_ELSE
      else if s = ''do'' then LEX_R_DO
      else if s = ''while'' then LEX_R_WHILE
      else if s = ''for'' then LEX_R_FOR
      else if s = ''break'' then LEX_R_BREAK
      else if s = ''continue'' then LEX_R_CONTINUE
      else if s = ''function'' then LEX_R_FUNCTION
      else if s = ''return'' then LEX_R_RETURN
      else if s = ''var'' then LEX_R_VAR
      else if s = ''true'' then LEX_R_TRUE
      else if s = ''false'' then LEX_R_FALSE
      else if s = ''null'' then LEX_R_NULL
      else if s = ''undefined'' then LEX_R_UNDEFINED
      else if s = ''new'' then LEX_R_NEW
      else LEX_ID)"

definition scan_id :: "lexer \<Rightarrow> lexer" where
  "scan_id lx =
     (let lx = keep_loop (\<lambda>c. isAlpha c \<or> isNumeric c) lx
      in lx\<lparr>tk := Lex (keyword (tkStr lx))\<rparr>)"

definition scan_exponent :: "lexer \<Rightarrow> lexer" where
  "scan_exponent lx =
     (let lx = getNextCh (keep (lx\<lparr>tk := Lex LEX_FLOAT\<rparr>));
          lx = (if currCh lx = CHR ''-'' then getNextCh (keep lx) else lx)
      in keep_loop isNumeric lx)"

definition scan_number :: "lexer \<Rightarrow> lexer" where
  "scan_number lx =
     (let lx = (if currCh lx = CHR ''0'' then getNextCh (keep lx) else lx);
          isHex = (currCh lx = CHR ''x'');
          lx = (if isHex then getNextCh (keep lx) else lx);
          lx = keep_loop (\<lambda>c. isNumeric c \<or> (isHex \<and> isHexadecimal c)) (lx\<lparr>tk := Lex LEX_INT\<rparr>);
          lx = (if \<not> isHex \<and> currCh lx = CHR ''.'' then
                  keep_loop isNumeric (getNextCh (lx\<lparr>tk := Lex LEX_FLOAT, tkStr := tkStr lx @ ''.''\<rparr>))
                else lx)
      in if \<not> isHex \<and> (currCh lx = CHR ''e'' \<or> currCh lx = CHR ''E'') then scan_exponent lx else lx)"

definition dstring_char :: "lexer \<Rightarrow> lexer" where
  "dstring_char lx =
     (if currCh lx = CHR 0x5C then
        let lx = getNextCh lx; c = currCh lx
        in lx\<lparr>tkStr := tkStr lx @ [if c = CHR ''n'' then CHR 0x0A else c]\<rparr>
      else keep lx)"

definition digit_value :: "char \<Rightarrow> nat option" where
  "digit_value c =
     (if isNumeric c then Some (of_char c - 48)
      else if c \<ge> CHR ''a'' \<and> c \<le> CHR ''z'' then Some (of_char c - 87)
      else if c \<ge> CHR ''A'' \<and> c \<le> CHR ''Z'' then Some (of_char c - 55)
      else None)"

fun strtol_digits :: "nat \<Rightarrow> int \<Rightarrow> string \<Rightarrow> int" where
  "strtol_digits base acc [] = acc"
| "strtol_digits base acc (c # s) =
     (case digit_value c of
        Some d \<Rightarrow> if d < base then strtol_digits base (acc * int base + int d) s else acc
      | None \<Rightarrow> acc)"

definition strtol_unsigned :: "nat \<Rightarrow> string \<Rightarrow> int" where
  "strtol_unsigned base s =
     (case s of
        z # x # h # r \<Rightarrow>
          strtol_digits base 0
            (if base = 16 \<and> z = CHR ''0'' \<and> x \<in> {CHR ''x'', CHR ''X''} \<and> isHexadecimal h then h # r
             else s)
      | _ \<Rightarrow> strtol_digits base 0 s)"

definition strtol :: "string \<Rightarrow> nat \<Rightarrow> int" where
  "strtol s base =
     (let s = dropWhile (\<lambda>c. c \<in> {CHR '' '', CHR 0x09, CHR 0x0A, CHR 0x0B, CHR 0x0C, CHR 0x0D}) s
      in case s of
           [] \<Rightarrow> 0
         | c # r \<Rightarrow>
             if c = CHR ''-'' then - strtol_unsigned base r
             else if c = CHR ''+'' then strtol_unsigned base r
             else strtol_unsigned base s)"

definition char_cast :: "int \<Rightarrow> char" where
  "char_cast n = char_of (nat (n mod 256))"

definition add_char :: "char \<Rightarrow> lexer \<Rightarrow> lexer" where
  "add_char c lx = lx\<lparr>tkStr := tkStr lx @ [c]\<rparr>"

definition hex_escape :: "lexer \<Rightarrow> lexer" where
  "hex_escape lx =
     (let lx = getNextCh lx; b0 = currCh lx;
          lx = getNextCh lx; b1 = currCh lx
      in add_char (char_cast (strtol [b0, b1] 16)) lx)"

definition octal_escape :: "lexer \<Rightarrow> lexer" where
  "octal_escape lx =
     (let b0 = currCh lx;
          lx = getNextCh lx; b1 = currCh lx;
          lx = getNextCh lx; b2 = currCh lx
      in add_char (char_cast (strtol [b0, b1, b2] 8)) lx)"

definition sstring_char :: "lexer \<Rightarrow> lexer" where
  "sstring_char lx =
     (if currCh lx = CHR 0x5C then
        let lx = getNextCh lx; c = currCh lx
        in if c = CHR ''n'' then add_char (CHR 0x0A) lx
           else if c = CHR ''a'' then add_char (CHR 0x07) lx
           else if c = CHR ''r'' then add_char (CHR 0x0D) lx
           else if c = CHR ''t'' then add_char (CHR 0x09) lx
           else if c = CHR 0x27 then add_char (CHR 0x27) lx
           else if c = CHR 0x5C then add_char (CHR 0x5C) lx
           else if c = CHR ''x'' then hex_escape lx
           else if c \<ge> CHR ''0'' \<and> c \<le> CHR ''7'' then octal_escape lx
           else add_char c lx
      else keep lx)"

lemma lex_left_add [simp]: "lex_left (add_char c lx) = lex_left lx"
  by (simp add: lex_left_def add_char_def)

lemma lex_left_tkStr [simp]: "lex_left (lx\<lparr>tkStr := t\<rparr>) = lex_left lx" "lex_left (lx\<lparr>tk := k\<rparr>) = lex_left lx"
  "lex_left (lx\<lparr>tokenStart := i\<rparr>) = lex_left lx" "lex_left (lx\<lparr>tokenEnd := i\<rparr>) = lex_left lx"
  "lex_left (lx\<lparr>tokenLastEnd := i\<rparr>) = lex_left lx"
  by (simp_all add: lex_left_def)

lemma lex_left_le2: "lex_left lx \<le> n \<Longrightarrow> lex_left (getNextCh lx) \<le> n"
  using lex_left_le [of lx] by simp

lemma lex_left_less2: "lex_left lx < n \<Longrightarrow> lex_left (getNextCh lx) < n"
  using lex_left_le [of lx] by simp

lemma dstring_char_left:
  "currCh lx \<noteq> CHR 0x00 \<Longrightarrow> lex_left (getNextCh (dstring_char lx)) < lex_left lx"
  using lex_left_next [of "keep lx"] lex_left_next [of lx]
  by (auto simp: dstring_char_def Let_def intro: lex_left_less2)

lemma sstring_char_left:
  "currCh lx \<noteq> CHR 0x00 \<Longrightarrow> lex_left (getNextCh (sstring_char lx)) < lex_left lx"
  using lex_left_next [of "keep lx"] lex_left_next [of lx]
  by (auto simp: sstring_char_def hex_escape_def octal_escape_def Let_def intro!: lex_left_less2)

function dstring_loop :: "lexer \<Rightarrow> lexer" where
  "dstring_loop lx =
     (if currCh lx \<noteq> CHR 0x00 \<and> currCh lx \<noteq> CHR 0x22 then
        dstring_loop (getNextCh (dstring_char lx))
      else lx)"
  by pat_completeness auto
termination
  by (relation "measure lex_left") (auto intro: dstring_char_left)

function sstring_loop :: "lexer \<Rightarrow> lexer" where
  "sstring_loop lx =
     (if currCh lx \<noteq> CHR 0x00 \<and> currCh lx \<noteq> CHR 0x27 then
        sstring_loop (getNextCh (sstring_char lx))
      else lx)"
  by pat_completeness auto
termination
  by (relation "measure lex_left") (auto intro: sstring_char_left)

declare dstring_loop.simps [simp del] sstring_loop.simps [simp del]

definition scan_dstring :: "lexer \<Rightarrow> lexer" where
  "scan_dstring lx = (getNextCh (dstring_loop (getNextCh lx)))\<lparr>tk := Lex LEX_STR\<rparr>"

definition scan_sstring :: "lexer \<Rightarrow> lexer" where
  "scan_sstring lx = (getNextCh (sstring_loop (getNextCh lx)))\<lparr>tk := Lex LEX_STR\<rparr>"

definition take_op :: "lex_types \<Rightarrow> lexer \<Rightarrow> lexer" where
  "take_op t lx = getNextCh (lx\<lparr>tk := Lex t\<rparr>)"

definition scan_op :: "lexer \<Rightarrow> lexer" where
  "scan_op lx =
     (let t = currCh lx;
          lx = lx\<lparr>tk := char_token t\<rparr>;
          lx = (if t \<noteq> CHR 0x00 then getNextCh lx else lx);
          c = currCh lx
      in if t = CHR ''='' \<and> c = CHR ''='' then
           let lx = take_op LEX_EQUAL lx
           in if currCh lx = CHR ''='' then take_op LEX_TYPEEQUAL lx else lx
         else if t = CHR ''!'' \<and> c = CHR ''='' then
           let lx = take_op LEX_NEQUAL lx
           in if currCh lx = CHR ''='' then take_op LEX_NTYPEEQUAL lx else lx
         else if t = CHR ''<'' \<and> c = CHR ''='' then take_op LEX_LEQUAL lx
         else if t = CHR ''<'' \<and> c = CHR ''<'' then
           let lx = take_op LEX_LSHIFT lx
           in if currCh lx = CHR ''='' then take_op LEX_LSHIFTEQUAL lx else lx
         else if t = CHR ''>'' \<and> c = CHR ''='' then take_op LEX_GEQUAL lx
         else if t = CHR ''>'' \<and> c = CHR ''>'' then
           let lx = take_op LEX_RSHIFT lx
           in if currCh lx = CHR ''='' then take_op LEX_RSHIFTEQUAL lx
              else if currCh lx = CHR ''>'' then take_op LEX_RSHIFTUNSIGNED lx
              else lx
         else if t = CHR ''+'' \<and> c = CHR ''='' then take_op LEX_PLUSEQUAL lx
         else if t = CHR ''-'' \<and> c = CHR ''='' then take_op LEX_MINUSEQUAL lx
         else if t = CHR ''+'' \<and> c = CHR ''+'' then take_op LEX_PLUSPLUS lx
         else if t = CHR ''-'' \<and> c = CHR ''-'' then take_op LEX_MINUSMINUS lx
         else if t = CHR ''&'' \<and> c = CHR ''='' then take_op LEX_ANDEQUAL lx
         else if t = CHR ''&'' \<and> c = CHR ''&'' then take_op LEX_ANDAND lx
         else if t = CHR ''|'' \<and> c = CHR ''='' then take_op LEX_OREQUAL lx
         else if t = CHR ''|'' \<and> c = CHR ''|'' then take_op LEX_OROR lx
         else if t = CHR ''^'' \<and> c = CHR ''='' then take_op LEX_XOREQUAL lx
         else lx)"

definition scan_token :: "lexer \<Rightarrow> lexer" where
  "scan_token lx =
     (if isAlpha (currCh lx) then scan_id lx
      else if isNumeric (currCh lx) then scan_number lx
      else if currCh lx = CHR 0x22 then scan_dstring lx
      else if currCh lx = CHR 0x27 then scan_sstring lx
      else scan_op lx)"

definition skip_whitespace :: "lexer \<Rightarrow> lexer" where
  "skip_whitespace lx = skip_loop (\<lambda>c n. isWhitespace c) (lx\<lparr>tk := Lex LEX_EOF, tkStr := []\<rparr>)"

definition skip_line :: "lexer \<Rightarrow> lexer" where
  "skip_line lx = getNextCh (skip_loop (\<lambda>c n. c \<noteq> CHR 0x0A) lx)"

definition skip_block :: "lexer \<Rightarrow> lexer" where
  "skip_block lx =
     getNextCh (getNextCh (skip_loop (\<lambda>c n. c \<noteq> CHR ''*'' \<or> n \<noteq> CHR ''/'') lx))"

lemma skip_loop_left: "lex_left (skip_loop p lx) \<le> lex_left lx"
proof (induction p lx rule: skip_loop.induct)
  case (1 p lx)
  show ?case
    using 1 lex_left_le [of lx] by (subst skip_loop.simps) auto
qed

lemma skip_loop_less:
  assumes "currCh lx \<noteq> CHR 0x00" "p (currCh lx) (nextCh lx)"
  shows "lex_left (skip_loop p lx) < lex_left lx"
  using assms skip_loop_left [of p "getNextCh lx"] lex_left_next [of lx]
  by (subst skip_loop.simps) simp

function getNextToken :: "lexer \<Rightarrow> lexer" where
  "getNextToken lx0 =
     (let lx = skip_whitespace lx0
      in if currCh lx = CHR ''/'' \<and> nextCh lx = CHR ''/'' then getNextToken (skip_line lx)
         else if currCh lx = CHR ''/'' \<and> nextCh lx = CHR ''*'' then getNextToken (skip_block lx)
         else
           let lx = scan_token (lx\<lparr>tokenStart := dataPos lx - 2\<rparr>)
           in lx\<lparr>tokenLastEnd := tokenEnd lx, tokenEnd := dataPos lx - 3\<rparr>)"
  by pat_completeness auto
termination
proof (relation "measure lex_left", goal_cases)
  case (2 lx0 lx)
  have "lex_left lx \<le> lex_left lx0"
    unfolding 2(1) skip_whitespace_def by (rule order_trans [OF skip_loop_left]) simp
  then show ?case
    using 2 skip_loop_less [of lx "\<lambda>c n. c \<noteq> CHR 0x0A"]
    by (simp add: skip_line_def) (meson lex_left_less2 less_le_trans)
next
  case (3 lx0 lx)
  have "lex_left lx \<le> lex_left lx0"
    unfolding 3(1) skip_whitespace_def by (rule order_trans [OF skip_loop_left]) simp
  then show ?case
    using 3 skip_loop_less [of lx "\<lambda>c n. c \<noteq> CHR ''*'' \<or> n \<noteq> CHR ''/''"]
    by (simp add: skip_block_def) (meson lex_left_less2 less_le_trans)
qed simp

declare getNextToken.simps [simp del]

definition reset :: "lexer \<Rightarrow> lexer" where
  "reset lx =
     getNextToken (getNextCh (getNextCh
       (lx\<lparr>dataPos := dataStart lx, tokenStart := 0, tokenEnd := 0, tokenLastEnd := 0,
           tk := Lex LEX_EOF, tkStr := []\<rparr>)))"

definition new_lexer :: "char \<Rightarrow> char \<Rightarrow> string \<Rightarrow> int \<Rightarrow> int \<Rightarrow> lexer" where
  "new_lexer c0 n0 d st en =
     reset \<lparr>data = d, dataStart = st, dataEnd = en, dataPos = 0, currCh = c0, nextCh = n0,
       tk = Lex LEX_EOF, tokenStart = 0, tokenEnd = 0, tokenLastEnd = 0, tkStr = []\<rparr>"

definition CScriptLex :: "char \<Rightarrow> char \<Rightarrow> string \<Rightarrow> lexer" where
  "CScriptLex c0 n0 input =
     (let d = takeWhile (\<lambda>c. c \<noteq> CHR 0x00) input in new_lexer c0 n0 d 0 (int (length d)))"

definition CScriptLex_sub :: "char \<Rightarrow> char \<Rightarrow> lexer \<Rightarrow> int \<Rightarrow> int \<Rightarrow> lexer" where
  "CScriptLex_sub c0 n0 owner startChar endChar = new_lexer c0 n0 (data owner) startChar endChar"

definition getSubString :: "lexer \<Rightarrow> int \<Rightarrow> string" where
  "getSubString lx lastPosition =
     (let lastCharIdx = tokenLastEnd lx + 1
      in takeWhile (\<lambda>c. c \<noteq> CHR 0x00)
           (drop (nat lastPosition)
             (if lastCharIdx < dataEnd lx then (data lx)[nat lastCharIdx := CHR 0x00] else data lx)))"

definition getSubLex :: "char \<Rightarrow> char \<Rightarrow> lexer \<Rightarrow> int \<Rightarrow> lexer" where
  "getSubLex c0 n0 lx lastPosition =
     (let lastCharIdx = tokenLastEnd lx + 1
      in if lastCharIdx < dataEnd lx then CScriptLex_sub c0 n0 lx lastPosition lastCharIdx
         else CScriptLex_sub c0 n0 lx lastPosition (dataEnd lx))"

fun position_loop :: "lexer \<Rightarrow> nat \<Rightarrow> nat \<Rightarrow> int \<times> int \<Rightarrow> int \<times> int" where
  "position_loop lx i 0 (line, col) = (line, col)"
| "position_loop lx i (Suc n) (line, col) =
     (let ch = (if int i < dataEnd lx then data lx ! i else CHR 0x00)
      in position_loop lx (Suc i) n (if ch = CHR 0x0A then (line + 1, 0) else (line, col + 1)))"

definition position :: "lexer \<Rightarrow> int \<Rightarrow> int \<times> int" where
  "position lx pos =
     (let pos = (if pos < 0 then tokenLastEnd lx else pos) in position_loop lx 0 (nat pos) (1, 1))"

definition getPosition :: "lexer \<Rightarrow> int \<Rightarrow> string" where
  "getPosition lx pos =
     (let (line, col) = position lx pos
      in ''(line: '' @ decimal (nat line) @ '', col: '' @ decimal (nat col) @ '')'')"

definition match :: "lexer \<Rightarrow> token \<Rightarrow> string + lexer" where
  "match lx expected_tk =
     (if tk lx \<noteq> expected_tk then
        Inl (''Got '' @ getTokenStr (tk lx) @ '' expected '' @ getTokenStr expected_tk @ '' at '' @
          getPosition lx (tokenStart lx))
      else Inr (getNextToken lx))"

section \<open>The input that is left\<close>

definition ch_at :: "lexer \<Rightarrow> int \<Rightarrow> char" where
  "ch_at lx i = (if i < dataEnd lx then data lx ! nat i else CHR 0x00)"

definition ahead :: "lexer \<Rightarrow> string" where
  "ahead lx = drop (nat (dataPos lx - 2)) (take (nat (dataEnd lx)) (data lx))"

definition lex_ok :: "lexer \<Rightarrow> bool" where
  "lex_ok lx \<longleftrightarrow> 2 \<le> dataPos lx \<and> 0 \<le> dataEnd lx \<and> dataEnd lx \<le> int (length (data lx)) \<and>
     CHR 0x00 \<notin> set (data lx) \<and>
     currCh lx = ch_at lx (dataPos lx - 2) \<and> nextCh lx = ch_at lx (dataPos lx - 1)"

definition frame :: "lexer \<Rightarrow> lexer \<Rightarrow> bool" where
  "frame lx lx' \<longleftrightarrow> data lx' = data lx \<and> dataStart lx' = dataStart lx \<and> dataEnd lx' = dataEnd lx \<and>
     tokenStart lx' = tokenStart lx \<and> tokenEnd lx' = tokenEnd lx \<and>
     tokenLastEnd lx' = tokenLastEnd lx"

definition on :: "lexer \<Rightarrow> lexer \<Rightarrow> bool" where
  "on lx lx' \<longleftrightarrow> frame lx lx' \<and> (lex_ok lx \<longrightarrow> lex_ok lx' \<and> suffix (ahead lx') (ahead lx))"

lemma lex_ok_updates [simp]:
  "lex_ok (lx\<lparr>tkStr := t\<rparr>) = lex_ok lx" "lex_ok (lx\<lparr>tk := k\<rparr>) = lex_ok lx"
  "lex_ok (lx\<lparr>tokenStart := i\<rparr>) = lex_ok lx" "lex_ok (lx\<lparr>tokenEnd := i\<rparr>) = lex_ok lx"
  "lex_ok (lx\<lparr>tokenLastEnd := i\<rparr>) = lex_ok lx"
  by (simp_all add: lex_ok_def ch_at_def)

lemma ahead_updates [simp]:
  "ahead (lx\<lparr>tkStr := t\<rparr>) = ahead lx" "ahead (lx\<lparr>tk := k\<rparr>) = ahead lx"
  "ahead (lx\<lparr>tokenStart := i\<rparr>) = ahead lx" "ahead (lx\<lparr>tokenEnd := i\<rparr>) = ahead lx"
  "ahead (lx\<lparr>tokenLastEnd := i\<rparr>) = ahead lx"
  by (simp_all add: ahead_def)

lemma ahead_unfold:
  assumes "lex_ok lx"
  shows "ahead lx = (if dataPos lx - 2 < dataEnd lx then
      ch_at lx (dataPos lx - 2) # drop (nat (dataPos lx - 1)) (take (nat (dataEnd lx)) (data lx))
    else [])"
proof (cases "dataPos lx - 2 < dataEnd lx")
  case True
  have "2 \<le> dataPos lx" using assms by (simp add: lex_ok_def)
  then have e: "nat (dataPos lx - 1) = Suc (nat (dataPos lx - 2))" by arith
  have "nat (dataPos lx - 2) < length (take (nat (dataEnd lx)) (data lx))"
    using assms True by (simp add: lex_ok_def) linarith
  then show ?thesis
    using True Cons_nth_drop_Suc [of "nat (dataPos lx - 2)" "take (nat (dataEnd lx)) (data lx)"]
    by (simp add: ahead_def e ch_at_def)
next
  case False
  then show ?thesis by (simp add: ahead_def)
qed

lemma ch_at_zero: "lex_ok lx \<Longrightarrow> 0 \<le> i \<Longrightarrow> ch_at lx i = CHR 0x00 \<longleftrightarrow> dataEnd lx \<le> i"
  unfolding lex_ok_def ch_at_def by (auto simp: not_less) (metis nth_mem nat_less_iff less_le_trans of_nat_less_iff int_nat_eq)

lemma currCh_ahead: "lex_ok lx \<Longrightarrow> currCh lx = (case ahead lx of [] \<Rightarrow> CHR 0x00 | c # _ \<Rightarrow> c)"
  using ahead_unfold [of lx] by (simp add: lex_ok_def ch_at_def)

lemma ahead_empty: "lex_ok lx \<Longrightarrow> ahead lx = [] \<longleftrightarrow> currCh lx = CHR 0x00"
  using ahead_unfold [of lx] ch_at_zero [of lx "dataPos lx - 2"] by (auto simp: lex_ok_def)

lemma getNextCh_ok: "lex_ok lx \<Longrightarrow> lex_ok (getNextCh lx)"
  by (auto simp: lex_ok_def getNextCh_def ch_at_def)

lemma getNextCh_ahead: "lex_ok lx \<Longrightarrow> ahead (getNextCh lx) = tl (ahead lx)"
  using ahead_unfold [of lx] by (auto simp: ahead_def getNextCh_def)

lemma nextCh_ahead: "lex_ok lx \<Longrightarrow> nextCh lx = (case tl (ahead lx) of [] \<Rightarrow> CHR 0x00 | c # _ \<Rightarrow> c)"
  using currCh_ahead [OF getNextCh_ok] getNextCh_ahead by (simp add: getNextCh_def)

lemma frame_next [simp]: "frame lx (getNextCh lx)" "frame lx (keep lx)" "frame lx (lx\<lparr>tk := k\<rparr>)"
  "frame lx (lx\<lparr>tkStr := t\<rparr>)" "frame lx (add_char c lx)" "frame lx lx"
  by (simp_all add: frame_def getNextCh_def keep_def add_char_def)

lemma on_refl [intro]: "on lx lx"
  by (simp add: on_def)

lemma on_trans: "on a b \<Longrightarrow> on b c \<Longrightarrow> on a c"
  unfolding on_def frame_def by (auto intro: suffix_order.trans)

lemma on_next [intro]: "on a lx \<Longrightarrow> on a (getNextCh lx)"
  by (erule on_trans) (auto simp: on_def getNextCh_ok getNextCh_ahead suffix_tl)

lemma on_same [intro]: "on a lx \<Longrightarrow> on a (keep lx)" "on a lx \<Longrightarrow> on a (lx\<lparr>tk := k\<rparr>)"
  "on a lx \<Longrightarrow> on a (lx\<lparr>tkStr := t\<rparr>)" "on a lx \<Longrightarrow> on a (add_char c lx)"
  by (erule on_trans; auto simp: on_def keep_def add_char_def)+

lemma on_take_op [intro]: "on a lx \<Longrightarrow> on a (take_op t lx)"
  unfolding take_op_def by (rule on_next, rule on_same)

lemma on_skip_loop: "on lx (skip_loop p lx)"
proof (induction p lx rule: skip_loop.induct)
  case (1 p lx)
  then show ?case by (subst skip_loop.simps) (auto intro: on_trans [of lx "getNextCh lx"])
qed

lemma on_keep_loop: "on lx (keep_loop p lx)"
proof (induction p lx rule: keep_loop.induct)
  case (1 p lx)
  then show ?case by (subst keep_loop.simps) (auto intro: on_trans [of lx "getNextCh (keep lx)"])
qed

lemma on_keep_loop2 [intro]: "on a lx \<Longrightarrow> on a (keep_loop p lx)"
  by (rule on_trans [OF _ on_keep_loop])

lemma on_dstring_char: "on a lx \<Longrightarrow> on a (dstring_char lx)"
  by (auto simp: dstring_char_def Let_def)

lemma on_sstring_char: "on a lx \<Longrightarrow> on a (sstring_char lx)"
  by (auto simp: sstring_char_def Let_def hex_escape_def octal_escape_def)

lemma on_dstring_loop: "on lx (dstring_loop lx)"
proof (induction lx rule: dstring_loop.induct)
  case (1 lx)
  show ?case
    using 1 on_trans [OF on_next [OF on_dstring_char [OF on_refl]]]
    by (subst dstring_loop.simps) auto
qed

lemma on_sstring_loop: "on lx (sstring_loop lx)"
proof (induction lx rule: sstring_loop.induct)
  case (1 lx)
  show ?case
    using 1 on_trans [OF on_next [OF on_sstring_char [OF on_refl]]]
    by (subst sstring_loop.simps) auto
qed

section \<open>Every token takes input\<close>

lemma on_cong: "getNextCh (lx\<lparr>tk := k\<rparr>) = (getNextCh lx)\<lparr>tk := k\<rparr>"
  "getNextCh (lx\<lparr>tkStr := t\<rparr>) = (getNextCh lx)\<lparr>tkStr := t\<rparr>"
  "getNextCh (keep lx) = (getNextCh lx)\<lparr>tkStr := tkStr lx @ [currCh lx]\<rparr>"
  by (simp_all add: getNextCh_def keep_def)

lemma getNextCh_simps [simp]:
  "tk (getNextCh lx) = tk lx" "tkStr (getNextCh lx) = tkStr lx" "tk (keep lx) = tk lx"
  "tkStr (keep lx) = tkStr lx @ [currCh lx]" "currCh (getNextCh lx) = nextCh lx"
  by (simp_all add: getNextCh_def keep_def)

lemma keep_loop_tk [simp]: "tk (keep_loop p lx) = tk lx"
proof (induction p lx rule: keep_loop.induct)
  case (1 p lx)
  then show ?case by (subst keep_loop.simps) simp
qed

lemma keep_loop_more:
  assumes "currCh lx \<noteq> CHR 0x00" "p (currCh lx)"
  shows "on (getNextCh lx) (keep_loop p lx)"
  using assms
  by (subst keep_loop.simps) (auto simp: on_cong)

lemma nul_class [simp]: "\<not> isAlpha CHR 0x00" "\<not> isNumeric CHR 0x00"
  by (simp_all add: isAlpha_def isNumeric_def)

lemma scan_id_on: "isAlpha (currCh lx) \<Longrightarrow> on (getNextCh lx) (scan_id lx)"
  unfolding scan_id_def Let_def by (intro on_same keep_loop_more) auto

lemma on_scan_exponent: "on a lx \<Longrightarrow> on a (scan_exponent lx)"
  unfolding scan_exponent_def Let_def by (simp add: on_keep_loop2 on_next on_same)

lemma scan_number_on: "isNumeric (currCh lx) \<Longrightarrow> on (getNextCh lx) (scan_number lx)"
proof -
  assume n: "isNumeric (currCh lx)"
  define lx1 where "lx1 = (if currCh lx = CHR ''0'' then getNextCh (keep lx) else lx)"
  define hex where "hex = (currCh lx1 = CHR ''x'')"
  define lx2 where "lx2 = (if hex then getNextCh (keep lx1) else lx1)"
  define lx3 where "lx3 = keep_loop (\<lambda>c. isNumeric c \<or> (hex \<and> isHexadecimal c)) (lx2\<lparr>tk := Lex LEX_INT\<rparr>)"
  define lx4 where "lx4 = (if \<not> hex \<and> currCh lx3 = CHR ''.'' then
      keep_loop isNumeric (getNextCh (lx3\<lparr>tk := Lex LEX_FLOAT, tkStr := tkStr lx3 @ ''.''\<rparr>)) else lx3)"
  have nx: "\<not> isNumeric (CHR ''x'')" by (simp add: isNumeric_def)
  have "on (getNextCh lx) lx3"
  proof (cases "currCh lx = CHR ''0''")
    case True
    then have "on (getNextCh lx) lx1" by (auto simp: lx1_def on_cong)
    then show ?thesis unfolding lx3_def lx2_def by auto
  next
    case False
    then have "lx2 = lx" using n nx by (auto simp: lx2_def hex_def lx1_def)
    moreover have "on (getNextCh lx) (getNextCh (lx\<lparr>tk := Lex LEX_INT\<rparr>))" by (auto simp: on_cong)
    moreover have "currCh lx \<noteq> CHR 0x00" using n nul_class by metis
    ultimately show ?thesis
      unfolding lx3_def using n by (intro on_trans [OF _ keep_loop_more]) auto
  qed
  then have "on (getNextCh lx) lx4" by (auto simp: lx4_def)
  moreover have "scan_number lx = (if \<not> hex \<and> (currCh lx4 = CHR ''e'' \<or> currCh lx4 = CHR ''E'')
      then scan_exponent lx4 else lx4)"
    by (simp only: scan_number_def Let_def lx4_def lx3_def lx2_def hex_def lx1_def)
  ultimately show ?thesis by (simp add: on_scan_exponent)
qed

lemma scan_string_on: "on (getNextCh lx) (scan_dstring lx)" "on (getNextCh lx) (scan_sstring lx)"
  unfolding scan_dstring_def scan_sstring_def
  by (intro on_same on_next on_dstring_loop on_sstring_loop)+

lemma on_if: "on a x \<Longrightarrow> on a y \<Longrightarrow> on a (if b then x else y)"
  by simp

lemma scan_op_on:
  assumes "currCh lx \<noteq> CHR 0x00"
  shows "on (getNextCh lx) (scan_op lx)"
proof -
  have "on (getNextCh lx) (getNextCh (lx\<lparr>tk := char_token (currCh lx)\<rparr>))" by (auto simp: on_cong)
  then show ?thesis
    unfolding scan_op_def Let_def
    by (simp only: assms not_False_eq_True if_True) (intro on_if on_take_op; assumption)
qed

lemma scan_token_on: "currCh lx \<noteq> CHR 0x00 \<Longrightarrow> on (getNextCh lx) (scan_token lx)"
  by (auto simp: scan_token_def scan_id_on scan_number_on scan_string_on scan_op_on)

lemma keyword_not_eof: "keyword s \<noteq> LEX_EOF"
  by (simp add: keyword_def)

lemma take_op_tk [simp]: "tk (take_op t lx) = Lex t"
  by (simp add: take_op_def)

lemma scan_op_tk: "currCh lx \<noteq> CHR 0x00 \<Longrightarrow> tk (scan_op lx) \<noteq> Lex LEX_EOF"
  unfolding scan_op_def Let_def if_distrib [of tk] by (simp add: char_token_def)

lemma scan_number_tk: "tk (scan_number lx) \<noteq> Lex LEX_EOF"
  unfolding scan_number_def scan_exponent_def Let_def if_distrib [of tk] by simp

lemma scan_token_eof: "currCh lx = CHR 0x00 \<Longrightarrow> scan_token lx = lx\<lparr>tk := Lex LEX_EOF\<rparr>"
  by (simp add: scan_token_def scan_op_def char_token_def Let_def)

lemma scan_token_tk: "tk (scan_token lx) = Lex LEX_EOF \<longleftrightarrow> currCh lx = CHR 0x00"
proof (cases "currCh lx = CHR 0x00")
  case False
  then show ?thesis
    using scan_op_tk [of lx] scan_number_tk [of lx] keyword_not_eof
    by (simp add: scan_token_def scan_id_def scan_dstring_def scan_sstring_def Let_def)
qed (simp add: scan_token_eof)

definition lexed :: "lexer \<Rightarrow> lexer \<Rightarrow> bool" where
  "lexed lx lx' \<longleftrightarrow> lex_ok lx' \<and> data lx' = data lx \<and> dataEnd lx' = dataEnd lx \<and>
     suffix (ahead lx') (ahead lx) \<and>
     (if tk lx' = Lex LEX_EOF then ahead lx' = [] else length (ahead lx') < length (ahead lx))"

lemma lexed_on: "lex_ok lx \<Longrightarrow> on lx lx1 \<Longrightarrow> lexed lx1 lx' \<Longrightarrow> lexed lx lx'"
  unfolding on_def lexed_def frame_def
  using suffix_length_le [of "ahead lx1" "ahead lx"]
  by (auto intro: suffix_order.trans split: if_splits)

lemma scan_lexed:
  assumes "lex_ok lx"
  shows "lexed lx (scan_token (lx\<lparr>tokenStart := i\<rparr>))"
proof (cases "currCh lx = CHR 0x00")
  case True
  then have "ahead lx = []" using ahead_empty [OF assms] by blast
  moreover have "scan_token (lx\<lparr>tokenStart := i\<rparr>) = lx\<lparr>tokenStart := i, tk := Lex LEX_EOF\<rparr>"
    using True by (intro scan_token_eof) simp
  ultimately show ?thesis using assms by (simp add: lexed_def)
next
  case False
  let ?l = "lx\<lparr>tokenStart := i\<rparr>"
  have ok: "lex_ok ?l" using assms by simp
  have "on (getNextCh ?l) (scan_token ?l)" using False by (intro scan_token_on) simp
  then have "lex_ok (scan_token ?l)" "suffix (ahead (scan_token ?l)) (tl (ahead ?l))"
    "data (scan_token ?l) = data lx" "dataEnd (scan_token ?l) = dataEnd lx"
    using getNextCh_ok [OF ok] getNextCh_ahead [OF ok] by (auto simp: on_def frame_def getNextCh_def)
  moreover have "ahead lx \<noteq> []" using ahead_empty [OF assms] False by blast
  moreover have "tk (scan_token ?l) \<noteq> Lex LEX_EOF" using scan_token_tk [of ?l] False by simp
  moreover have "length (ahead (scan_token ?l)) \<le> length (tl (ahead lx))"
    using suffix_length_le [OF calculation(2)] by simp
  ultimately show ?thesis
    unfolding lexed_def by (cases "ahead lx") (auto intro: suffix_ConsI)
qed

lemma lexed_end: "lexed lx lx' \<Longrightarrow> lexed lx (lx'\<lparr>tokenLastEnd := i, tokenEnd := j\<rparr>)"
  by (simp add: lexed_def)

lemma on_skips: "on lx (skip_line lx)" "on lx (skip_block lx)"
  unfolding skip_line_def skip_block_def by (intro on_next on_skip_loop)+

lemma on_skip_whitespace: "on lx (skip_whitespace lx)"
  unfolding skip_whitespace_def
  by (rule on_trans [OF _ on_skip_loop]) auto

lemma getNextToken_lexed: "lex_ok lx \<Longrightarrow> lexed lx (getNextToken lx)"
proof (induction lx rule: getNextToken.induct)
  case (1 lx)
  let ?w = "skip_whitespace lx"
  have w: "on lx ?w" by (rule on_skip_whitespace)
  then have ok: "lex_ok ?w" using 1 by (simp add: on_def)
  have l: "lexed lx lx'" if "on ?w lx1" "lexed lx1 lx'" for lx1 lx'
    by (rule lexed_on [OF 1(3) on_trans [OF w that(1)] that(2)])
  have ok2: "lex_ok (skip_line ?w)" "lex_ok (skip_block ?w)"
    using on_skips ok by (auto simp: on_def)
  have r: "currCh ?w = CHR ''/'' \<and> nextCh ?w = CHR ''/'' \<Longrightarrow> lexed lx (getNextToken (skip_line ?w))"
    "\<not> (currCh ?w = CHR ''/'' \<and> nextCh ?w = CHR ''/'') \<Longrightarrow> currCh ?w = CHR ''/'' \<and> nextCh ?w = CHR ''*'' \<Longrightarrow>
      lexed lx (getNextToken (skip_block ?w))"
    using l [OF on_skips(1) 1(1) [OF refl _ ok2(1)]] l [OF on_skips(2) 1(2) [OF refl _ _ ok2(2)]]
    by blast+
  show ?case
    using r lexed_end [OF l [OF on_refl scan_lexed [OF ok]]]
    by (subst getNextToken.simps) (simp add: Let_def)
qed

section \<open>The text of a token\<close>

definition kept :: "lexer \<Rightarrow> string \<Rightarrow> lexer \<Rightarrow> bool" where
  "kept lx cs lx' \<longleftrightarrow> frame lx lx' \<and> (lex_ok lx \<longrightarrow> lex_ok lx' \<and> ahead lx = cs @ ahead lx') \<and>
     dataPos lx' = dataPos lx + int (length cs) \<and> tkStr lx' = tkStr lx @ cs"

definition keeps :: "lexer \<Rightarrow> lexer \<Rightarrow> bool" where
  "keeps lx lx' \<longleftrightarrow> (\<exists>cs. kept lx cs lx')"

lemma keeps_refl: "keeps lx lx"
  unfolding keeps_def kept_def by (intro exI [of _ "[]"]) simp

lemma keeps_trans: "keeps a b \<Longrightarrow> keeps b c \<Longrightarrow> keeps a c"
  unfolding keeps_def
proof (elim exE)
  fix cs ds assume "kept a cs b" "kept b ds c"
  then show "\<exists>cs. kept a cs c"
    by (intro exI [of _ "cs @ ds"]) (auto simp: kept_def frame_def)
qed

lemma keeps_step: "currCh lx \<noteq> CHR 0x00 \<Longrightarrow> keeps lx (getNextCh (keep lx))"
proof -
  assume c: "currCh lx \<noteq> CHR 0x00"
  have "ahead lx = currCh lx # ahead (getNextCh (keep lx))" if "lex_ok lx"
    using c that getNextCh_ahead [OF that] currCh_ahead [OF that] ahead_empty [OF that]
    by (simp add: on_cong split: list.splits)
  then show ?thesis
    unfolding keeps_def kept_def using getNextCh_ok [of "keep lx"]
    by (intro exI [of _ "[currCh lx]"]) (auto simp: frame_def getNextCh_def keep_def)
qed

lemma keeps_tk: "keeps a lx \<Longrightarrow> keeps a (lx\<lparr>tk := k\<rparr>)"
  by (auto simp: keeps_def kept_def frame_def)

lemma keeps_loop: "keeps lx (keep_loop p lx)"
proof (induction p lx rule: keep_loop.induct)
  case (1 p lx)
  show ?case
    using 1 keeps_trans [OF keeps_step] keeps_refl by (subst keep_loop.simps) simp
qed

lemma keeps_loop2: "keeps a lx \<Longrightarrow> keeps a (keep_loop p lx)"
  by (rule keeps_trans [OF _ keeps_loop])

lemma keeps_step2: "keeps a lx \<Longrightarrow> currCh lx \<noteq> CHR 0x00 \<Longrightarrow> keeps a (getNextCh (keep lx))"
  by (rule keeps_trans [OF _ keeps_step])

lemma keeps_if: "(b \<Longrightarrow> keeps a x) \<Longrightarrow> (\<not> b \<Longrightarrow> keeps a y) \<Longrightarrow> keeps a (if b then x else y)"
  by simp

lemma scan_id_keeps: "keeps lx (scan_id lx)"
  unfolding scan_id_def Let_def by (intro keeps_tk keeps_loop)

lemma scan_exponent_keeps: "keeps a lx \<Longrightarrow> currCh lx \<noteq> CHR 0x00 \<Longrightarrow> keeps a (scan_exponent lx)"
  unfolding scan_exponent_def Let_def
  by (intro keeps_loop2 keeps_if keeps_step2 keeps_tk) (simp_all add: keep_def)

lemma dot_keep: "currCh lx = CHR ''.'' \<Longrightarrow>
  lx\<lparr>tk := k, tkStr := tkStr lx @ ''.''\<rparr> = keep (lx\<lparr>tk := k\<rparr>)"
  by (simp add: keep_def)

lemma scan_number_keeps: "keeps lx (scan_number lx)"
proof -
  define lx1 where "lx1 = (if currCh lx = CHR ''0'' then getNextCh (keep lx) else lx)"
  define hex where "hex = (currCh lx1 = CHR ''x'')"
  define lx2 where "lx2 = (if hex then getNextCh (keep lx1) else lx1)"
  define lx3 where "lx3 = keep_loop (\<lambda>c. isNumeric c \<or> (hex \<and> isHexadecimal c)) (lx2\<lparr>tk := Lex LEX_INT\<rparr>)"
  define lx4 where "lx4 = (if \<not> hex \<and> currCh lx3 = CHR ''.'' then
      keep_loop isNumeric (getNextCh (lx3\<lparr>tk := Lex LEX_FLOAT, tkStr := tkStr lx3 @ ''.''\<rparr>)) else lx3)"
  have "keeps lx lx1" unfolding lx1_def by (intro keeps_if keeps_step keeps_refl) simp
  then have "keeps lx lx2" unfolding lx2_def hex_def by (intro keeps_if keeps_step2) simp_all
  then have k3: "keeps lx lx3" unfolding lx3_def by (intro keeps_loop2 keeps_tk)
  have "keeps lx lx4"
  proof (cases "\<not> hex \<and> currCh lx3 = CHR ''.''")
    case True
    then show ?thesis
      unfolding lx4_def using k3 by (simp add: dot_keep keeps_loop2 keeps_step2 keeps_tk)
  qed (auto simp: lx4_def k3)
  moreover have "scan_number lx = (if \<not> hex \<and> (currCh lx4 = CHR ''e'' \<or> currCh lx4 = CHR ''E'')
      then scan_exponent lx4 else lx4)"
    by (simp only: scan_number_def Let_def lx4_def lx3_def lx2_def hex_def lx1_def)
  ultimately show ?thesis by (auto intro: scan_exponent_keeps)
qed

lemma take_op_str [simp]: "tkStr (take_op t lx) = tkStr lx"
  by (simp add: take_op_def)

lemma scan_op_str: "tkStr (scan_op lx) = tkStr lx"
  unfolding scan_op_def Let_def if_distrib [of tkStr] by simp

lemma scan_token_keeps:
  assumes "tkStr lx = []" "tkStr (scan_token lx) \<noteq> []" "tk (scan_token lx) \<noteq> Lex LEX_STR"
  shows "keeps lx (scan_token lx)"
  using assms scan_id_keeps scan_number_keeps
  by (auto simp: scan_token_def scan_op_str scan_dstring_def scan_sstring_def split: if_splits)

definition end_token :: "lexer \<Rightarrow> lexer" where
  "end_token lx =
     (let lx = scan_token (lx\<lparr>tokenStart := dataPos lx - 2\<rparr>)
      in lx\<lparr>tokenLastEnd := tokenEnd lx, tokenEnd := dataPos lx - 3\<rparr>)"

lemma skip_loop_str [simp]: "tkStr (skip_loop p lx) = tkStr lx"
proof (induction p lx rule: skip_loop.induct)
  case (1 p lx)
  then show ?case by (subst skip_loop.simps) simp
qed

lemma skip_whitespace_str [simp]: "tkStr (skip_whitespace lx) = []"
  by (simp add: skip_whitespace_def)

lemma getNextToken_shape: "\<exists>lx'. on lx lx' \<and> tkStr lx' = [] \<and> getNextToken lx = end_token lx'"
proof (induction lx rule: getNextToken.induct)
  case (1 lx)
  let ?w = "skip_whitespace lx"
  let ?P = "\<lambda>l. \<exists>lx'. on lx lx' \<and> tkStr lx' = [] \<and> l = end_token lx'"
  have w: "on lx (skip_line ?w)" "on lx (skip_block ?w)"
    by (rule on_trans [OF on_skip_whitespace on_skips(1)])
      (rule on_trans [OF on_skip_whitespace on_skips(2)])
  have "?P (getNextToken (skip_line ?w))" if "currCh ?w = CHR ''/'' \<and> nextCh ?w = CHR ''/''"
    using 1(1) [OF refl that] on_trans [OF w(1)] by blast
  moreover have "?P (getNextToken (skip_block ?w))"
    if "\<not> (currCh ?w = CHR ''/'' \<and> nextCh ?w = CHR ''/'')" "currCh ?w = CHR ''/'' \<and> nextCh ?w = CHR ''*''"
    using 1(2) [OF refl that] on_trans [OF w(2)] by blast
  moreover have "?P (end_token ?w)"
    using on_skip_whitespace skip_whitespace_str by blast
  ultimately show ?case
    by (subst getNextToken.simps) (simp add: Let_def end_token_def)
qed

lemma token_text:
  assumes "lex_ok lx" "tkStr (getNextToken lx) \<noteq> []" "tk (getNextToken lx) \<noteq> Lex LEX_STR"
  shows "tkStr (getNextToken lx) =
    take (nat (tokenEnd (getNextToken lx) - tokenStart (getNextToken lx) + 1))
      (drop (nat (tokenStart (getNextToken lx))) (data lx))"
proof -
  obtain l where l: "on lx l" "tkStr l = []" "getNextToken lx = end_token l"
    using getNextToken_shape by blast
  let ?s = "l\<lparr>tokenStart := dataPos l - 2\<rparr>"
  have e: "tkStr (end_token l) = tkStr (scan_token ?s)" "tk (end_token l) = tk (scan_token ?s)"
    "tokenStart (end_token l) = tokenStart (scan_token ?s)"
    "tokenEnd (end_token l) = dataPos (scan_token ?s) - 3"
    by (simp_all add: end_token_def Let_def)
  have "keeps ?s (scan_token ?s)"
    using assms l e by (intro scan_token_keeps) simp_all
  then obtain cs where k: "kept ?s cs (scan_token ?s)" unfolding keeps_def by blast
  have ok: "lex_ok l" "data l = data lx" using l assms by (auto simp: on_def frame_def)
  have a: "ahead l = cs @ ahead (scan_token ?s)" "tkStr (scan_token ?s) = cs"
    "tokenStart (scan_token ?s) = dataPos l - 2"
    "dataPos (scan_token ?s) = dataPos l + int (length cs)"
    using k ok l by (auto simp: kept_def frame_def)
  have "take (length cs) (drop (nat (dataPos l - 2)) (take (nat (dataEnd l)) (data lx))) = cs"
    using a(1) ok by (simp add: ahead_def)
  moreover have "length cs \<le> nat (dataEnd l) - nat (dataPos l - 2)"
  proof -
    have "length cs \<le> length (ahead l)" using a(1) by simp
    then show ?thesis by (simp add: ahead_def)
  qed
  ultimately have "take (length cs) (drop (nat (dataPos l - 2)) (data lx)) = cs"
    by (simp add: drop_take min_absorb1)
  then show ?thesis using l(3) e a by simp
qed

text \<open>The tokens that have a text of their own: identifiers, reserved words and numbers.\<close>

definition has_text :: "token \<Rightarrow> bool" where
  "has_text t \<longleftrightarrow> t \<in> Lex ` {LEX_ID, LEX_INT, LEX_FLOAT, LEX_R_IF, LEX_R_ELSE, LEX_R_DO, LEX_R_WHILE, LEX_R_FOR,
     LEX_R_BREAK, LEX_R_CONTINUE, LEX_R_FUNCTION, LEX_R_RETURN, LEX_R_VAR, LEX_R_TRUE, LEX_R_FALSE, LEX_R_NULL,
     LEX_R_UNDEFINED, LEX_R_NEW}"

text \<open>A number starts with a digit; a word with a letter, and its kind is that of its text.\<close>

definition right_kind :: "token \<Rightarrow> string \<Rightarrow> bool" where
  "right_kind t cs \<longleftrightarrow> cs \<noteq> [] \<and>
     (if t \<in> {Lex LEX_INT, Lex LEX_FLOAT} then isNumeric (hd cs) else isAlpha (hd cs) \<and> t = Lex (keyword cs))"

lemma keeps_str: "keeps a b \<Longrightarrow> \<exists>cs. tkStr b = tkStr a @ cs"
  by (auto simp: keeps_def kept_def)

lemma keeps_hd: "keeps a b \<Longrightarrow> tkStr a \<noteq> [] \<Longrightarrow> tkStr b \<noteq> [] \<and> hd (tkStr b) = hd (tkStr a)"
  using keeps_str [of a b] by auto

lemma keep_loop_first:
  assumes "currCh lx \<noteq> CHR 0x00" "p (currCh lx)" "tkStr lx = []"
  shows "tkStr (keep_loop p lx) \<noteq> [] \<and> hd (tkStr (keep_loop p lx)) = currCh lx"
proof -
  have "tkStr (getNextCh (keep lx)) = [currCh lx]" using assms(3) by (simp add: keep_def)
  then show ?thesis using keeps_hd [OF keeps_loop, of "getNextCh (keep lx)" p] assms
    by (simp add: keep_loop.simps [of p lx])
qed

lemma isAlpha_nul: "isAlpha c \<Longrightarrow> c \<noteq> CHR 0x00"
  by (auto simp: isAlpha_def)

lemma isNumeric_nul: "isNumeric c \<Longrightarrow> c \<noteq> CHR 0x00 \<and> c \<noteq> CHR ''x''"
  by (auto simp: isNumeric_def)

lemma keyword_not_number: "keyword s \<noteq> LEX_INT" "keyword s \<noteq> LEX_FLOAT"
  by (simp_all add: keyword_def)

lemma scan_id_kind:
  assumes "isAlpha (currCh lx)" "tkStr lx = []"
  shows "right_kind (tk (scan_id lx)) (tkStr (scan_id lx)) \<and> has_text (tk (scan_id lx))"
proof -
  let ?p = "\<lambda>c. isAlpha c \<or> isNumeric c"
  have "tkStr (keep_loop ?p lx) \<noteq> [] \<and> hd (tkStr (keep_loop ?p lx)) = currCh lx"
    by (rule keep_loop_first) (use assms isAlpha_nul in auto)
  then have "right_kind (tk (scan_id lx)) (tkStr (scan_id lx))"
    using assms(1) by (simp add: right_kind_def scan_id_def Let_def keyword_not_number)
  moreover have "has_text (Lex (keyword s))" for s by (simp add: has_text_def keyword_def)
  ultimately show ?thesis by (simp add: scan_id_def Let_def)
qed

lemma scan_number_kind:
  assumes c: "isNumeric (currCh lx)" and e: "tkStr lx = []"
  shows "right_kind (tk (scan_number lx)) (tkStr (scan_number lx)) \<and> has_text (tk (scan_number lx))"
proof -
  define lx1 where "lx1 = (if currCh lx = CHR ''0'' then getNextCh (keep lx) else lx)"
  define hex where "hex = (currCh lx1 = CHR ''x'')"
  define lx2 where "lx2 = (if hex then getNextCh (keep lx1) else lx1)"
  define lx3 where "lx3 = keep_loop (\<lambda>c. isNumeric c \<or> (hex \<and> isHexadecimal c)) (lx2\<lparr>tk := Lex LEX_INT\<rparr>)"
  define lx4 where "lx4 = (if \<not> hex \<and> currCh lx3 = CHR ''.'' then
      keep_loop isNumeric (getNextCh (lx3\<lparr>tk := Lex LEX_FLOAT, tkStr := tkStr lx3 @ ''.''\<rparr>)) else lx3)"
  have s: "scan_number lx = (if \<not> hex \<and> (currCh lx4 = CHR ''e'' \<or> currCh lx4 = CHR ''E'')
      then scan_exponent lx4 else lx4)"
    by (simp only: scan_number_def Let_def lx4_def lx3_def lx2_def hex_def lx1_def)
  have h3: "tkStr lx3 \<noteq> [] \<and> hd (tkStr lx3) = currCh lx"
  proof (cases "currCh lx = CHR ''0''")
    case True
    have "tkStr lx1 = [currCh lx]" using True e by (simp add: lx1_def keep_def)
    then have "tkStr lx2 \<noteq> [] \<and> hd (tkStr lx2) = currCh lx" by (simp add: lx2_def keep_def)
    then show ?thesis unfolding lx3_def
      using keeps_hd [OF keeps_loop, of "lx2\<lparr>tk := Lex LEX_INT\<rparr>"] by simp
  next
    case False
    then have "\<not> hex" "lx2 = lx" using isNumeric_nul [OF c] by (auto simp: lx1_def hex_def lx2_def)
    then show ?thesis unfolding lx3_def
      using keep_loop_first [of "lx2\<lparr>tk := Lex LEX_INT\<rparr>" "\<lambda>c. isNumeric c \<or> (hex \<and> isHexadecimal c)"]
        c e isNumeric_nul [OF c] by simp
  qed
  then have h4: "tkStr lx4 \<noteq> [] \<and> hd (tkStr lx4) = currCh lx"
    using keeps_hd [OF keeps_loop, of "getNextCh (lx3\<lparr>tk := Lex LEX_FLOAT, tkStr := tkStr lx3 @ ''.''\<rparr>)" isNumeric]
    by (simp add: lx4_def)
  have t4: "tk lx4 \<in> {Lex LEX_INT, Lex LEX_FLOAT}" by (simp add: lx4_def lx3_def)
  have "keeps lx4 (scan_exponent lx4)" "tk (scan_exponent lx4) = Lex LEX_FLOAT" if "currCh lx4 \<noteq> CHR 0x00"
    using scan_exponent_keeps [OF keeps_refl that] by (simp_all add: scan_exponent_def Let_def keep_def)
  then have "tkStr (scan_number lx) \<noteq> [] \<and> hd (tkStr (scan_number lx)) = currCh lx"
      "tk (scan_number lx) \<in> {Lex LEX_INT, Lex LEX_FLOAT}"
    using h4 t4 keeps_hd [of lx4 "scan_exponent lx4"] by (auto simp: s)
  then show ?thesis using c by (auto simp: right_kind_def has_text_def)
qed

lemma scan_op_kind: "\<not> has_text (tk (scan_op lx)) \<and> tk (scan_op lx) \<noteq> Lex LEX_STR"
proof -
  have t: "tk (take_op t lx) = Lex t" for t lx by (simp add: take_op_def)
  show ?thesis
    unfolding scan_op_def Let_def if_distrib [of tk] t
    by (simp add: char_token_def has_text_def)
qed

lemma scan_token_kind:
  assumes "tkStr lx = []"
  shows "if has_text (tk (scan_token lx)) then right_kind (tk (scan_token lx)) (tkStr (scan_token lx))
    else tk (scan_token lx) \<noteq> Lex LEX_STR \<longrightarrow> tkStr (scan_token lx) = []"
proof -
  have "\<not> has_text (Lex LEX_STR)" by (auto simp: has_text_def)
  then show ?thesis
    using scan_id_kind [OF _ assms] scan_number_kind [OF _ assms] scan_op_kind [of lx] assms
    by (auto simp: scan_token_def scan_op_str scan_dstring_def scan_sstring_def)
qed

lemma token_kind:
  "if has_text (tk (getNextToken lx)) then right_kind (tk (getNextToken lx)) (tkStr (getNextToken lx))
   else tk (getNextToken lx) \<noteq> Lex LEX_STR \<longrightarrow> tkStr (getNextToken lx) = []"
proof -
  obtain l where l: "tkStr l = []" "getNextToken lx = end_token l" using getNextToken_shape by blast
  let ?s = "l\<lparr>tokenStart := dataPos l - 2\<rparr>"
  have "tkStr (end_token l) = tkStr (scan_token ?s)" "tk (end_token l) = tk (scan_token ?s)"
    by (simp_all add: end_token_def Let_def)
  then show ?thesis using scan_token_kind [of ?s] l by simp
qed

section \<open>From the start to the end of the input\<close>

lemma new_lexer_start:
  assumes "0 \<le> st" "st \<le> en" "en \<le> int (length d)" "CHR 0x00 \<notin> set d"
  shows "\<exists>l. new_lexer c0 n0 d st en = getNextToken l \<and> lex_ok l \<and> tkStr l = [] \<and>
    ahead l = take (nat (en - st)) (drop (nat st) d)"
proof -
  let ?l = "getNextCh (getNextCh \<lparr>data = d, dataStart = st, dataEnd = en, dataPos = st, currCh = c0,
    nextCh = n0, tk = Lex LEX_EOF, tokenStart = 0, tokenEnd = 0, tokenLastEnd = 0, tkStr = []\<rparr>)"
  have "new_lexer c0 n0 d st en = getNextToken ?l"
    by (simp add: new_lexer_def reset_def)
  moreover have "lex_ok ?l" "tkStr ?l = []" "ahead ?l = take (nat (en - st)) (drop (nat st) d)"
    using assms
    by (simp_all add: getNextCh_def lex_ok_def ch_at_def ahead_def drop_take nat_diff_distrib
        add.commute [of 1 st])
  ultimately show ?thesis by blast
qed

lemma takeWhile_nul: "CHR 0x00 \<notin> set (takeWhile (\<lambda>c. c \<noteq> CHR 0x00) s)"
  by (auto dest: set_takeWhileD)

lemma CScriptLex_start:
  "\<exists>l. CScriptLex c0 n0 input = getNextToken l \<and> lex_ok l \<and> tkStr l = [] \<and>
    ahead l = takeWhile (\<lambda>c. c \<noteq> CHR 0x00) input"
  using new_lexer_start [of 0 "int (length (takeWhile (\<lambda>c. c \<noteq> CHR 0x00) input))" _ c0 n0,
      OF _ _ _ takeWhile_nul [of input]]
  by (simp add: CScriptLex_def Let_def)

lemma tokens_end:
  "lex_ok lx \<Longrightarrow> \<exists>n \<le> length (ahead lx). tk ((getNextToken ^^ n) (getNextToken lx)) = Lex LEX_EOF \<and>
     ahead ((getNextToken ^^ n) (getNextToken lx)) = []"
proof (induction "length (ahead lx)" arbitrary: lx rule: less_induct)
  case less
  have l: "lexed lx (getNextToken lx)" by (rule getNextToken_lexed [OF less.prems])
  show ?case
  proof (cases "tk (getNextToken lx) = Lex LEX_EOF")
    case True
    then show ?thesis using l by (intro exI [of _ 0]) (simp add: lexed_def)
  next
    case False
    then have s: "length (ahead (getNextToken lx)) < length (ahead lx)" "lex_ok (getNextToken lx)"
      using l by (simp_all add: lexed_def)
    from less.hyps [OF s] obtain n where n: "n \<le> length (ahead (getNextToken lx))"
      "tk ((getNextToken ^^ n) (getNextToken (getNextToken lx))) = Lex LEX_EOF"
      "ahead ((getNextToken ^^ n) (getNextToken (getNextToken lx))) = []" by blast
    then show ?thesis
      using s(1) by (intro exI [of _ "Suc n"]) (simp add: funpow_swap1)
  qed
qed

section \<open>Quoted strings\<close>

definition relex :: "char \<Rightarrow> string" where
  "relex c =
     (if c = CHR 0x0D then ''r''
      else if c = CHR 0x07 then ''a''
      else
        let n = of_char c :: nat
        in if c \<noteq> CHR 0x0A \<and> (n < 32 \<or> n > 127) then
             [CHR ''x'', hex_char (n div 16), hex_char (n mod 16)]
           else [c])"

definition plain :: "char \<Rightarrow> bool" where
  "plain c \<longleftrightarrow> c = CHR 0x0A \<or> 32 \<le> (of_char c :: nat) \<and> (of_char c :: nat) \<le> 127"

definition esc :: "char \<Rightarrow> string" where
  "esc c = (case js_escape c of Some r \<Rightarrow> r | None \<Rightarrow> [c])"

definition dstep :: "lexer \<Rightarrow> string \<Rightarrow> lexer \<Rightarrow> bool" where
  "dstep lx t lx' \<longleftrightarrow> dstring_loop lx = dstring_loop lx' \<and> lex_ok lx' \<and> tkStr lx' = tkStr lx @ t"

lemma dstep_plain:
  assumes "lex_ok lx" "ahead lx = c # r" "c \<noteq> CHR 0x22" "c \<noteq> CHR 0x5C"
  shows "\<exists>l. dstep lx [c] l \<and> ahead l = r"
proof -
  have c: "currCh lx = c" "c \<noteq> CHR 0x00"
    using assms currCh_ahead [OF assms(1)] ahead_empty [OF assms(1)] by auto
  have "dstring_loop lx = dstring_loop (getNextCh (keep lx))"
    using c assms by (subst dstring_loop.simps) (simp add: dstring_char_def)
  then show ?thesis
    using c assms getNextCh_ok [of lx] getNextCh_ahead [of lx]
    by (intro exI [of _ "getNextCh (keep lx)"]) (simp add: dstep_def on_cong)
qed

lemma dstep_escape:
  assumes "lex_ok lx" "ahead lx = CHR 0x5C # e # r"
  shows "\<exists>l. dstep lx [if e = CHR ''n'' then CHR 0x0A else e] l \<and> ahead l = r"
proof -
  have c: "currCh lx = CHR 0x5C" using assms currCh_ahead [OF assms(1)] by simp
  have e: "nextCh lx = e" using assms nextCh_ahead [OF assms(1)] by simp
  let ?l = "(getNextCh (getNextCh lx))\<lparr>tkStr := tkStr lx @ [if e = CHR ''n'' then CHR 0x0A else e]\<rparr>"
  have "dstring_loop lx = dstring_loop ?l"
    using c e by (subst dstring_loop.simps) (simp add: dstring_char_def Let_def on_cong)
  then show ?thesis
    using assms getNextCh_ok [of lx] getNextCh_ok [of "getNextCh lx"] getNextCh_ahead [of lx]
      getNextCh_ahead [of "getNextCh lx"]
    by (intro exI [of _ ?l]) (simp add: dstep_def)
qed

lemma dstep_trans: "dstep a t b \<Longrightarrow> dstep b u c \<Longrightarrow> dstep a (t @ u) c"
  by (simp add: dstep_def)

lemma hex_char_plain: "d < 16 \<Longrightarrow> hex_char d \<noteq> CHR 0x22 \<and> hex_char d \<noteq> CHR 0x5C"
proof -
  assume "d < 16"
  then have "d \<in> set [0..<16]" by simp
  then show ?thesis by (auto simp: upt_rec hex_char_def char_of_def)
qed

lemma of_char_lt: "(of_char c :: nat) < 256"
  using of_char_mod_256 [of c, where 'a = nat] by (metis mod_less_divisor zero_less_numeral)

lemma of_char_div: "(of_char c :: nat) div 16 < 16"
  by (rule less_mult_imp_div_less) (use of_char_lt [of c] in simp)

abbreviation special :: "char set" where
  "special \<equiv> {CHR 0x5C, CHR 0x0A, CHR 0x0D, CHR 0x07, CHR 0x22}"

abbreviation unprintable :: "char \<Rightarrow> bool" where
  "unprintable c \<equiv> (of_char c :: nat) < 32 \<or> 127 < (of_char c :: nat)"

lemma esc_special: "c \<in> special \<Longrightarrow>
  \<exists>e. esc c = [CHR 0x5C, e] \<and> relex c = [if e = CHR ''n'' then CHR 0x0A else e]"
  by (auto simp: esc_def relex_def js_escape_def Let_def)

lemma esc_hex: "c \<notin> special \<Longrightarrow> unprintable c \<Longrightarrow>
  esc c = CHR 0x5C # relex c \<and>
  relex c = [CHR ''x'', hex_char (of_char c div 16), hex_char (of_char c mod 16)]"
  by (auto simp: esc_def relex_def js_escape_def Let_def)

lemma esc_self: "c \<notin> special \<Longrightarrow> \<not> unprintable c \<Longrightarrow> esc c = [c] \<and> relex c = [c]"
  by (auto simp: esc_def relex_def js_escape_def Let_def)

lemma dstep_esc:
  assumes "lex_ok lx" "ahead lx = esc c @ r"
  shows "\<exists>l. dstep lx (relex c) l \<and> ahead l = r"
proof -
  consider (simple) e where "esc c = [CHR 0x5C, e]" "relex c = [if e = CHR ''n'' then CHR 0x0A else e]"
    | (hex) h1 h2 where "esc c = [CHR 0x5C, CHR ''x'', h1, h2]" "relex c = [CHR ''x'', h1, h2]"
        "h1 \<noteq> CHR 0x22" "h1 \<noteq> CHR 0x5C" "h2 \<noteq> CHR 0x22" "h2 \<noteq> CHR 0x5C"
    | (self) "esc c = [c]" "relex c = [c]" "c \<noteq> CHR 0x22" "c \<noteq> CHR 0x5C"
    using esc_special [of c] esc_hex [of c] esc_self [of c]
      hex_char_plain [OF of_char_div, of c] hex_char_plain [of "of_char c mod 16"]
    by (cases "c \<in> special"; cases "unprintable c") auto
  then show ?thesis
  proof cases
    case simple
    then show ?thesis using dstep_escape [OF assms(1)] assms(2) by simp
  next
    case self
    then show ?thesis using dstep_plain [OF assms(1)] assms(2) by simp
  next
    case hex
    obtain l1 where l1: "dstep lx [CHR ''x''] l1" "ahead l1 = h1 # h2 # r"
      using dstep_escape [OF assms(1), of "CHR ''x''"] assms(2) hex by auto
    obtain l2 where l2: "dstep l1 [h1] l2" "ahead l2 = h2 # r"
      using dstep_plain [of l1 h1] l1 hex by (auto simp: dstep_def)
    obtain l3 where "dstep l2 [h2] l3" "ahead l3 = r"
      using dstep_plain [of l2 h2] l2 hex by (auto simp: dstep_def)
    then show ?thesis
      using dstep_trans [OF dstep_trans [OF l1(1) l2(1)]] hex by auto
  qed
qed

lemma dstring_loop_body:
  "lex_ok lx \<Longrightarrow> ahead lx = concat (map esc s) @ CHR 0x22 # r \<Longrightarrow>
   tkStr (dstring_loop lx) = tkStr lx @ concat (map relex s) \<and> ahead (dstring_loop lx) = CHR 0x22 # r"
proof (induction s arbitrary: lx)
  case Nil
  then have "dstring_loop lx = lx"
    using currCh_ahead [of lx] by (subst dstring_loop.simps) simp
  then show ?case using Nil by simp
next
  case (Cons c s)
  then obtain l where "dstep lx (relex c) l" "ahead l = concat (map esc s) @ CHR 0x22 # r"
    using dstep_esc [of lx c "concat (map esc s) @ CHR 0x22 # r"] by auto
  then show ?case using Cons.IH [of l] by (simp add: dstep_def)
qed

lemma js_loop_esc: "js_loop pre s = pre @ concat (map esc s)"
  by (induction s arbitrary: pre) (auto simp: esc_def split: option.splits)

lemma esc_nul: "CHR 0x00 \<notin> set (esc c)"
proof -
  have h: "hex_char d \<noteq> CHR 0x00" if "d < 16" for d
  proof -
    have "d \<in> set [0..<16]" using that by simp
    then show ?thesis by (auto simp: upt_rec hex_char_def char_of_def)
  qed
  consider "c \<in> special" | "c \<notin> special" "unprintable c" | "c \<notin> special" "\<not> unprintable c"
    by blast
  then show ?thesis
  proof cases
    case 1
    then show ?thesis by (auto simp: esc_def js_escape_def)
  next
    case 2
    have "hex_char (of_char c mod 16) \<noteq> CHR 0x00" by (rule h) simp
    then show ?thesis using esc_hex [OF 2] h [OF of_char_div, of c] by simp
  next
    case 3
    then have "c \<noteq> CHR 0x00" by auto
    then show ?thesis using esc_self [OF 3] by simp
  qed
qed

lemma relex_cases: "relex c = [c] \<longleftrightarrow> plain c" "relex c \<noteq> []"
  by (auto simp: relex_def plain_def Let_def)

lemma relex_same: "concat (map relex s) = s \<longleftrightarrow> list_all plain s"
proof (induction s)
  case (Cons c s)
  have len: "length xs \<le> length (concat (map relex xs))" for xs
  proof (induction xs)
    case (Cons x xs)
    have "1 \<le> length (relex x)" using relex_cases(2) [of x] by (cases "relex x") simp_all
    then have "1 + length xs \<le> length (relex x) + length (concat (map relex xs))"
      using Cons by (rule add_mono)
    then show ?case by simp
  qed simp
  show ?case
  proof (cases "relex c")
    case (Cons x xs)
    show ?thesis
    proof (cases xs)
      case Nil
      then show ?thesis using Cons Cons.IH relex_cases(1) [of c] by auto
    next
      case (Cons y ys)
      have "length (concat (map relex (c # s))) > length (c # s)"
        using \<open>relex c = x # xs\<close> Cons len [of s] by simp
      then have "concat (map relex (c # s)) \<noteq> c # s" by (metis less_irrefl)
      moreover have "\<not> plain c"
        using \<open>relex c = x # xs\<close> Cons relex_cases(1) [of c] by auto
      ultimately show ?thesis by simp
    qed
  qed (use relex_cases(2) in auto)
qed simp

lemma getNextToken_dstring:
  assumes "lex_ok lx" "ahead lx = CHR 0x22 # r"
  shows "tk (getNextToken lx) = Lex LEX_STR"
    "tkStr (getNextToken lx) = tkStr (dstring_loop (getNextCh (lx\<lparr>tk := Lex LEX_EOF, tkStr := [],
       tokenStart := dataPos lx - 2\<rparr>)))"
proof -
  have c: "currCh lx = CHR 0x22" using currCh_ahead [OF assms(1)] assms(2) by simp
  have w: "skip_whitespace lx = lx\<lparr>tk := Lex LEX_EOF, tkStr := []\<rparr>"
    unfolding skip_whitespace_def using c by (subst skip_loop.simps) (simp add: isWhitespace_def)
  show "tk (getNextToken lx) = Lex LEX_STR"
    "tkStr (getNextToken lx) = tkStr (dstring_loop (getNextCh (lx\<lparr>tk := Lex LEX_EOF, tkStr := [],
       tokenStart := dataPos lx - 2\<rparr>)))"
    using c w
    by (simp_all add: getNextToken.simps Let_def scan_token_def isAlpha_def isNumeric_def
        scan_dstring_def)
qed

text \<open>C37: what the lexer reads in a string literal that \<open>getJSString\<close> wrote.  The literal is one
  string token, and its text is the original one with every carriage return, bell and unprintable
  byte replaced by the letters of its escape, which the double-quoted branch of the lexer does not
  know: the string survives exactly when it has only line feeds and the bytes from 32 to 127.\<close>

theorem js_string_relex:
  "tk (CScriptLex c0 n0 (getJSString s)) = Lex LEX_STR \<and>
   tkStr (CScriptLex c0 n0 (getJSString s)) = concat (map relex s) \<and>
   (tkStr (CScriptLex c0 n0 (getJSString s)) = s \<longleftrightarrow> list_all plain s)"
proof -
  have q: "getJSString s = CHR 0x22 # concat (map esc s) @ [CHR 0x22]"
    by (simp add: getJSString_def js_loop_esc)
  have "takeWhile (\<lambda>c. c \<noteq> CHR 0x00) (getJSString s) = getJSString s"
    unfolding q takeWhile_eq_all_conv using esc_nul by auto
  then obtain l where l: "CScriptLex c0 n0 (getJSString s) = getNextToken l" "lex_ok l"
    "ahead l = CHR 0x22 # concat (map esc s) @ [CHR 0x22]"
    using CScriptLex_start [of c0 n0 "getJSString s"] q by auto
  let ?l = "l\<lparr>tk := Lex LEX_EOF, tkStr := [], tokenStart := dataPos l - 2\<rparr>"
  have "lex_ok (getNextCh ?l)" "ahead (getNextCh ?l) = concat (map esc s) @ [CHR 0x22]"
    using l getNextCh_ok [of ?l] getNextCh_ahead [of ?l] by simp_all
  then have "tkStr (dstring_loop (getNextCh ?l)) = concat (map relex s)"
    using dstring_loop_body [of "getNextCh ?l" s "[]"] by simp
  then show ?thesis
    using getNextToken_dstring [OF l(2,3)] l(1) relex_same by simp
qed

text \<open>C36: tokenising ends.  Whatever the input and whatever the two look-ahead characters of the
  new lexer held, after at most as many tokens as the input has characters the lexer is at the
  token for the end of the input, with nothing left to read.\<close>

theorem lexer_reaches_end:
  "\<exists>n \<le> length input. tk ((getNextToken ^^ n) (CScriptLex c0 n0 input)) = Lex LEX_EOF \<and>
     ahead ((getNextToken ^^ n) (CScriptLex c0 n0 input)) = []"
proof -
  obtain l where l: "CScriptLex c0 n0 input = getNextToken l" "lex_ok l"
    "ahead l = takeWhile (\<lambda>c. c \<noteq> CHR 0x00) input"
    using CScriptLex_start by blast
  have "length (ahead l) \<le> length input" using l(3) by (simp add: length_takeWhile_le)
  then show ?thesis using tokens_end [OF l(2)] l(1) by (auto intro: order_trans)
qed

text \<open>C35: a lexer stays well formed and its tokens are pieces of the input.  The next token leaves
  the look-ahead characters equal to the input at their positions, all reads within it, and takes
  at least one character unless it is the end of the input; an identifier, reserved
  word or number has a text, which is not empty and is the input from \<open>tokenStart\<close> to
  \<open>tokenEnd\<close>: it starts with a digit in a number, else with a letter, and then the kind of the token is that
  of the word; every other token but a string has no text.  A \<open>match\<close> that does not throw is the
  next token.\<close>

theorem lexer_well_formed:
  assumes "lex_ok lx" "lx' = getNextToken lx"
  shows "lex_ok lx' \<and> suffix (ahead lx') (ahead lx) \<and>
    (if tk lx' = Lex LEX_EOF then ahead lx' = [] else length (ahead lx') < length (ahead lx)) \<and>
    (if has_text (tk lx')
     then right_kind (tk lx') (tkStr lx') \<and>
       tkStr lx' = take (nat (tokenEnd lx' - tokenStart lx' + 1)) (drop (nat (tokenStart lx')) (data lx))
     else tk lx' \<noteq> Lex LEX_STR \<longrightarrow> tkStr lx' = []) \<and>
    (match lx t = Inr lx' \<longleftrightarrow> tk lx = t)"
proof -
  have "tk lx' \<noteq> Lex LEX_STR" if "has_text (tk lx')" using that by (auto simp: has_text_def)
  then show ?thesis
    using assms token_text [OF assms(1)] getNextToken_lexed [OF assms(1)] token_kind [of lx]
    by (auto simp: lexed_def match_def right_kind_def split: if_splits)
qed

theorem lexer_well_formed_witness:
  "\<exists>lx. lex_ok lx \<and> lex_ok (getNextToken lx) \<and> tkStr (getNextToken lx) = ''do'' \<and>
     take (nat (tokenEnd (getNextToken lx) - tokenStart (getNextToken lx) + 1))
       (drop (nat (tokenStart (getNextToken lx))) (data lx)) = ''do''"
proof -
  define lx where "lx = \<lparr>data = ''do;'', dataStart = 0, dataEnd = 3, dataPos = 2, currCh = CHR ''d'',
    nextCh = CHR ''o'', tk = Lex LEX_EOF, tokenStart = 0, tokenEnd = 0, tokenLastEnd = 0, tkStr = []\<rparr>"
  have ok: "lex_ok lx" by (simp add: lx_def lex_ok_def ch_at_def)
  have w: "skip_whitespace lx = lx" "currCh lx = CHR ''d''" "dataPos lx - 2 = 0"
    "lx\<lparr>tokenStart := 0\<rparr> = lx"
    unfolding skip_whitespace_def by (subst skip_loop.simps; simp add: lx_def isWhitespace_def)
      (simp_all add: lx_def)
  have k: "keep_loop (\<lambda>c. isAlpha c \<or> isNumeric c) lx = getNextCh (keep (getNextCh (keep lx)))"
    by (simp add: lx_def keep_loop.simps isAlpha_def isNumeric_def keep_def getNextCh_def)
  have t: "tkStr (getNextCh (keep (getNextCh (keep lx)))) = ''do''"
    by (simp add: lx_def keep_def getNextCh_def)
  have a: "isAlpha (CHR ''d'')" by (simp add: isAlpha_def)
  have "getNextToken lx = (let l = scan_id lx in l\<lparr>tokenLastEnd := tokenEnd l, tokenEnd := dataPos l - 3\<rparr>)"
    by (subst getNextToken.simps) (simp add: w a scan_token_def)
  then have "tkStr (getNextToken lx) = ''do''" "tk (getNextToken lx) = Lex LEX_R_DO"
    by (simp_all add: scan_id_def Let_def k t keyword_def del: getNextCh_simps)
  moreover have "has_text (Lex LEX_R_DO)" by (simp add: has_text_def)
  ultimately show ?thesis
    using lexer_well_formed [OF ok refl, of "Lex LEX_EOF"] ok by auto
qed

end
