(* ===== verification/UsbDriver.thy ===== *)
theory UsbDriver
  imports WordFacts "HOL-Library.Monad_Syntax"
begin

unbundle bit_operations_syntax

text \<open>
  The USB driver (\<^verbatim>\<open>os/hal/src/usb.c\<close>, \<^verbatim>\<open>os/hal/include/usb.h\<close>) with the state machine of endpoint
  zero, and the descriptors of the console (\<^verbatim>\<open>app/usbcfg.c\<close>).  The calls of the low level driver,
  which work on the registers of the peripheral, are recorded in the field \<open>lld\<close> in their order;
  what the driver reads from the peripheral is an argument.  The functions of a \<open>USBConfig\<close> are the
  parameter \<open>cfg\<close>.  A null pointer that is followed is \<open>None\<close>.  Of the configuration of an endpoint
  the callbacks are left out: endpoint zero always has those of \<^verbatim>\<open>usb.c\<close>.  The address is set as soon
  as the request arrives, as the low level driver of this platform asks for.
\<close>

type_synonym u16 = "16 word"
type_synonym usbep_t = nat

section \<open>Types\<close>

datatype usbstate_t = USB_UNINIT | USB_STOP | USB_READY | USB_SELECTED | USB_ACTIVE

datatype usbepstatus_t = EP_STATUS_DISABLED | EP_STATUS_STALLED | EP_STATUS_ACTIVE

datatype usbep0state_t =
    USB_EP0_WAITING_SETUP
  | USB_EP0_TX
  | USB_EP0_WAITING_TX0
  | USB_EP0_WAITING_STS
  | USB_EP0_RX
  | USB_EP0_SENDING_STS
  | USB_EP0_ERROR

datatype usbevent_t =
    USB_EVENT_RESET
  | USB_EVENT_ADDRESS
  | USB_EVENT_CONFIGURED
  | USB_EVENT_SUSPEND
  | USB_EVENT_WAKEUP
  | USB_EVENT_STALLED

datatype usb_buf = BNull | BStatus | BConfiguration | BConst "u8 list" | BAddr addr

datatype transfer_mode = Linear usb_buf | Queue addr

record USBInEndpointState =
  txmode :: transfer_mode
  txsize :: u32
  txcnt :: u32

record USBOutEndpointState =
  rxmode :: transfer_mode
  rxsize :: u32
  rxcnt :: u32

record USBEndpointConfig =
  ep_mode :: u32
  in_maxsize :: u16
  out_maxsize :: u16
  in_state :: addr
  out_state :: addr

datatype lld_call =
    LStart
  | LStop
  | LReset
  | LSetAddress u8
  | LInitEndpoint usbep_t
  | LDisableEndpoints
  | LPrepareReceive usbep_t
  | LPrepareTransmit usbep_t
  | LStartOut usbep_t
  | LStartIn usbep_t
  | LStallOut usbep_t
  | LStallIn usbep_t
  | LClearOut usbep_t
  | LClearIn usbep_t

record USBDriver =
  usb_state :: usbstate_t
  transmitting :: u16
  receiving :: u16
  epc :: "usbep_t \<Rightarrow> USBEndpointConfig option"
  in_params :: "nat \<Rightarrow> addr"
  out_params :: "nat \<Rightarrow> addr"
  ep0state :: usbep0state_t
  ep0next :: usb_buf
  ep0n :: u32
  ep0endcb :: addr
  setup_packet :: "u8 list"
  usb_status :: u16
  address :: u8
  configuration :: u8
  ins :: "addr \<Rightarrow> USBInEndpointState"
  outs :: "addr \<Rightarrow> USBOutEndpointState"
  lld :: "lld_call list"

record USBConfig =
  event_cb :: "(usbevent_t \<Rightarrow> USBDriver \<Rightarrow> USBDriver) option"
  get_descriptor_cb :: "u8 \<Rightarrow> u8 \<Rightarrow> u16 \<Rightarrow> u8 list option"
  requests_hook_cb :: "(USBDriver \<Rightarrow> bool \<times> USBDriver) option"
  end_cb :: "addr \<Rightarrow> USBDriver \<Rightarrow> USBDriver"

record usb_hw =
  status_in :: "usbep_t \<Rightarrow> usbepstatus_t"
  status_out :: "usbep_t \<Rightarrow> usbepstatus_t"
  ep0config :: USBEndpointConfig

definition USB_MAX_ENDPOINTS :: nat where
  "USB_MAX_ENDPOINTS = 3"

section \<open>The driver\<close>

definition call_lld :: "lld_call \<Rightarrow> USBDriver \<Rightarrow> USBDriver" where
  "call_lld c u = u\<lparr>lld := lld u @ [c]\<rparr>"

definition usbFetchWord :: "u8 \<Rightarrow> u8 \<Rightarrow> u16" where
  "usbFetchWord lo hi = (ucast lo :: u16) OR push_bit 8 (ucast hi :: u16)"

definition usbGetTransmitStatusI :: "USBDriver \<Rightarrow> usbep_t \<Rightarrow> bool" where
  "usbGetTransmitStatusI u ep \<longleftrightarrow> transmitting u AND push_bit ep 1 \<noteq> 0"

definition usbGetReceiveStatusI :: "USBDriver \<Rightarrow> usbep_t \<Rightarrow> bool" where
  "usbGetReceiveStatusI u ep \<longleftrightarrow> receiving u AND push_bit ep 1 \<noteq> 0"

definition usbSetupTransfer :: "usb_buf \<Rightarrow> u32 \<Rightarrow> addr \<Rightarrow> USBDriver \<Rightarrow> USBDriver" where
  "usbSetupTransfer buf n endcb u = u\<lparr>ep0next := buf, ep0n := n, ep0endcb := endcb\<rparr>"

definition usb_isr_invoke_event_cb :: "USBConfig \<Rightarrow> usbevent_t \<Rightarrow> USBDriver \<Rightarrow> USBDriver" where
  "usb_isr_invoke_event_cb cfg e u = (case event_cb cfg of None \<Rightarrow> u | Some f \<Rightarrow> f e u)"

definition set_address :: "USBConfig \<Rightarrow> USBDriver \<Rightarrow> USBDriver" where
  "set_address cfg u =
     (let u = u\<lparr>address := setup_packet u ! 2\<rparr>;
          u = call_lld (LSetAddress (address u)) u;
          u = usb_isr_invoke_event_cb cfg USB_EVENT_ADDRESS u
      in u\<lparr>usb_state := USB_SELECTED\<rparr>)"

definition zero_status :: "u8 list" where
  "zero_status = [0, 0]"

definition active_status :: "u8 list" where
  "active_status = [0, 0]"

definition halted_status :: "u8 list" where
  "halted_status = [1, 0]"

definition request_code :: "USBDriver \<Rightarrow> u32" where
  "request_code u =
     ucast (setup_packet u ! 0 AND (0x1F OR 0x60)) OR push_bit 8 (ucast (setup_packet u ! 1))"

definition endpoint_status :: "usb_hw \<Rightarrow> USBDriver \<Rightarrow> bool \<times> USBDriver" where
  "endpoint_status hw u =
     (let ep = unat (setup_packet u ! 4 AND 0x0F);
          st = (if setup_packet u ! 4 AND 0x80 \<noteq> 0 then status_in hw ep else status_out hw ep)
      in case st of
           EP_STATUS_STALLED \<Rightarrow> (True, usbSetupTransfer (BConst halted_status) 2 0 u)
         | EP_STATUS_ACTIVE \<Rightarrow> (True, usbSetupTransfer (BConst active_status) 2 0 u)
         | EP_STATUS_DISABLED \<Rightarrow> (False, u))"

definition endpoint_halt :: "(usbep_t \<Rightarrow> lld_call) \<Rightarrow> (usbep_t \<Rightarrow> lld_call) \<Rightarrow> USBDriver \<Rightarrow> bool \<times> USBDriver" where
  "endpoint_halt in_op out_op u =
     (if setup_packet u ! 2 \<noteq> 0 then (False, u)
      else
        let ep = setup_packet u ! 4 AND 0x0F;
            u = (if ep > 0 then
                   if setup_packet u ! 4 AND 0x80 \<noteq> 0 then call_lld (in_op (unat ep)) u
                   else call_lld (out_op (unat ep)) u
                 else u)
        in (True, usbSetupTransfer BNull 0 0 u))"

definition default_handler :: "USBConfig \<Rightarrow> usb_hw \<Rightarrow> USBDriver \<Rightarrow> bool \<times> USBDriver" where
  "default_handler cfg hw u =
     (let r = request_code u; s = (\<lambda>i. setup_packet u ! i)
      in if r = 0x000 then (True, usbSetupTransfer BStatus 2 0 u)
         else if r = 0x100 then
           if s 2 = 1 then (True, usbSetupTransfer BNull 0 0 (u\<lparr>usb_status := usb_status u AND NOT 2\<rparr>))
           else (False, u)
         else if r = 0x300 then
           if s 2 = 1 then (True, usbSetupTransfer BNull 0 0 (u\<lparr>usb_status := usb_status u OR 2\<rparr>))
           else (False, u)
         else if r = 0x500 then
           let u = (if s 0 = 0 \<and> s 1 = 5 then set_address cfg u else u)
           in (True, usbSetupTransfer BNull 0 0 u)
         else if r = 0x600 then
           (case get_descriptor_cb cfg (s 3) (s 2) (usbFetchWord (s 4) (s 5)) of
              None \<Rightarrow> (False, u)
            | Some d \<Rightarrow> (True, usbSetupTransfer (BConst d) (of_nat (length d)) 0 u))
         else if r = 0x800 then (True, usbSetupTransfer BConfiguration 1 0 u)
         else if r = 0x900 then
           let u = u\<lparr>configuration := s 2\<rparr>;
               u = u\<lparr>usb_state := (if configuration u = 0 then USB_SELECTED else USB_ACTIVE)\<rparr>;
               u = usb_isr_invoke_event_cb cfg USB_EVENT_CONFIGURED u
           in (True, usbSetupTransfer BNull 0 0 u)
         else if r = 0x001 \<or> r = 0xC02 then (True, usbSetupTransfer (BConst zero_status) 2 0 u)
         else if r = 0x002 then endpoint_status hw u
         else if r = 0x102 then endpoint_halt LClearIn LClearOut u
         else if r = 0x302 then endpoint_halt LStallIn LStallOut u
         else (False, u))"

definition usbObjectInit :: "USBDriver \<Rightarrow> USBDriver" where
  "usbObjectInit u =
     u\<lparr>usb_state := USB_STOP,
       in_params := (\<lambda>i. if i < USB_MAX_ENDPOINTS then 0 else in_params u i),
       out_params := (\<lambda>i. if i < USB_MAX_ENDPOINTS then 0 else out_params u i),
       transmitting := 0, receiving := 0\<rparr>"

definition clear_epc :: "nat \<Rightarrow> USBDriver \<Rightarrow> USBDriver" where
  "clear_epc from u =
     u\<lparr>epc := (\<lambda>i. if from \<le> i \<and> i \<le> USB_MAX_ENDPOINTS then None else epc u i)\<rparr>"

definition usbStart :: "USBDriver \<Rightarrow> USBDriver" where
  "usbStart u = (call_lld LStart (clear_epc 0 u))\<lparr>usb_state := USB_READY\<rparr>"

definition usbStop :: "USBDriver \<Rightarrow> USBDriver" where
  "usbStop u = (call_lld LStop u)\<lparr>usb_state := USB_STOP\<rparr>"

definition usbInitEndpointI :: "usbep_t \<Rightarrow> USBEndpointConfig \<Rightarrow> USBDriver \<Rightarrow> USBDriver" where
  "usbInitEndpointI ep epcp u =
     (let u = (if in_state epcp \<noteq> 0 then
                 u\<lparr>ins := (ins u)(in_state epcp := \<lparr>txmode = Linear BNull, txsize = 0, txcnt = 0\<rparr>)\<rparr>
               else u);
          u = (if out_state epcp \<noteq> 0 then
                 u\<lparr>outs := (outs u)(out_state epcp := \<lparr>rxmode = Linear BNull, rxsize = 0, rxcnt = 0\<rparr>)\<rparr>
               else u);
          u = u\<lparr>epc := (epc u)(ep := Some epcp)\<rparr>
      in call_lld (LInitEndpoint ep) u)"

definition usbDisableEndpointsI :: "USBDriver \<Rightarrow> USBDriver" where
  "usbDisableEndpointsI u =
     (let u = u\<lparr>transmitting := transmitting u AND NOT 1, receiving := receiving u AND NOT 1\<rparr>
      in call_lld LDisableEndpoints (clear_epc 1 u))"

definition prepare_out :: "transfer_mode \<Rightarrow> usbep_t \<Rightarrow> u32 \<Rightarrow> USBDriver \<Rightarrow> USBDriver option" where
  "prepare_out m ep n u =
     do {
       c \<leftarrow> epc u ep;
       if out_state c = 0 then None
       else Some (call_lld (LPrepareReceive ep)
         (u\<lparr>outs := (outs u)(out_state c := \<lparr>rxmode = m, rxsize = n, rxcnt = 0\<rparr>)\<rparr>))
     }"

definition prepare_in :: "transfer_mode \<Rightarrow> usbep_t \<Rightarrow> u32 \<Rightarrow> USBDriver \<Rightarrow> USBDriver option" where
  "prepare_in m ep n u =
     do {
       c \<leftarrow> epc u ep;
       if in_state c = 0 then None
       else Some (call_lld (LPrepareTransmit ep)
         (u\<lparr>ins := (ins u)(in_state c := \<lparr>txmode = m, txsize = n, txcnt = 0\<rparr>)\<rparr>))
     }"

definition usbPrepareReceive :: "usbep_t \<Rightarrow> usb_buf \<Rightarrow> u32 \<Rightarrow> USBDriver \<Rightarrow> USBDriver option" where
  "usbPrepareReceive ep buf n u = prepare_out (Linear buf) ep n u"

definition usbPrepareTransmit :: "usbep_t \<Rightarrow> usb_buf \<Rightarrow> u32 \<Rightarrow> USBDriver \<Rightarrow> USBDriver option" where
  "usbPrepareTransmit ep buf n u = prepare_in (Linear buf) ep n u"

definition usbPrepareQueuedReceive :: "usbep_t \<Rightarrow> addr \<Rightarrow> u32 \<Rightarrow> USBDriver \<Rightarrow> USBDriver option" where
  "usbPrepareQueuedReceive ep iqp n u = prepare_out (Queue iqp) ep n u"

definition usbPrepareQueuedTransmit :: "usbep_t \<Rightarrow> addr \<Rightarrow> u32 \<Rightarrow> USBDriver \<Rightarrow> USBDriver option" where
  "usbPrepareQueuedTransmit ep oqp n u = prepare_in (Queue oqp) ep n u"

definition usbStartReceiveI :: "usbep_t \<Rightarrow> USBDriver \<Rightarrow> bool \<times> USBDriver" where
  "usbStartReceiveI ep u =
     (if usbGetReceiveStatusI u ep then (True, u)
      else (False, call_lld (LStartOut ep) (u\<lparr>receiving := receiving u OR push_bit ep 1\<rparr>)))"

definition usbStartTransmitI :: "usbep_t \<Rightarrow> USBDriver \<Rightarrow> bool \<times> USBDriver" where
  "usbStartTransmitI ep u =
     (if usbGetTransmitStatusI u ep then (True, u)
      else (False, call_lld (LStartIn ep) (u\<lparr>transmitting := transmitting u OR push_bit ep 1\<rparr>)))"

definition usbStallReceiveI :: "usbep_t \<Rightarrow> USBDriver \<Rightarrow> bool \<times> USBDriver" where
  "usbStallReceiveI ep u =
     (if usbGetReceiveStatusI u ep then (True, u) else (False, call_lld (LStallOut ep) u))"

definition usbStallTransmitI :: "usbep_t \<Rightarrow> USBDriver \<Rightarrow> bool \<times> USBDriver" where
  "usbStallTransmitI ep u =
     (if usbGetTransmitStatusI u ep then (True, u) else (False, call_lld (LStallIn ep) u))"

definition usb_reset :: "usb_hw \<Rightarrow> USBDriver \<Rightarrow> USBDriver" where
  "usb_reset hw u =
     (let u = u\<lparr>usb_state := USB_READY, usb_status := 0, address := 0, configuration := 0,
                transmitting := 0, receiving := 0\<rparr>;
          u = clear_epc 0 u;
          u = u\<lparr>ep0state := USB_EP0_WAITING_SETUP\<rparr>
      in call_lld LReset (u\<lparr>epc := (epc u)(0 := Some (ep0config hw))\<rparr>))"

section \<open>Endpoint zero\<close>

definition ep0_error :: "USBConfig \<Rightarrow> USBDriver \<Rightarrow> USBDriver" where
  "ep0_error cfg u =
     (let u = call_lld (LStallOut 0) (call_lld (LStallIn 0) u);
          u = usb_isr_invoke_event_cb cfg USB_EVENT_STALLED u
      in u\<lparr>ep0state := USB_EP0_ERROR\<rparr>)"

definition ep0_transmit :: "usb_buf \<Rightarrow> u32 \<Rightarrow> USBDriver \<Rightarrow> USBDriver option" where
  "ep0_transmit buf n u = map_option (snd \<circ> usbStartTransmitI 0) (usbPrepareTransmit 0 buf n u)"

definition ep0_receive :: "usb_buf \<Rightarrow> u32 \<Rightarrow> USBDriver \<Rightarrow> USBDriver option" where
  "ep0_receive buf n u = map_option (snd \<circ> usbStartReceiveI 0) (usbPrepareReceive 0 buf n u)"

definition ep0_data :: "USBDriver \<Rightarrow> USBDriver option" where
  "ep0_data u =
     (let max = ucast (usbFetchWord (setup_packet u ! 6) (setup_packet u ! 7)) :: u32;
          u = (if ep0n u > max then u\<lparr>ep0n := max\<rparr> else u)
      in if setup_packet u ! 0 AND 0x80 = 0x80 then
           if ep0n u > 0 then ep0_transmit (ep0next u) (ep0n u) (u\<lparr>ep0state := USB_EP0_TX\<rparr>)
           else ep0_receive BNull 0 (u\<lparr>ep0state := USB_EP0_WAITING_STS\<rparr>)
         else
           if ep0n u > 0 then ep0_receive (ep0next u) (ep0n u) (u\<lparr>ep0state := USB_EP0_RX\<rparr>)
           else ep0_transmit BNull 0 (u\<lparr>ep0state := USB_EP0_SENDING_STS\<rparr>))"

definition ep0_request :: "USBConfig \<Rightarrow> usb_hw \<Rightarrow> USBDriver \<Rightarrow> bool \<times> USBDriver" where
  "ep0_request cfg hw u =
     (let (handled, u) = (case requests_hook_cb cfg of None \<Rightarrow> (False, u) | Some f \<Rightarrow> f u)
      in if handled then (True, u)
         else if setup_packet u ! 0 AND 0x60 \<noteq> 0 then (False, u)
         else default_handler cfg hw u)"

definition usb_ep0setup :: "USBConfig \<Rightarrow> usb_hw \<Rightarrow> u8 list \<Rightarrow> USBDriver \<Rightarrow> USBDriver option" where
  "usb_ep0setup cfg hw packet u =
     (let u = u\<lparr>ep0state := USB_EP0_WAITING_SETUP, setup_packet := packet\<rparr>;
          (handled, u) = ep0_request cfg hw u
      in if handled then ep0_data u else Some (ep0_error cfg u))"

definition ep0_end :: "USBConfig \<Rightarrow> USBDriver \<Rightarrow> USBDriver" where
  "ep0_end cfg u =
     (let u = (if ep0endcb u \<noteq> 0 then end_cb cfg (ep0endcb u) u else u)
      in u\<lparr>ep0state := USB_EP0_WAITING_SETUP\<rparr>)"

definition ep0_wait_status :: "USBDriver \<Rightarrow> USBDriver option" where
  "ep0_wait_status u = ep0_receive BNull 0 (u\<lparr>ep0state := USB_EP0_WAITING_STS\<rparr>)"

definition usb_ep0in :: "USBConfig \<Rightarrow> USBDriver \<Rightarrow> USBDriver option" where
  "usb_ep0in cfg u =
     (case ep0state u of
        USB_EP0_TX \<Rightarrow>
          do {
            let max = (ucast (usbFetchWord (setup_packet u ! 6) (setup_packet u ! 7)) :: u32);
            zlp \<leftarrow> (if ep0n u < max then
                      map_option (\<lambda>c. ep0n u mod ucast (in_maxsize c) = 0) (epc u 0)
                    else Some False);
            if zlp then
              map_option (\<lambda>u. u\<lparr>ep0state := USB_EP0_WAITING_TX0\<rparr>) (ep0_transmit BNull 0 u)
            else ep0_wait_status u
          }
      | USB_EP0_WAITING_TX0 \<Rightarrow> ep0_wait_status u
      | USB_EP0_SENDING_STS \<Rightarrow> Some (ep0_end cfg u)
      | _ \<Rightarrow> Some (ep0_error cfg u))"

definition usb_ep0out :: "USBConfig \<Rightarrow> USBDriver \<Rightarrow> USBDriver option" where
  "usb_ep0out cfg u =
     (case ep0state u of
        USB_EP0_RX \<Rightarrow> ep0_transmit BNull 0 (u\<lparr>ep0state := USB_EP0_SENDING_STS\<rparr>)
      | USB_EP0_WAITING_STS \<Rightarrow>
          do {
            c \<leftarrow> epc u 0;
            if out_state c = 0 then None
            else if rxcnt (outs u (out_state c)) \<noteq> 0 then Some (ep0_error cfg u)
            else Some (ep0_end cfg u)
          }
      | _ \<Rightarrow> Some (ep0_error cfg u))"

definition ep0_in_done :: "USBConfig \<Rightarrow> USBDriver \<Rightarrow> USBDriver option" where
  "ep0_in_done cfg u = usb_ep0in cfg (u\<lparr>transmitting := transmitting u AND NOT (push_bit 0 1)\<rparr>)"

definition ep0_out_done :: "USBConfig \<Rightarrow> u32 \<Rightarrow> USBDriver \<Rightarrow> USBDriver option" where
  "ep0_out_done cfg n u =
     do {
       c \<leftarrow> epc u 0;
       if out_state c = 0 then None
       else usb_ep0out cfg
         (u\<lparr>outs := (outs u)(out_state c := (outs u (out_state c))\<lparr>rxcnt := n\<rparr>),
            receiving := receiving u AND NOT (push_bit 0 1)\<rparr>)
     }"

section \<open>What the callbacks may do\<close>

definition ep0_frame :: "USBDriver \<Rightarrow> USBDriver \<Rightarrow> bool" where
  "ep0_frame u v \<longleftrightarrow> epc v 0 = epc u 0 \<and> ep0state v = ep0state u \<and>
     setup_packet v = setup_packet u \<and> bit (transmitting v) 0 = bit (transmitting u) 0 \<and>
     bit (receiving v) 0 = bit (receiving u) 0"

definition callbacks_ok :: "USBConfig \<Rightarrow> bool" where
  "callbacks_ok cfg \<longleftrightarrow>
     (\<forall>f e u. event_cb cfg = Some f \<longrightarrow> ep0_frame u (f e u)) \<and>
     (\<forall>f u. requests_hook_cb cfg = Some f \<longrightarrow> ep0_frame u (snd (f u))) \<and>
     (\<forall>a u. ep0_frame u (end_cb cfg a u))"

lemma ep0_frame_refl [simp]: "ep0_frame u u"
  by (simp add: ep0_frame_def)

lemma ep0_frame_trans: "ep0_frame u v \<Longrightarrow> ep0_frame v w \<Longrightarrow> ep0_frame u w"
  by (simp add: ep0_frame_def)

lemma ep0_frame_updates [simp]:
  "ep0_frame u (call_lld c v) = ep0_frame u v"
  "ep0_frame u (usbSetupTransfer b n cb v) = ep0_frame u v"
  "ep0_frame u (v\<lparr>usb_state := s\<rparr>) = ep0_frame u v"
  "ep0_frame u (v\<lparr>address := a\<rparr>) = ep0_frame u v"
  "ep0_frame u (v\<lparr>configuration := k\<rparr>) = ep0_frame u v"
  "ep0_frame u (v\<lparr>usb_status := t\<rparr>) = ep0_frame u v"
  by (simp_all add: ep0_frame_def call_lld_def usbSetupTransfer_def)

lemma event_frame: "callbacks_ok cfg \<Longrightarrow> ep0_frame u v \<Longrightarrow> ep0_frame u (usb_isr_invoke_event_cb cfg e v)"
  unfolding usb_isr_invoke_event_cb_def callbacks_ok_def
  by (auto split: option.split intro: ep0_frame_trans)

lemma set_address_frame: "callbacks_ok cfg \<Longrightarrow> ep0_frame u (set_address cfg u)"
  by (simp add: set_address_def Let_def event_frame)

lemma default_handler_frame:
  assumes "callbacks_ok cfg"
  shows "ep0_frame u (snd (default_handler cfg hw u))"
proof -
  have "ep0_frame u (snd (endpoint_status hw u))" "ep0_frame u (snd (endpoint_halt f g u))" for f g
    by (simp_all add: endpoint_status_def endpoint_halt_def Let_def split: usbepstatus_t.split)
  then show ?thesis
    using assms unfolding default_handler_def Let_def
    by (simp add: event_frame set_address_frame split: option.split)
qed

lemma ep0_request_frame:
  assumes "callbacks_ok cfg"
  shows "ep0_frame u (snd (ep0_request cfg hw u))"
proof -
  have h: "ep0_frame u (snd (case requests_hook_cb cfg of None \<Rightarrow> (False, u) | Some f \<Rightarrow> f u))"
    using assms by (auto simp: callbacks_ok_def split: option.split)
  show ?thesis
    using h default_handler_frame [OF assms]
    by (auto simp: ep0_request_def Let_def split: prod.split intro: ep0_frame_trans)
qed

section \<open>The transfers of endpoint zero\<close>

lemma transmit_status_bit: "usbGetTransmitStatusI u ep = bit (transmitting u) ep"
  by (simp add: usbGetTransmitStatusI_def bit_iff_and_push_bit_not_eq_0)

lemma receive_status_bit: "usbGetReceiveStatusI u ep = bit (receiving u) ep"
  by (simp add: usbGetReceiveStatusI_def bit_iff_and_push_bit_not_eq_0)

definition transmits :: "USBDriver \<Rightarrow> bool" where
  "transmits u \<longleftrightarrow> bit (transmitting u) 0"

definition receives :: "USBDriver \<Rightarrow> bool" where
  "receives u \<longleftrightarrow> bit (receiving u) 0"

text \<open>Endpoint zero has memory for the state of its transfers in both directions.\<close>

definition ep0_ok :: "USBEndpointConfig \<Rightarrow> bool" where
  "ep0_ok c \<longleftrightarrow> in_state c \<noteq> 0 \<and> out_state c \<noteq> 0"

lemma ep0_transmit_idle:
  assumes "epc u 0 = Some c \<and> ep0_ok c" "\<not> transmits u"
  shows "\<exists>v. ep0_transmit b n u = Some v \<and> transmits v \<and> receives v = receives u \<and>
    epc v = epc u \<and> ep0state v = ep0state u \<and> setup_packet v = setup_packet u \<and>
    ep0n v = ep0n u \<and> ep0next v = ep0next u \<and> ep0endcb v = ep0endcb u \<and>
    lld v = lld u @ [LPrepareTransmit 0, LStartIn 0] \<and>
    ins v (in_state c) = \<lparr>txmode = Linear b, txsize = n, txcnt = 0\<rparr> \<and> outs v = outs u"
  using assms
  by (simp add: ep0_transmit_def usbPrepareTransmit_def prepare_in_def usbStartTransmitI_def
      transmit_status_bit ep0_ok_def call_lld_def transmits_def receives_def bit_or_iff bit_1_iff)

lemma ep0_receive_idle:
  assumes "epc u 0 = Some c \<and> ep0_ok c" "\<not> receives u"
  shows "\<exists>v. ep0_receive b n u = Some v \<and> receives v \<and> transmits v = transmits u \<and>
    epc v = epc u \<and> ep0state v = ep0state u \<and> setup_packet v = setup_packet u \<and>
    ep0n v = ep0n u \<and> ep0next v = ep0next u \<and> ep0endcb v = ep0endcb u \<and>
    lld v = lld u @ [LPrepareReceive 0, LStartOut 0] \<and>
    outs v (out_state c) = \<lparr>rxmode = Linear b, rxsize = n, rxcnt = 0\<rparr> \<and> ins v = ins u"
  using assms
  by (simp add: ep0_receive_def usbPrepareReceive_def prepare_out_def usbStartReceiveI_def
      receive_status_bit ep0_ok_def call_lld_def transmits_def receives_def bit_or_iff bit_1_iff)

lemma ep0_transmit_busy:
  assumes "epc u 0 = Some c \<and> ep0_ok c" "transmits u"
  shows "\<exists>v. ep0_transmit b n u = Some v \<and> lld v = lld u @ [LPrepareTransmit 0] \<and>
    ep0state v = ep0state u \<and> transmits v"
  using assms
  by (simp add: ep0_transmit_def usbPrepareTransmit_def prepare_in_def usbStartTransmitI_def
      transmit_status_bit ep0_ok_def call_lld_def transmits_def)

datatype bus_event = Reset | Setup "u8 list" | InDone | OutDone u32

fun usb_step :: "USBConfig \<Rightarrow> usb_hw \<Rightarrow> bus_event \<Rightarrow> USBDriver \<Rightarrow> USBDriver option" where
  "usb_step cfg hw Reset u = Some (usb_reset hw u)"
| "usb_step cfg hw (Setup packet) u = usb_ep0setup cfg hw packet u"
| "usb_step cfg hw InDone u = ep0_in_done cfg u"
| "usb_step cfg hw (OutDone n) u = ep0_out_done cfg n u"

fun allowed :: "USBDriver \<Rightarrow> bus_event \<Rightarrow> bool" where
  "allowed u Reset = True"
| "allowed u (Setup packet) = (\<not> transmits u \<and> \<not> receives u)"
| "allowed u InDone = transmits u"
| "allowed u (OutDone n) = receives u"

inductive reach :: "USBConfig \<Rightarrow> usb_hw \<Rightarrow> USBDriver \<Rightarrow> bool" for cfg hw where
  start: "reach cfg hw (usb_reset hw u)"
| step: "reach cfg hw u \<Longrightarrow> allowed u e \<Longrightarrow> usb_step cfg hw e u = Some v \<Longrightarrow> reach cfg hw v"

definition ep0_inv :: "USBDriver \<Rightarrow> bool" where
  "ep0_inv u \<longleftrightarrow> (\<exists>c. epc u 0 = Some c \<and> ep0_ok c) \<and>
     transmits u = (ep0state u \<in> {USB_EP0_TX, USB_EP0_WAITING_TX0, USB_EP0_SENDING_STS}) \<and>
     receives u = (ep0state u \<in> {USB_EP0_RX, USB_EP0_WAITING_STS})"

lemma frame_bits: "ep0_frame u v \<Longrightarrow> transmits v = transmits u \<and> receives v = receives u \<and>
  epc v 0 = epc u 0 \<and> ep0state v = ep0state u \<and> setup_packet v = setup_packet u"
  by (simp add: ep0_frame_def transmits_def receives_def)

lemma bits_updates [simp]:
  "transmits (u\<lparr>ep0state := s\<rparr>) = transmits u" "receives (u\<lparr>ep0state := s\<rparr>) = receives u"
  "transmits (u\<lparr>ep0n := k\<rparr>) = transmits u" "receives (u\<lparr>ep0n := k\<rparr>) = receives u"
  "transmits (u\<lparr>setup_packet := p\<rparr>) = transmits u" "receives (u\<lparr>setup_packet := p\<rparr>) = receives u"
  "transmits (u\<lparr>outs := f\<rparr>) = transmits u" "receives (u\<lparr>outs := f\<rparr>) = receives u"
  "transmits (u\<lparr>receiving := r\<rparr>) = transmits u" "receives (u\<lparr>transmitting := r\<rparr>) = receives u"
  by (simp_all add: transmits_def receives_def)

lemma reset_inv: "ep0_ok (ep0config hw) \<Longrightarrow> ep0_inv (usb_reset hw u)"
  by (simp add: usb_reset_def Let_def call_lld_def clear_epc_def ep0_inv_def transmits_def receives_def)

lemma ep0_error_inv:
  assumes "callbacks_ok cfg" "epc u 0 = Some c \<and> ep0_ok c" "\<not> transmits u" "\<not> receives u"
  shows "ep0_inv (ep0_error cfg u)"
proof -
  have "ep0_frame u (usb_isr_invoke_event_cb cfg USB_EVENT_STALLED
      (call_lld (LStallOut 0) (call_lld (LStallIn 0) u)))"
    by (rule event_frame [OF assms(1)]) simp
  from frame_bits [OF this] show ?thesis
    using assms by (simp add: ep0_error_def Let_def ep0_inv_def)
qed

lemma ep0_end_inv:
  assumes "callbacks_ok cfg" "epc u 0 = Some c \<and> ep0_ok c" "\<not> transmits u" "\<not> receives u"
  shows "ep0_inv (ep0_end cfg u)"
proof -
  have "ep0_frame u (end_cb cfg (ep0endcb u) u)" using assms(1) by (simp add: callbacks_ok_def)
  from frame_bits [OF this] show ?thesis
    using assms by (simp add: ep0_end_def Let_def ep0_inv_def)
qed

lemma ep0_transmit_inv:
  assumes "epc u 0 = Some c \<and> ep0_ok c" "\<not> transmits u" "\<not> receives u"
    "s \<in> {USB_EP0_TX, USB_EP0_WAITING_TX0, USB_EP0_SENDING_STS}"
  shows "\<exists>v. ep0_transmit b n (u\<lparr>ep0state := s\<rparr>) = Some v \<and> ep0_inv v"
  using ep0_transmit_idle [of "u\<lparr>ep0state := s\<rparr>" c b n] assms by (auto simp: ep0_inv_def)

lemma ep0_receive_inv:
  assumes "epc u 0 = Some c \<and> ep0_ok c" "\<not> transmits u" "\<not> receives u"
    "s \<in> {USB_EP0_RX, USB_EP0_WAITING_STS}"
  shows "\<exists>v. ep0_receive b n (u\<lparr>ep0state := s\<rparr>) = Some v \<and> ep0_inv v"
  using ep0_receive_idle [of "u\<lparr>ep0state := s\<rparr>" c b n] assms by (auto simp: ep0_inv_def)

lemma ep0_data_inv:
  assumes "epc u 0 = Some c \<and> ep0_ok c" "\<not> transmits u" "\<not> receives u"
  shows "\<exists>v. ep0_data u = Some v \<and> ep0_inv v"
  unfolding ep0_data_def Let_def
  using assms by (auto intro!: ep0_transmit_inv ep0_receive_inv)

lemma setup_inv:
  assumes "callbacks_ok cfg" "epc u 0 = Some c \<and> ep0_ok c" "\<not> transmits u" "\<not> receives u"
  shows "\<exists>v. usb_ep0setup cfg hw packet u = Some v \<and> ep0_inv v"
proof -
  let ?u = "u\<lparr>ep0state := USB_EP0_WAITING_SETUP, setup_packet := packet\<rparr>"
  obtain h v where r: "ep0_request cfg hw ?u = (h, v)" by fastforce
  have "ep0_frame ?u v" using ep0_request_frame [OF assms(1), of ?u hw] r by simp
  from frame_bits [OF this] have v: "epc v 0 = Some c \<and> ep0_ok c" "\<not> transmits v" "\<not> receives v"
    using assms by simp_all
  show ?thesis
    using ep0_data_inv [OF v] ep0_error_inv [OF assms(1) v] r by (simp add: usb_ep0setup_def)
qed

lemma not_bit_0: "\<not> bit (w AND NOT (push_bit 0 1) :: u16) 0"
  by (simp add: bit_and_iff bit_not_iff bit_1_iff)

lemma in_done_inv:
  assumes "callbacks_ok cfg" "ep0_inv u" "transmits u"
  shows "\<exists>v. ep0_in_done cfg u = Some v \<and> ep0_inv v"
proof -
  let ?u = "u\<lparr>transmitting := transmitting u AND NOT (push_bit 0 1)\<rparr>"
  obtain c where c: "epc ?u 0 = Some c \<and> ep0_ok c" using assms(2) by (auto simp: ep0_inv_def)
  have b: "\<not> transmits ?u" "\<not> receives ?u" "ep0state ?u = ep0state u"
    using assms not_bit_0 [of "transmitting u"] by (auto simp: ep0_inv_def transmits_def receives_def)
  obtain v where "ep0_transmit BNull 0 ?u = Some v" "ep0_inv (v\<lparr>ep0state := USB_EP0_WAITING_TX0\<rparr>)"
    using ep0_transmit_idle [OF c b(1), of BNull 0] b c by (auto simp: ep0_inv_def)
  moreover have "\<exists>v. ep0_wait_status ?u = Some v \<and> ep0_inv v"
    unfolding ep0_wait_status_def by (rule ep0_receive_inv [OF c b(1,2)]) simp
  moreover have "ep0state u \<in> {USB_EP0_TX, USB_EP0_WAITING_TX0, USB_EP0_SENDING_STS}"
    using assms by (simp add: ep0_inv_def)
  ultimately show ?thesis
    using ep0_end_inv [OF assms(1) c b(1,2)] c
    by (auto simp: ep0_in_done_def usb_ep0in_def Let_def)
qed

lemma out_done_inv:
  assumes "callbacks_ok cfg" "ep0_inv u" "receives u"
  shows "\<exists>v. ep0_out_done cfg n u = Some v \<and> ep0_inv v"
proof -
  obtain c where c: "epc u 0 = Some c \<and> ep0_ok c" using assms(2) by (auto simp: ep0_inv_def)
  let ?u = "u\<lparr>outs := (outs u)(out_state c := (outs u (out_state c))\<lparr>rxcnt := n\<rparr>),
            receiving := receiving u AND NOT (push_bit 0 1)\<rparr>"
  have c': "epc ?u 0 = Some c \<and> ep0_ok c" using c by simp
  have b: "\<not> transmits ?u" "\<not> receives ?u" "ep0state ?u = ep0state u"
    using assms not_bit_0 [of "receiving u"] by (auto simp: ep0_inv_def transmits_def receives_def)
  have "\<exists>v. ep0_transmit BNull 0 (?u\<lparr>ep0state := USB_EP0_SENDING_STS\<rparr>) = Some v \<and> ep0_inv v"
    by (rule ep0_transmit_inv [OF c' b(1,2)]) simp
  moreover have "ep0state u \<in> {USB_EP0_RX, USB_EP0_WAITING_STS}"
    using assms by (auto simp: ep0_inv_def)
  ultimately show ?thesis
    using ep0_end_inv [OF assms(1) c' b(1,2)] ep0_error_inv [OF assms(1) c' b(1,2)] c
    by (auto simp: ep0_out_done_def usb_ep0out_def ep0_ok_def)
qed

lemma step_inv:
  assumes "callbacks_ok cfg" "ep0_inv u" "allowed u e" "ep0_ok (ep0config hw)"
  shows "\<exists>v. usb_step cfg hw e u = Some v \<and> ep0_inv v"
proof (cases e)
  case (Setup packet)
  obtain c where c: "epc u 0 = Some c \<and> ep0_ok c" using assms(2) by (auto simp: ep0_inv_def)
  show ?thesis using setup_inv [OF assms(1) c] assms(3) Setup by simp
qed (use assms reset_inv in_done_inv out_done_inv in auto)

section \<open>Whole control transfers\<close>

fun usb_run :: "USBConfig \<Rightarrow> usb_hw \<Rightarrow> bus_event list \<Rightarrow> USBDriver \<Rightarrow> USBDriver option" where
  "usb_run cfg hw [] u = Some u"
| "usb_run cfg hw (e # es) u =
     (case usb_step cfg hw e u of None \<Rightarrow> None | Some v \<Rightarrow> usb_run cfg hw es v)"

definition w_length :: "u8 list \<Rightarrow> u32" where
  "w_length packet = ucast (usbFetchWord (packet ! 6) (packet ! 7))"

definition ep0_at ::
  "USBEndpointConfig \<Rightarrow> u8 list \<Rightarrow> u32 \<Rightarrow> usbep0state_t \<Rightarrow> lld_call list \<Rightarrow> USBDriver \<Rightarrow> bool" where
  "ep0_at c packet n s calls u \<longleftrightarrow> epc u 0 = Some c \<and> ep0_ok c \<and> ep0state u = s \<and> ep0_inv u \<and>
     setup_packet u = packet \<and> ep0n u = n \<and> ep0endcb u = 0 \<and> lld u = calls"

abbreviation tx_calls :: "lld_call list" where
  "tx_calls \<equiv> [LPrepareTransmit 0, LStartIn 0]"

abbreviation rx_calls :: "lld_call list" where
  "rx_calls \<equiv> [LPrepareReceive 0, LStartOut 0]"

definition needs_zlp :: "USBEndpointConfig \<Rightarrow> u8 list \<Rightarrow> u32 \<Rightarrow> bool" where
  "needs_zlp c packet n \<longleftrightarrow> n < w_length packet \<and> n mod ucast (in_maxsize c) = 0"

lemma in_done_bits:
  assumes "ep0_at c packet n s l u" "s \<in> {USB_EP0_TX, USB_EP0_WAITING_TX0, USB_EP0_SENDING_STS}"
  shows "\<not> transmits (u\<lparr>transmitting := transmitting u AND NOT (push_bit 0 1)\<rparr>)"
    "\<not> receives (u\<lparr>transmitting := transmitting u AND NOT (push_bit 0 1)\<rparr>)"
  using assms not_bit_0 [of "transmitting u"]
  by (auto simp: ep0_at_def ep0_inv_def transmits_def receives_def)

lemma read_zlp:
  assumes "ep0_at c packet n USB_EP0_TX l u" "needs_zlp c packet n"
  shows "\<exists>v. ep0_in_done cfg u = Some v \<and> ep0_at c packet n USB_EP0_WAITING_TX0 (l @ tx_calls) v"
proof -
  let ?u = "u\<lparr>transmitting := transmitting u AND NOT (push_bit 0 1)\<rparr>"
  have c: "epc ?u 0 = Some c \<and> ep0_ok c" using assms(1) by (simp add: ep0_at_def)
  note b = in_done_bits [OF assms(1)]
  show ?thesis
    using ep0_transmit_idle [OF c b(1), of BNull 0] b assms
    by (auto simp: ep0_in_done_def usb_ep0in_def Let_def w_length_def needs_zlp_def ep0_at_def ep0_inv_def)
qed

lemma read_data_done:
  assumes "ep0_at c packet n s l u"
    "s = USB_EP0_TX \<and> \<not> needs_zlp c packet n \<or> s = USB_EP0_WAITING_TX0"
  shows "\<exists>v. ep0_in_done cfg u = Some v \<and> ep0_at c packet n USB_EP0_WAITING_STS (l @ rx_calls) v"
proof -
  let ?u = "u\<lparr>transmitting := transmitting u AND NOT (push_bit 0 1)\<rparr>"
  have c: "epc (?u\<lparr>ep0state := USB_EP0_WAITING_STS\<rparr>) 0 = Some c \<and> ep0_ok c" using assms(1) by (simp add: ep0_at_def)
  have b: "\<not> transmits ?u" "\<not> receives (?u\<lparr>ep0state := USB_EP0_WAITING_STS\<rparr>)"
    using in_done_bits [OF assms(1)] assms(2) by auto
  have "ep0_in_done cfg u = ep0_wait_status ?u"
    using assms by (auto simp: ep0_in_done_def usb_ep0in_def Let_def w_length_def needs_zlp_def ep0_at_def)
  then show ?thesis
    using ep0_receive_idle [OF c b(2), of BNull 0] b assms(1)
    by (auto simp: ep0_wait_status_def ep0_at_def ep0_inv_def)
qed

lemma status_sent:
  assumes "ep0_at c packet n USB_EP0_SENDING_STS l u"
  shows "\<exists>v. ep0_in_done cfg u = Some v \<and> ep0_at c packet n USB_EP0_WAITING_SETUP l v"
  using assms in_done_bits [OF assms]
  by (auto simp: ep0_in_done_def usb_ep0in_def ep0_end_def Let_def ep0_at_def ep0_inv_def)

lemma out_done_bits:
  assumes "ep0_at c packet n s l u" "s \<in> {USB_EP0_RX, USB_EP0_WAITING_STS}"
  shows "\<not> receives (u\<lparr>outs := f, receiving := receiving u AND NOT (push_bit 0 1)\<rparr>)"
    "\<not> transmits (u\<lparr>outs := f, receiving := receiving u AND NOT (push_bit 0 1)\<rparr>)"
  using assms not_bit_0 [of "receiving u"]
  by (auto simp: ep0_at_def ep0_inv_def transmits_def receives_def)

lemma status_received:
  assumes "ep0_at c packet n USB_EP0_WAITING_STS l u"
  shows "\<exists>v. ep0_out_done cfg 0 u = Some v \<and> ep0_at c packet n USB_EP0_WAITING_SETUP l v"
  using assms out_done_bits [OF assms]
  by (auto simp: ep0_out_done_def usb_ep0out_def ep0_end_def Let_def ep0_at_def ep0_inv_def ep0_ok_def)

lemma write_data_done:
  assumes "ep0_at c packet n USB_EP0_RX l u"
  shows "\<exists>v. ep0_out_done cfg k u = Some v \<and> ep0_at c packet n USB_EP0_SENDING_STS (l @ tx_calls) v"
proof -
  let ?u = "u\<lparr>outs := (outs u)(out_state c := (outs u (out_state c))\<lparr>rxcnt := k\<rparr>),
      receiving := receiving u AND NOT (push_bit 0 1)\<rparr>"
  let ?s = "?u\<lparr>ep0state := USB_EP0_SENDING_STS\<rparr>"
  have c: "epc ?s 0 = Some c \<and> ep0_ok c" using assms by (simp add: ep0_at_def)
  have b: "\<not> transmits ?s" "\<not> receives ?s" using out_done_bits [OF assms] by auto
  have "ep0_out_done cfg k u = ep0_transmit BNull 0 ?s"
    using assms by (auto simp: ep0_out_done_def usb_ep0out_def ep0_at_def ep0_ok_def)
  then show ?thesis
    using ep0_transmit_idle [OF c b(1), of BNull 0] b assms by (auto simp: ep0_at_def ep0_inv_def)
qed

definition dev_to_host :: "u8 list \<Rightarrow> bool" where
  "dev_to_host packet \<longleftrightarrow> packet ! 0 AND 0x80 = 0x80"

lemma ep0_data_stage:
  assumes "epc v 0 = Some c \<and> ep0_ok c" "\<not> transmits v" "\<not> receives v" "setup_packet v = packet"
    "ep0endcb v = 0" "n = min (ep0n v) (w_length packet)"
  shows "\<exists>d. ep0_data v = Some d \<and>
    (if dev_to_host packet then
       if n > 0 then ep0_at c packet n USB_EP0_TX (lld v @ tx_calls) d \<and>
         ins d (in_state c) = \<lparr>txmode = Linear (ep0next v), txsize = n, txcnt = 0\<rparr>
       else ep0_at c packet n USB_EP0_WAITING_STS (lld v @ rx_calls) d
     else
       if n > 0 then ep0_at c packet n USB_EP0_RX (lld v @ rx_calls) d \<and>
         outs d (out_state c) = \<lparr>rxmode = Linear (ep0next v), rxsize = n, rxcnt = 0\<rparr>
       else ep0_at c packet n USB_EP0_SENDING_STS (lld v @ tx_calls) d)"
proof -
  have v: "(if ep0n v > w_length packet then v\<lparr>ep0n := w_length packet\<rparr> else v) = v\<lparr>ep0n := n\<rparr>"
    using assms(6) by (simp add: min_def not_less)
  define w where "w = v\<lparr>ep0n := n\<rparr>"
  have w: "epc (w\<lparr>ep0state := s\<rparr>) 0 = Some c \<and> ep0_ok c" "\<not> transmits (w\<lparr>ep0state := s\<rparr>)"
    "\<not> receives (w\<lparr>ep0state := s\<rparr>)" "setup_packet w = packet" "ep0endcb w = 0" "ep0n w = n"
    "ep0next w = ep0next v" "lld w = lld v" for s
    using assms by (simp_all add: w_def)
  have e: "ep0_data v =
     (if dev_to_host packet then
        if n > 0 then ep0_transmit (ep0next v) n (w\<lparr>ep0state := USB_EP0_TX\<rparr>)
        else ep0_receive BNull 0 (w\<lparr>ep0state := USB_EP0_WAITING_STS\<rparr>)
      else
        if n > 0 then ep0_receive (ep0next v) n (w\<lparr>ep0state := USB_EP0_RX\<rparr>)
        else ep0_transmit BNull 0 (w\<lparr>ep0state := USB_EP0_SENDING_STS\<rparr>))"
    unfolding ep0_data_def Let_def assms(4) w_length_def [symmetric] v
    by (simp add: w_def dev_to_host_def assms(4))
  have t: "\<exists>d. ep0_transmit b k (w\<lparr>ep0state := s\<rparr>) = Some d \<and>
      ep0_at c packet n s (lld v @ tx_calls) d \<and>
      ins d (in_state c) = \<lparr>txmode = Linear b, txsize = k, txcnt = 0\<rparr>"
    if "s \<in> {USB_EP0_TX, USB_EP0_SENDING_STS}" for s b k
    using ep0_transmit_idle [OF w(1,2) [where s = s], of b k] w that
    by (auto simp: ep0_at_def ep0_inv_def)
  have r: "\<exists>d. ep0_receive b k (w\<lparr>ep0state := s\<rparr>) = Some d \<and>
      ep0_at c packet n s (lld v @ rx_calls) d \<and>
      outs d (out_state c) = \<lparr>rxmode = Linear b, rxsize = k, rxcnt = 0\<rparr>"
    if "s \<in> {USB_EP0_RX, USB_EP0_WAITING_STS}" for s b k
    using ep0_receive_idle [OF w(1,3) [where s = s], of b k] w that
    by (auto simp: ep0_at_def ep0_inv_def)
  note stages = t [of USB_EP0_TX "ep0next v" n, simplified] t [of USB_EP0_SENDING_STS BNull 0, simplified]
    r [of USB_EP0_RX "ep0next v" n, simplified] r [of USB_EP0_WAITING_STS BNull 0, simplified]
  show ?thesis
    unfolding e using stages by (cases "dev_to_host packet"; cases "n > 0") auto
qed

definition finishes ::
  "USBConfig \<Rightarrow> usb_hw \<Rightarrow> bus_event list \<Rightarrow> USBDriver \<Rightarrow> lld_call list \<Rightarrow> bool" where
  "finishes cfg hw es u calls \<longleftrightarrow> (\<exists>w. usb_run cfg hw es u = Some w \<and> lld w = calls \<and>
     ep0state w = USB_EP0_WAITING_SETUP \<and> \<not> transmits w \<and> \<not> receives w)"

lemma finishes_end: "ep0_at c packet n USB_EP0_WAITING_SETUP l u \<Longrightarrow> finishes cfg hw [] u l"
  by (simp add: finishes_def ep0_at_def ep0_inv_def)

lemma finishes_step: "usb_step cfg hw e u = Some v \<Longrightarrow> finishes cfg hw es v l \<Longrightarrow> finishes cfg hw (e # es) u l"
  by (simp add: finishes_def)

lemma finishes_status_in:
  "ep0_at c packet n USB_EP0_WAITING_STS l u \<Longrightarrow> finishes cfg hw [OutDone 0] u l"
  by (metis status_received finishes_end finishes_step usb_step.simps(4))

lemma finishes_status_out:
  "ep0_at c packet n USB_EP0_SENDING_STS l u \<Longrightarrow> finishes cfg hw [InDone] u l"
  by (metis status_sent finishes_end finishes_step usb_step.simps(3))

lemma finishes_last_packet:
  assumes "ep0_at c packet n s l u"
    "s = USB_EP0_TX \<and> \<not> needs_zlp c packet n \<or> s = USB_EP0_WAITING_TX0"
  shows "finishes cfg hw [InDone, OutDone 0] u (l @ rx_calls)"
proof -
  obtain v where "ep0_in_done cfg u = Some v" "ep0_at c packet n USB_EP0_WAITING_STS (l @ rx_calls) v"
    using read_data_done [OF assms] by blast
  then show ?thesis by (intro finishes_step [OF _ finishes_status_in]) simp_all
qed

lemma finishes_read:
  assumes "ep0_at c packet n USB_EP0_TX l u"
  shows "finishes cfg hw (InDone # (if needs_zlp c packet n then [InDone] else []) @ [OutDone 0]) u
    (l @ (if needs_zlp c packet n then tx_calls else []) @ rx_calls)"
proof (cases "needs_zlp c packet n")
  case True
  obtain v where v: "ep0_in_done cfg u = Some v" "ep0_at c packet n USB_EP0_WAITING_TX0 (l @ tx_calls) v"
    using read_zlp [OF assms True] by blast
  have "finishes cfg hw [InDone, OutDone 0] v ((l @ tx_calls) @ rx_calls)"
    using v(2) by (rule finishes_last_packet) simp
  then have "finishes cfg hw [InDone, InDone, OutDone 0] u ((l @ tx_calls) @ rx_calls)"
    by (rule finishes_step [rotated]) (simp add: v)
  then show ?thesis using True by simp
next
  case False
  then show ?thesis using finishes_last_packet [OF assms, of cfg hw] by simp
qed

lemma finishes_write:
  assumes "ep0_at c packet n USB_EP0_RX l u"
  shows "finishes cfg hw [OutDone k, InDone] u (l @ tx_calls)"
proof -
  obtain v where "ep0_out_done cfg k u = Some v" "ep0_at c packet n USB_EP0_SENDING_STS (l @ tx_calls) v"
    using write_data_done [OF assms] by blast
  then show ?thesis by (intro finishes_step [OF _ finishes_status_out]) simp_all
qed

section \<open>The descriptors of the console\<close>

definition usb_desc_word :: "u16 \<Rightarrow> u8 list" where
  "usb_desc_word w = [ucast (w AND 255), ucast (drop_bit 8 w AND 255)]"

definition usb_desc_device ::
  "u16 \<Rightarrow> u8 \<Rightarrow> u8 \<Rightarrow> u8 \<Rightarrow> u8 \<Rightarrow> u16 \<Rightarrow> u16 \<Rightarrow> u16 \<Rightarrow> u8 \<Rightarrow> u8 \<Rightarrow> u8 \<Rightarrow> u8 \<Rightarrow> u8 list" where
  "usb_desc_device bcdUSB cls sub proto maxp vendor product bcd iman iprod iser confs =
     [18, 1] @ usb_desc_word bcdUSB @ [cls, sub, proto, maxp] @ usb_desc_word vendor @
     usb_desc_word product @ usb_desc_word bcd @ [iman, iprod, iser, confs]"

definition usb_desc_configuration :: "u16 \<Rightarrow> u8 \<Rightarrow> u8 \<Rightarrow> u8 \<Rightarrow> u8 \<Rightarrow> u8 \<Rightarrow> u8 list" where
  "usb_desc_configuration tot ifs val idx attrs pow = [9, 2] @ usb_desc_word tot @ [ifs, val, idx, attrs, pow]"

definition usb_desc_interface :: "u8 \<Rightarrow> u8 \<Rightarrow> u8 \<Rightarrow> u8 \<Rightarrow> u8 \<Rightarrow> u8 \<Rightarrow> u8 \<Rightarrow> u8 list" where
  "usb_desc_interface num alt eps cls sub proto idx = [9, 4, num, alt, eps, cls, sub, proto, idx]"

definition usb_desc_endpoint :: "u8 \<Rightarrow> u8 \<Rightarrow> u16 \<Rightarrow> u8 \<Rightarrow> u8 list" where
  "usb_desc_endpoint addr attrs maxp interval = [7, 5, addr, attrs] @ usb_desc_word maxp @ [interval]"

definition vcom_device_descriptor_data :: "u8 list" where
  "vcom_device_descriptor_data = usb_desc_device 0x0110 0x02 0 0 0x40 0x0483 0x5740 0x0200 1 2 3 1"

definition vcom_configuration_descriptor_data :: "u8 list" where
  "vcom_configuration_descriptor_data =
     usb_desc_configuration 67 0x02 0x01 0 0xC0 50 @
     usb_desc_interface 0x00 0x00 0x01 0x02 0x02 0x01 0 @
     [5, 0x24, 0x00] @ usb_desc_word 0x0110 @
     [5, 0x24, 0x01, 0x00, 0x01] @
     [4, 0x24, 0x02, 0x02] @
     [5, 0x24, 0x06, 0x00, 0x01] @
     usb_desc_endpoint (2 OR 0x80) 0x03 0x0008 0xFF @
     usb_desc_interface 0x01 0x00 0x02 0x0A 0x00 0x00 0x00 @
     usb_desc_endpoint 1 0x02 0x0040 0x00 @
     usb_desc_endpoint (1 OR 0x80) 0x02 0x0040 0x00"

definition vcom_string0 :: "u8 list" where
  "vcom_string0 = [4, 3] @ usb_desc_word 0x0409"

definition vcom_string1 :: "u8 list" where
  "vcom_string1 = [38, 3,
     83, 0, 84, 0, 77, 0, 105, 0, 99, 0, 114, 0, 111, 0, 101, 0,
     108, 0, 101, 0, 99, 0, 116, 0, 114, 0, 111, 0, 110, 0, 105, 0,
     99, 0, 115, 0]"

definition vcom_string2 :: "u8 list" where
  "vcom_string2 = [56, 3,
     67, 0, 104, 0, 105, 0, 98, 0, 105, 0, 79, 0, 83, 0, 47, 0,
     82, 0, 84, 0, 32, 0, 86, 0, 105, 0, 114, 0, 116, 0, 117, 0,
     97, 0, 108, 0, 32, 0, 67, 0, 79, 0, 77, 0, 32, 0, 80, 0,
     111, 0, 114, 0, 116, 0]"

definition vcom_string3 :: "u8 list" where
  "vcom_string3 = [8, 3, 48 + 2, 0, 48 + 6, 0, 48 + 0, 0]"

definition vcom_strings :: "u8 list list" where
  "vcom_strings = [vcom_string0, vcom_string1, vcom_string2, vcom_string3]"

definition get_descriptor :: "u8 \<Rightarrow> u8 \<Rightarrow> u16 \<Rightarrow> u8 list option" where
  "get_descriptor dtype dindex lang =
     (if dtype = 1 then Some vcom_device_descriptor_data
      else if dtype = 2 then Some vcom_configuration_descriptor_data
      else if dtype = 3 then (if dindex < 4 then Some (vcom_strings ! unat dindex) else None)
      else None)"

definition ep1config :: "addr \<Rightarrow> addr \<Rightarrow> USBEndpointConfig" where
  "ep1config ep1instate ep1outstate =
     \<lparr>ep_mode = 2, in_maxsize = 0x0040, out_maxsize = 0x0040, in_state = ep1instate, out_state = ep1outstate\<rparr>"

definition ep2config :: "addr \<Rightarrow> USBEndpointConfig" where
  "ep2config ep2instate =
     \<lparr>ep_mode = 3, in_maxsize = 0x0010, out_maxsize = 0x0000, in_state = ep2instate, out_state = 0\<rparr>"

definition lld_ep0config :: "addr \<Rightarrow> addr \<Rightarrow> USBEndpointConfig" where
  "lld_ep0config ep0instate ep0outstate =
     \<lparr>ep_mode = 0, in_maxsize = 0x40, out_maxsize = 0x40, in_state = ep0instate, out_state = ep0outstate\<rparr>"

function chained :: "u8 list \<Rightarrow> u8 list list option" where
  "chained d =
     (case d of
        [] \<Rightarrow> Some []
      | l # _ \<Rightarrow>
          if 2 \<le> unat l \<and> unat l \<le> length d then
            map_option ((#) (take (unat l) d)) (chained (drop (unat l) d))
          else None)"
  by pat_completeness auto
termination
  by (relation "measure length") auto

declare chained.simps [simp del]

definition endpoint_sizes :: "u8 list list \<Rightarrow> (u8 \<times> u16) list" where
  "endpoint_sizes ds =
     map (\<lambda>d. (d ! 2, usbFetchWord (d ! 4) (d ! 5))) (filter (\<lambda>d. d ! 1 = 5) ds)"

lemma vcom_device: "length vcom_device_descriptor_data = 18"
  by (simp add: vcom_device_descriptor_data_def usb_desc_device_def usb_desc_word_def)

definition sample_hw :: usb_hw where
  "sample_hw = \<lparr>status_in = (\<lambda>_. EP_STATUS_ACTIVE), status_out = (\<lambda>_. EP_STATUS_ACTIVE),
     ep0config = lld_ep0config 0x20000100 0x20000120\<rparr>"

definition sample_cfg :: USBConfig where
  "sample_cfg = \<lparr>event_cb = None, get_descriptor_cb = get_descriptor,
     requests_hook_cb = None, end_cb = (\<lambda>a u. u)\<rparr>"

definition sample_usb :: USBDriver where
  "sample_usb = usb_reset sample_hw
     \<lparr>usb_state = USB_STOP, transmitting = 0, receiving = 0, epc = (\<lambda>_. None), in_params = (\<lambda>_. 0),
      out_params = (\<lambda>_. 0), ep0state = USB_EP0_WAITING_SETUP, ep0next = BNull, ep0n = 0, ep0endcb = 0,
      setup_packet = [], usb_status = 0, address = 0, configuration = 0,
      ins = (\<lambda>_. \<lparr>txmode = Linear BNull, txsize = 0, txcnt = 0\<rparr>),
      outs = (\<lambda>_. \<lparr>rxmode = Linear BNull, rxsize = 0, rxcnt = 0\<rparr>), lld = []\<rparr>"

lemma sample_cfg_ok: "callbacks_ok sample_cfg"
  by (simp add: callbacks_ok_def sample_cfg_def)

lemma sample_idle: "\<not> transmits sample_usb" "\<not> receives sample_usb" "epc sample_usb 0 = Some (lld_ep0config 0x20000100 0x20000120) \<and> ep0_ok (lld_ep0config 0x20000100 0x20000120)"
  "lld sample_usb = [LReset]"
  by (simp_all add: sample_usb_def usb_reset_def call_lld_def clear_epc_def transmits_def receives_def
      sample_hw_def Let_def ep0_ok_def lld_ep0config_def)

lemma sample_hw_ok: "ep0_ok (ep0config sample_hw)"
  by (simp add: sample_hw_def lld_ep0config_def ep0_ok_def)

lemma sample_request:
  "ep0_request sample_cfg sample_hw
     (u\<lparr>ep0state := USB_EP0_WAITING_SETUP, setup_packet := [0x80, 6, 0, 1, 0, 0, 64, 0]\<rparr>) =
   (True, u\<lparr>ep0state := USB_EP0_WAITING_SETUP, setup_packet := [0x80, 6, 0, 1, 0, 0, 64, 0],
     ep0next := BConst vcom_device_descriptor_data, ep0n := 18, ep0endcb := 0\<rparr>)"
  by (simp add: ep0_request_def default_handler_def request_code_def sample_cfg_def usbSetupTransfer_def
      get_descriptor_def vcom_device)

section \<open>The properties\<close>

text \<open>C38: the state machine of endpoint zero, for the events of a bus on which a setup packet never
  arrives in the middle of a transfer and a transfer is only reported done while it is in progress, callbacks
  that leave endpoint zero alone, and a configuration of endpoint zero with memory for the states of both directions.
  Every such
  event is handled without following a null pointer (neither that of the configuration nor those of the
  states), and afterwards a transmission is in progress
  exactly in the states that wait for one, and a reception exactly in those that wait for one.
  A setup packet in the middle of a transfer is the subject of the property on lost transfers.\<close>

theorem usb_ep0_invariant:
  assumes "callbacks_ok cfg" "ep0_ok (ep0config hw)" "reach cfg hw u" "allowed u e"
  shows "ep0_inv u \<and> (\<exists>v. usb_step cfg hw e u = Some v \<and> ep0_inv v \<and> reach cfg hw v)"
proof -
  have i: "ep0_inv u"
    using assms(3)
  proof induction
    case (step u e v)
    then show ?case using step_inv [OF assms(1) step.IH step.hyps(2) assms(2)] by simp
  qed (rule reset_inv [OF assms(2)])
  then show ?thesis
    using step_inv [OF assms(1) i assms(4,2)] reach.step [OF assms(3,4)] by auto
qed

theorem usb_ep0_invariant_witness:
  "\<exists>u. reach sample_cfg sample_hw u \<and> ep0_inv u \<and>
     (\<exists>v. usb_step sample_cfg sample_hw (Setup [0x80, 6, 0, 1, 0, 0, 64, 0]) u = Some v \<and> ep0_inv v \<and>
       reach sample_cfg sample_hw v)"
proof -
  have "reach sample_cfg sample_hw sample_usb" unfolding sample_usb_def by (rule reach.start)
  then show ?thesis
    using usb_ep0_invariant [OF sample_cfg_ok sample_hw_ok, of sample_usb "Setup [0x80, 6, 0, 1, 0, 0, 64, 0]"]
      sample_idle by auto
qed

text \<open>C39: control transfers.  When endpoint zero, which has memory for its states, is idle and a
  request without an end-of-transfer callback is accepted with a reply of
  some size, the size is cut to what the host asked for, and the whole transfer follows: a read
  sends the data, then an empty packet when the data are fewer than asked for and fill their last
  packet, then awaits the empty status packet; a write receives the data and sends the status
  packet; a request without data only sends or awaits the status packet.  Each stage is started
  exactly once and in this order, and endpoint zero is idle again at the end.\<close>

theorem usb_control_transfers:
  assumes "callbacks_ok cfg" "epc u 0 = Some c \<and> ep0_ok c" "\<not> transmits u" "\<not> receives u"
    "ep0_request cfg hw (u\<lparr>ep0state := USB_EP0_WAITING_SETUP, setup_packet := packet\<rparr>) = (True, v)"
    "ep0endcb v = 0" "n = min (ep0n v) (w_length packet)"
  shows "\<exists>d. usb_step cfg hw (Setup packet) u = Some d \<and>
    (if dev_to_host packet then
       if n > 0 then
         ins d (in_state c) = \<lparr>txmode = Linear (ep0next v), txsize = n, txcnt = 0\<rparr> \<and>
         finishes cfg hw (InDone # (if needs_zlp c packet n then [InDone] else []) @ [OutDone 0]) d
           (lld v @ tx_calls @ (if needs_zlp c packet n then tx_calls else []) @ rx_calls)
       else finishes cfg hw [OutDone 0] d (lld v @ rx_calls)
     else
       if n > 0 then
         outs d (out_state c) = \<lparr>rxmode = Linear (ep0next v), rxsize = n, rxcnt = 0\<rparr> \<and>
         finishes cfg hw [OutDone k, InDone] d (lld v @ rx_calls @ tx_calls)
       else finishes cfg hw [InDone] d (lld v @ tx_calls))"
proof -
  let ?u = "u\<lparr>ep0state := USB_EP0_WAITING_SETUP, setup_packet := packet\<rparr>"
  have "ep0_frame ?u v" using ep0_request_frame [OF assms(1), of ?u hw] assms(5) by simp
  from frame_bits [OF this] have v: "epc v 0 = Some c \<and> ep0_ok c" "\<not> transmits v" "\<not> receives v"
    "setup_packet v = packet" using assms by simp_all
  have s: "usb_step cfg hw (Setup packet) u = ep0_data v"
    by (simp add: usb_ep0setup_def assms(5))
  from ep0_data_stage [OF v assms(6,7)] obtain d where d: "ep0_data v = Some d" and
    t: "if dev_to_host packet then
       if n > 0 then ep0_at c packet n USB_EP0_TX (lld v @ tx_calls) d \<and>
         ins d (in_state c) = \<lparr>txmode = Linear (ep0next v), txsize = n, txcnt = 0\<rparr>
       else ep0_at c packet n USB_EP0_WAITING_STS (lld v @ rx_calls) d
     else
       if n > 0 then ep0_at c packet n USB_EP0_RX (lld v @ rx_calls) d \<and>
         outs d (out_state c) = \<lparr>rxmode = Linear (ep0next v), rxsize = n, rxcnt = 0\<rparr>
       else ep0_at c packet n USB_EP0_SENDING_STS (lld v @ tx_calls) d"
    by blast
  show ?thesis
    using t s d finishes_read [of c packet n "lld v @ tx_calls" d cfg hw]
      finishes_write [of c packet n "lld v @ rx_calls" d cfg hw k]
      finishes_status_in [of c packet n "lld v @ rx_calls" d cfg hw]
      finishes_status_out [of c packet n "lld v @ tx_calls" d cfg hw]
    by (intro exI [of _ d]) (cases "dev_to_host packet"; cases "n > 0"; simp)
qed

theorem usb_control_transfers_witness:
  "\<exists>d. usb_step sample_cfg sample_hw (Setup [0x80, 6, 0, 1, 0, 0, 64, 0]) sample_usb = Some d \<and>
     ins d 0x20000100 = \<lparr>txmode = Linear (BConst vcom_device_descriptor_data), txsize = 18, txcnt = 0\<rparr> \<and>
     finishes sample_cfg sample_hw [InDone, OutDone 0] d ([LReset] @ tx_calls @ rx_calls)"
proof -
  let ?p = "[0x80, 6, 0, 1, 0, 0, 64, 0] :: u8 list"
  let ?v = "sample_usb\<lparr>ep0state := USB_EP0_WAITING_SETUP, setup_packet := ?p,
     ep0next := BConst vcom_device_descriptor_data, ep0n := 18, ep0endcb := 0\<rparr>"
  let ?c = "lld_ep0config 0x20000100 0x20000120"
  have p: "dev_to_host ?p" "w_length ?p = 64" "\<not> needs_zlp ?c ?p 18"
    by (simp_all add: dev_to_host_def w_length_def usbFetchWord_def needs_zlp_def lld_ep0config_def)
  have n: "18 = min (ep0n ?v) (w_length ?p)" by (simp add: p)
  have e: "ep0endcb ?v = 0" by simp
  show ?thesis
    using usb_control_transfers [OF sample_cfg_ok sample_idle(3,1,2) sample_request e n, of 0] p sample_idle(4)
    by (simp add: lld_ep0config_def)
qed

text \<open>C40: two ways to lose a transfer.  Endpoint zero has memory for its states.  When a setup packet arrives while the answer to an earlier one
  is still being transmitted, the bit of endpoint zero is still set: the new answer is prepared but
  never started, although the state machine goes on as if it were.  And disabling the endpoints
  clears the bit of endpoint zero instead of those of the others: an endpoint that was transmitting
  is busy for ever, also after it has been initialised again.\<close>

theorem usb_lost_transfers:
  assumes "callbacks_ok cfg" "epc u 0 = Some c \<and> ep0_ok c" "transmits u"
    "ep0_request cfg hw (u\<lparr>ep0state := USB_EP0_WAITING_SETUP, setup_packet := packet\<rparr>) = (True, v)"
    "dev_to_host packet" "0 < min (ep0n v) (w_length packet)" "0 < k" "bit (transmitting x) k"
  shows "(\<exists>d. usb_step cfg hw (Setup packet) u = Some d \<and> ep0state d = USB_EP0_TX \<and>
      lld d = lld v @ [LPrepareTransmit 0]) \<and>
    usbStartTransmitI k (usbInitEndpointI k ec (usbDisableEndpointsI x)) =
      (True, usbInitEndpointI k ec (usbDisableEndpointsI x))"
proof
  let ?u = "u\<lparr>ep0state := USB_EP0_WAITING_SETUP, setup_packet := packet\<rparr>"
  have "ep0_frame ?u v" using ep0_request_frame [OF assms(1), of ?u hw] assms(4) by simp
  from frame_bits [OF this] have v: "epc v 0 = Some c \<and> ep0_ok c" "transmits v" "setup_packet v = packet"
    using assms by simp_all
  define n where "n = min (ep0n v) (w_length packet)"
  let ?w = "v\<lparr>ep0n := n, ep0state := USB_EP0_TX\<rparr>"
  have n: "(if ep0n v > w_length packet then v\<lparr>ep0n := w_length packet\<rparr> else v) = v\<lparr>ep0n := n\<rparr>"
    by (simp add: n_def min_def not_less)
  have "ep0_data v = ep0_transmit (ep0next v) n ?w"
    unfolding ep0_data_def Let_def v(3) w_length_def [symmetric] n
    using assms(5,6) v(3) by (simp add: dev_to_host_def n_def)
  moreover have "epc ?w 0 = Some c \<and> ep0_ok c" "transmits ?w" using v by simp_all
  ultimately show "\<exists>d. usb_step cfg hw (Setup packet) u = Some d \<and> ep0state d = USB_EP0_TX \<and>
      lld d = lld v @ [LPrepareTransmit 0]"
    using ep0_transmit_busy [of ?w c "ep0next v" n] assms(4) by (auto simp: usb_ep0setup_def)
  have "bit (transmitting (usbInitEndpointI k ec (usbDisableEndpointsI x))) k"
    using assms(7,8) bit_imp_le_length [OF assms(8)]
    by (simp add: usbInitEndpointI_def usbDisableEndpointsI_def Let_def call_lld_def clear_epc_def
        bit_and_iff bit_not_iff bit_1_iff)
  then show "usbStartTransmitI k (usbInitEndpointI k ec (usbDisableEndpointsI x)) =
      (True, usbInitEndpointI k ec (usbDisableEndpointsI x))"
    by (simp add: usbStartTransmitI_def transmit_status_bit)
qed

theorem usb_lost_transfers_witness:
  "\<exists>u. transmits u \<and>
     (\<exists>d. usb_step sample_cfg sample_hw (Setup [0x80, 6, 0, 1, 0, 0, 64, 0]) u = Some d \<and>
       ep0state d = USB_EP0_TX \<and> lld d = [LReset, LPrepareTransmit 0]) \<and>
     fst (usbStartTransmitI 1 (usbInitEndpointI 1 (ep2config 0) (usbDisableEndpointsI u)))"
proof -
  let ?p = "[0x80, 6, 0, 1, 0, 0, 64, 0] :: u8 list"
  let ?u = "sample_usb\<lparr>transmitting := 3\<rparr>"
  let ?v = "?u\<lparr>ep0state := USB_EP0_WAITING_SETUP, setup_packet := ?p,
     ep0next := BConst vcom_device_descriptor_data, ep0n := 18, ep0endcb := 0\<rparr>"
  have p: "dev_to_host ?p" "w_length ?p = 64"
    by (simp_all add: dev_to_host_def w_length_def usbFetchWord_def)
  have u: "epc ?u 0 = Some (lld_ep0config 0x20000100 0x20000120) \<and> ep0_ok (lld_ep0config 0x20000100 0x20000120)" "transmits ?u"
    using sample_idle by (simp_all add: transmits_def)
  have n: "0 < min (ep0n ?v) (w_length ?p)" by (simp add: p)
  have b: "bit (transmitting ?u) 1" by simp
  show ?thesis
    using usb_lost_transfers [OF sample_cfg_ok u sample_request p(1) n _ b, of "ep2config 0"] u(2) sample_idle(4)
    by (intro exI [of _ ?u]) simp
qed

text \<open>The descriptors of the console are chains of records whose first byte is their length; the
  configuration has the length and the number of interfaces it declares.  The packet size of the
  interrupt endpoint is 8 in its descriptor and 16 in the configuration of the endpoint.\<close>

lemma vcom_configuration_bytes:
  "vcom_configuration_descriptor_data =
     [9, 2, 67, 0, 2, 1, 0, 0xC0, 50, 9, 4, 0, 0, 1, 2, 2, 1, 0, 5, 0x24, 0, 0x10, 1,
      5, 0x24, 1, 0, 1, 4, 0x24, 2, 2, 5, 0x24, 6, 0, 1, 7, 5, 0x82, 3, 8, 0, 0xFF,
      9, 4, 1, 0, 2, 10, 0, 0, 0, 7, 5, 1, 2, 0x40, 0, 0, 7, 5, 0x81, 2, 0x40, 0, 0]"
  by (simp add: vcom_configuration_descriptor_data_def usb_desc_configuration_def usb_desc_interface_def
      usb_desc_endpoint_def usb_desc_word_def)

lemma vcom_configuration_chain:
  "\<exists>ds. chained vcom_configuration_descriptor_data = Some ds \<and> concat ds = vcom_configuration_descriptor_data \<and>
     length vcom_configuration_descriptor_data = 67 \<and> length (filter (\<lambda>d. d ! 1 = 4) ds) = 2 \<and>
     endpoint_sizes ds = [(0x82, 8), (0x01, 64), (0x81, 64)] \<and> in_maxsize (ep2config s) = 16"
  by (simp add: vcom_configuration_bytes chained.simps endpoint_sizes_def usbFetchWord_def ep2config_def)

lemma vcom_string_lengths: "s \<in> set vcom_strings \<Longrightarrow> unat (s ! 0) = length s \<and> s ! 1 = 3"
  by (auto simp: vcom_strings_def vcom_string0_def vcom_string1_def vcom_string2_def vcom_string3_def
      usb_desc_word_def)

end
