(* ===== verification/Spec2Isabelle.thy ===== *)
theory Spec2Isabelle
  imports Dynamic Mailboxes IOQueues LineEditor Printf ScriptLexer UsbDriver
begin

text \<open>
  A verification of ChibiOS-JS: the kernel of ChibiOS/RT with the programs around it that this
  repository builds for an STM32F4.

  \<^bold>\<open>The program.\<close>  The kernel (\<^verbatim>\<open>os/kernel\<close>) schedules threads by priority and offers semaphores,
  mutexes, condition variables, events, messages, mailboxes, I/O queues, timers and memory.  Its
  functions run with the kernel locked, in the context of the current thread or of an interrupt
  handler; a thread that sleeps gives the processor to the first thread of the ready list.  The
  drivers of \<^verbatim>\<open>os/hal\<close> pass bytes through the I/O queues.  On top of them are the console
  (\<^verbatim>\<open>os/various/rdline.c\<close>, \<^verbatim>\<open>chprintf.c\<close>), the script interpreter (\<^verbatim>\<open>tinyjs\<close>), a file system, a network stack and the
  application (\<^verbatim>\<open>app\<close>).

  \<^bold>\<open>Foundations.\<close>
  \<^item> \<^verbatim>\<open>Prelude\<close>, \<^verbatim>\<open>WordFacts\<close>, \<^verbatim>\<open>Buffers\<close>: the machine types of \<^verbatim>\<open>chtypes.h\<close> (addresses and messages
    are 32-bit words, read as signed numbers where the C type is), facts on words and lists,
    arrays whose out-of-range accesses are \<open>None\<close>.
  \<^item> \<^verbatim>\<open>ThreadLists\<close>: \<^verbatim>\<open>chinline.h\<close>, \<^verbatim>\<open>chlists.c\<close>; the circular lists with their pointers, and the
    refinement that allows the other theories to use lists of threads.  The locale
    \<open>thread_queues\<close> is the contract of a queue, interpreted on the linked structure.
  \<^item> \<^verbatim>\<open>KernelState\<close>: the structures of the kernel as records and the state that holds them;
    \<^verbatim>\<open>Execution\<close>: functions that give up the processor, as a codatatype of runs.

  \<^bold>\<open>The kernel.\<close>  Each theory models one or two files, one definition per function with the
  source's name, and a function of a loop for each of its loops.
  \<^item> \<^verbatim>\<open>Timers\<close>: \<^verbatim>\<open>chvt.c\<close>; the delta list is the map of remaining ticks, a tick returns and fires the
    timers that are due.  The locales \<open>timer_callbacks\<close> and \<open>quiet_callbacks\<close> say what a callback
    may do; the second is interpreted on the wake-up function of the scheduler.
  \<^item> \<^verbatim>\<open>Scheduler\<close>, \<^verbatim>\<open>Invariants\<close>, \<^verbatim>\<open>SafeRuns\<close>, \<^verbatim>\<open>SchedulerCorrect\<close>: \<^verbatim>\<open>chschd.c\<close>.  The kernel invariant says
    that every thread is in exactly the queue its state names, that the ready list is ordered by
    priority and the timers are those of sleeping threads; \<open>safe\<close> says of a run that it keeps the
    invariant at each point where it gives up the processor and when it returns, provided the
    others keep it meanwhile; \<open>safe_from\<close> also relates the result to the state in which the thread
    last got the processor, and \<open>suspends\<close> says in which state it first gives it up.  The locale \<open>iclass_op\<close> is the contract of the functions that
    interrupt handlers may call.
  \<^item> \<^verbatim>\<open>Semaphores\<close> (\<^verbatim>\<open>chsem.c\<close>, \<^verbatim>\<open>chbsem.h\<close>), \<^verbatim>\<open>Mutexes\<close> (\<^verbatim>\<open>chmtx.c\<close>), \<^verbatim>\<open>CondVars\<close> (\<^verbatim>\<open>chcond.c\<close>), \<^verbatim>\<open>Events\<close>
    (\<^verbatim>\<open>chevents.c\<close>, with the links of the lists of listeners), \<^verbatim>\<open>Messages\<close> (\<^verbatim>\<open>chmsg.c\<close>), \<^verbatim>\<open>Threads\<close> (\<^verbatim>\<open>chthreads.c\<close>): what each function returns, whom it wakes
    and in which order, that waiting keeps the invariant, that priorities are inherited along
    chains of mutexes, and the errors that the checks let through.
  \<^item> \<^verbatim>\<open>Memory\<close> (\<^verbatim>\<open>chmemcore.c\<close>, \<^verbatim>\<open>chmempools.c\<close>, \<^verbatim>\<open>chheap.c\<close>) and \<^verbatim>\<open>Dynamic\<close> (\<^verbatim>\<open>chdynamic.c\<close>, \<^verbatim>\<open>chregistry.c\<close>,
    \<open>chThdWait\<close>): allocators over free lists stored in the free memory, the registry, and the races
    of the parts that run with the kernel unlocked.
  \<^item> \<^verbatim>\<open>CircularBuffers\<close>, \<^verbatim>\<open>Mailboxes\<close> (\<^verbatim>\<open>chmboxes.c\<close>), \<^verbatim>\<open>IOQueues\<close> (\<^verbatim>\<open>chqueues.c\<close>): the locale \<open>cell_memory\<close> shows once
    that a ring of cells is a bounded list; it is interpreted on 32-bit cells for mailboxes and
    on bytes for the queues.
  \<^item> \<^verbatim>\<open>SampleSystem\<close>: a small system with waiting threads on which the witnesses evaluate.

  \<^bold>\<open>The console and the scripts.\<close>
  \<^item> \<^verbatim>\<open>LineEditor\<close>: \<^verbatim>\<open>rdline.c\<close>; whatever is typed, the editor stays within its buffer, holds the line
    that a simple reference editor holds, and shows it on the terminal.
  \<^item> \<^verbatim>\<open>Printf\<close>: \<^verbatim>\<open>chprintf.c\<close>; format strings print what they mean.
  \<^item> \<^verbatim>\<open>ScriptLexer\<close>: the lexer \<open>CScriptLex\<close> of \<^verbatim>\<open>tinyjs/TinyJS.cpp\<close> with its character classes and the quoting of
    strings; it reads within its input, ends, and what it reads back of a quoted string.

  \<^bold>\<open>The USB driver.\<close>
  \<^item> \<^verbatim>\<open>UsbDriver\<close>: \<^verbatim>\<open>os/hal/src/usb.c\<close> with the macros of \<^verbatim>\<open>usb.h\<close>, and the descriptors of \<^verbatim>\<open>app/usbcfg.c\<close>.  The
    calls of the low level driver are recorded in their order.  Endpoint zero transmits and
    receives exactly when its state says so, as long as no setup packet arrives in the middle of a
    transfer; an accepted request leads through a whole control
    transfer, and two situations in which a transfer is lost.

  \<^bold>\<open>Loops.\<close>  Loops that end are functions with a termination proof.  Walks over linked lists (thread
  queues, registry, listeners, free lists), which
  would not end on a malformed one, are partial functions into \<open>option\<close> or runs, and the theorems
  state that they return, or in which cases they never do.  The queues of the kernel objects and the
  ready list are lists of threads, by the refinement of \<^verbatim>\<open>ThreadLists\<close>; the list of timers is the
  delta list in its order, whose walk the largest delta in the header ends.  No fuel is used.

  \<^bold>\<open>Configuration.\<close>  That of \<^verbatim>\<open>app/chconf.h\<close>: all kernel subsystems enabled, FIFO semaphores and messages,
  a time quantum of 20 ticks, 1000 ticks a second, debug checks off; \<open>int\<close> and \<open>long\<close> of 32 bits, an
  unsigned \<open>char\<close>, no floating point in \<open>chprintf\<close>.

  \<^bold>\<open>Parameters.\<close>  Timer callbacks and memory providers of the application, the notification callbacks
  of drivers (assumed to leave the queue and the bytes of memory alone where the contents of a queue are
  at issue), the callbacks of a USB configuration and the status of USB endpoints, the characters
  that the console delivers, and the contents of uninitialised memory.

  \<^bold>\<open>Not modelled.\<close>
  \<^item> The machine context, interrupt entry and start-up code of \<^verbatim>\<open>os/ports\<close>, and \<open>chSysInit\<close> with the idle
    thread: assembly and registers; a context switch is a suspension point here.
  \<^item> \<^verbatim>\<open>chdebug.c\<close>: its checks and traces are compiled out in this configuration.
  \<^item> The other drivers of \<^verbatim>\<open>os/hal\<close>: the upper layer checks a state and forwards to the low level
    drivers, whose behaviour is that of peripherals.
  \<^item> The evaluator and the objects of the script interpreter, with its native functions; the file
    system and the network stack in \<^verbatim>\<open>ext\<close>; the shells, the C library glue and the bindings of
    \<^verbatim>\<open>os/various\<close>: they are left for later work.
  \<^item> The boards, the application's tables and main program, and the tests: configuration and
    pure I/O.
\<close>

end
